(* ===== verification/Prelude.thy ===== *)
theory Prelude
  imports Main "HOL-Library.Word"
begin

text \<open>
  Shared vocabulary of the development: the machine types of the C++ sources, the
  exceptions the sources throw, little-endian byte strings, sums over a finite set of
  threads, and the interface \<open>codec\<close> that every serialised datum of the write-ahead log
  implements.
\<close>

unbundle bit_operations_syntax

section \<open>Machine types\<close>

type_synonym u8 = "8 word"
type_synonym u16 = "16 word"
type_synonym u32 = "32 word"
type_synonym u64 = "64 word"
type_synonym bytes = "u8 list"

text \<open>
  Timestamps, vertex ids and counters of the concurrency control are kept as natural
  numbers with the C++ wrap-around written out: \<open>u32_max\<close> is
  \<open>std::numeric_limits<uint32_t>::max()\<close>.
\<close>

abbreviation u32_max :: nat where "u32_max \<equiv> 2 ^ 32 - 1"
abbreviation u32_succ :: "nat \<Rightarrow> nat" where "u32_succ n \<equiv> (n + 1) mod 2 ^ 32"

lemma u32_succ_small [simp]: "n < u32_max \<Longrightarrow> u32_succ n = n + 1"
  by simp

section \<open>Errors\<close>

text \<open>
  The exception classes thrown through the \<open>THROW_*\<close> macros
  (\<open>include/neug/utils/exception/exception.h\<close>), \<open>CheckFailed\<close> for glog's \<open>CHECK\<close>, which
  aborts the process, and \<open>UndefinedBehaviour\<close> for reads and writes the C++ standard gives
  no meaning to. Message texts are not part of the model.
\<close>

datatype neug_error =
    RuntimeError
  | InternalException
  | InvalidArgument
  | StorageException
  | NotSupported
  | TransactionTimeout
  | IoException
  | IndexException
  | CheckFailed
  | UndefinedBehaviour

type_synonym 'a res = "neug_error + 'a"

fun res_bind :: "'a res \<Rightarrow> ('a \<Rightarrow> 'b res) \<Rightarrow> 'b res" where
  "res_bind (Inl e) f = Inl e"
| "res_bind (Inr x) f = f x"

lemma res_bind_Inr_iff [simp]:
  "res_bind r f = Inr y \<longleftrightarrow> (\<exists>x. r = Inr x \<and> f x = Inr y)"
  by (cases r) auto

section \<open>Sums over threads\<close>

text \<open>
  A concurrent component is a finite set of threads \<open>i < n\<close> with a local state each, and
  a counter of the component is the sum of what each thread contributes to it. One
  thread moving changes the sum by the difference of its own contribution.
\<close>

definition total :: "('s \<Rightarrow> nat) \<Rightarrow> nat \<Rightarrow> (nat \<Rightarrow> 's) \<Rightarrow> nat" where
  "total f n ts = (\<Sum>j<n. f (ts j))"

definition others :: "('s \<Rightarrow> nat) \<Rightarrow> nat \<Rightarrow> nat \<Rightarrow> (nat \<Rightarrow> 's) \<Rightarrow> nat" where
  "others f n i ts = (\<Sum>j\<in>{..<n} - {i}. f (ts j))"

lemma total_split: "i < n \<Longrightarrow> total f n ts = f (ts i) + others f n i ts"
  unfolding total_def others_def by (rule sum.remove) simp_all

lemma others_upd [simp]: "others f n i (ts(i := x)) = others f n i ts"
  unfolding others_def by (rule sum.cong) auto

lemma total_upd: "i < n \<Longrightarrow> total f n (ts(i := x)) = f x + others f n i ts"
  by (simp add: total_split [of i])

lemma total_upd_same: "f x = f (ts i) \<Longrightarrow> total f n (ts(i := x)) = total f n ts"
  unfolding total_def by (rule sum.cong) auto

lemma total_member: "i < n \<Longrightarrow> f (ts i) \<le> total f n ts"
  by (simp add: total_split [of i])

lemma others_member: "j < n \<Longrightarrow> j \<noteq> i \<Longrightarrow> f (ts j) \<le> others f n i ts"
  unfolding others_def by (rule member_le_sum) auto

lemma total_zeroD: "total f n ts = 0 \<Longrightarrow> i < n \<Longrightarrow> f (ts i) = 0"
  using total_member [of i n f ts] by simp

lemma total_le_count: "(\<And>s. f s \<le> 1) \<Longrightarrow> total f n ts \<le> n"
  unfolding total_def using sum_mono [of "{..<n}" "\<lambda>j. f (ts j)" "\<lambda>_. 1"] by simp

lemma others_less:
  assumes "i < n" "\<And>s. f s \<le> 1"
  shows "others f n i ts < n"
proof -
  have "others f n i ts \<le> (\<Sum>j\<in>{..<n} - {i}. 1)"
    unfolding others_def by (rule sum_mono) (rule assms)
  also have "\<dots> < n" using assms by simp
  finally show ?thesis .
qed

lemma others_mono: "(\<And>s. f s \<le> g s) \<Longrightarrow> others f n i ts \<le> others g n i ts"
  unfolding others_def by (rule sum_mono)

lemma total_mono: "(\<And>s. f s \<le> g s) \<Longrightarrow> total f n ts \<le> total g n ts"
  unfolding total_def by (rule sum_mono)

lemma total_const [simp]: "f x = 0 \<Longrightarrow> total f n (\<lambda>_. x) = 0"
  by (simp add: total_def)

section \<open>Little-endian bytes\<close>

text \<open>
  \<open>memcpy\<close> of an integer of \<open>n\<close> bytes, as the archives and encoders do, is its
  little-endian representation on every platform the project supports.
\<close>

fun le_bytes :: "nat \<Rightarrow> nat \<Rightarrow> bytes" where
  "le_bytes 0 v = []"
| "le_bytes (Suc n) v = of_nat v # le_bytes n (v div 256)"

fun le_val :: "bytes \<Rightarrow> nat" where
  "le_val [] = 0"
| "le_val (b # bs) = unat b + 256 * le_val bs"

lemma length_le_bytes [simp]: "length (le_bytes n v) = n"
  by (induction n arbitrary: v) auto

lemma le_val_le_bytes: "le_val (le_bytes n v) = v mod 256 ^ n"
proof (induction n arbitrary: v)
  case (Suc n)
  have "v mod (256 * 256 ^ n) = v mod 256 + 256 * (v div 256 mod 256 ^ n)"
    by (metis add.commute mod_mult2_eq)
  then show ?case by (simp add: Suc unat_of_nat take_bit_eq_mod)
qed simp

lemma le_val_bound: "le_val bs < 256 ^ length bs"
proof (induction bs)
  case (Cons b bs)
  have "unat b < 256" using unsigned_less [of b, where ?'a = nat] by simp
  with Cons show ?case by simp
qed simp

lemma le_bytes_le_val: "length bs = n \<Longrightarrow> le_bytes n (le_val bs) = bs"
proof (induction bs arbitrary: n)
  case (Cons b bs)
  have b: "unat b < 256" using unsigned_less [of b, where ?'a = nat] by simp
  have "(unat b + 256 * le_val bs) div 256 = le_val bs" using b by simp
  moreover have "(of_nat (unat b + 256 * le_val bs) :: u8) = b"
  proof -
    have z: "(of_nat 256 :: u8) = 0" by (simp add: word_of_nat_eq_0_iff)
    show ?thesis by (simp only: of_nat_add of_nat_mult z) simp
  qed
  ultimately show ?case using Cons by (auto simp del: of_nat_add)
qed simp

section \<open>Words as numbers\<close>

lemma unat_drop_bit:
  fixes w :: "'a::len word"
  shows "unat (drop_bit n w) = unat w div 2 ^ n"
proof -
  have "take_bit LENGTH('a) (unat w) = unat w" by (simp add: unsigned_take_bit_eq [symmetric])
  then show ?thesis by (simp only: unsigned_drop_bit_eq drop_bit_eq_div [where ?'a = nat])
qed

lemma unat_take_bit:
  fixes w :: "'a::len word"
  shows "unat (take_bit n w) = unat w mod 2 ^ n"
  by (simp only: unsigned_take_bit_eq take_bit_eq_mod [where ?'a = nat])

lemma radix_fields:
  fixes b :: nat
  assumes "i < b" "r < b"
  shows "(r + b * (i + b * p)) mod b = r"
    and "(r + b * (i + b * p)) div b mod b = i"
    and "(r + b * (i + b * p)) div b div b = p"
  using assms by simp_all

lemma radix_join: "n mod b + b * (n div b mod b + b * (n div b div b)) = (n :: nat)"
  by simp

lemma unat_ucast_small:
  fixes w :: "'a::len word"
  assumes "unat w < 2 ^ LENGTH('b::len)"
  shows "unat (ucast w :: 'b word) = unat w"
  using assms by (simp add: unsigned_ucast_eq take_bit_eq_mod)

section \<open>The codec interface\<close>

text \<open>
  Serialised data are byte strings. A writer yields the bytes it appends and, when it throws,
  the error after the bytes appended so far; a reader peels a prefix and returns what is left,
  as \<open>OutArchive\<close> does with its cursor. Reading beyond the end of the buffer is undefined
  behaviour.
\<close>

type_synonym written = "bytes \<times> neug_error option"
type_synonym 'a reader = "bytes \<Rightarrow> ('a \<times> bytes) res"

fun wcat :: "written list \<Rightarrow> written" where
  "wcat [] = ([], None)"
| "wcat ((b, None) # ws) = (b @ fst (wcat ws), snd (wcat ws))"
| "wcat ((b, Some e) # ws) = (b, Some e)"

lemma wcat_ok [simp]:
  "wcat (w # ws) = (b, None) \<longleftrightarrow>
     (\<exists>b1 b2. w = (b1, None) \<and> wcat ws = (b2, None) \<and> b = b1 @ b2)"
proof (cases w)
  case (Pair a e)
  then show ?thesis by (cases e; cases "wcat ws") auto
qed

definition rret :: "'a \<Rightarrow> 'a reader" where "rret x bs = Inr (x, bs)"

definition rbind :: "'a reader \<Rightarrow> ('a \<Rightarrow> 'b reader) \<Rightarrow> 'b reader" where
  "rbind r f bs = res_bind (r bs) (\<lambda>(x, rest). f x rest)"

definition rfail :: "neug_error \<Rightarrow> 'a reader" where "rfail e bs = Inl e"

lemma rbind_ok [simp]: "r bs = Inr (x, rest) \<Longrightarrow> rbind r f bs = f x rest"
  by (simp add: rbind_def)

lemma rret_apply [simp]: "rret x bs = Inr (x, bs)"
  by (simp add: rret_def)

text \<open>\<open>n\<close> values one after the other.\<close>

fun get_n :: "'a reader \<Rightarrow> nat \<Rightarrow> 'a list reader" where
  "get_n r 0 = rret []"
| "get_n r (Suc n) = rbind r (\<lambda>x. rbind (get_n r n) (\<lambda>xs. rret (x # xs)))"

text \<open>
  A codec is a pair of a writer and a reader such that reading back what was written returns
  the value, normalised by \<open>norm\<close>, and leaves the rest untouched. \<open>wf\<close> is the set of
  values the code can write.
\<close>

locale codec =
  fixes enc :: "'a \<Rightarrow> written" and dec :: "'b reader" and wf :: "'a \<Rightarrow> bool" and norm :: "'a \<Rightarrow> 'b"
  assumes dec_enc: "wf x \<Longrightarrow> enc x = (b, None) \<Longrightarrow> dec (b @ rest) = Inr (norm x, rest)"
begin

lemma prefix_free:
  assumes "wf x" "wf y" "enc x = (b, None)" "enc y = (c, None)" "b @ r = c @ s"
  shows "norm x = norm y \<and> r = s"
  using dec_enc [OF assms(1,3), of r] dec_enc [OF assms(2,4), of s] assms(5) by simp

lemma dec_enc_n:
  "\<forall>x\<in>set xs. wf x \<Longrightarrow> wcat (map enc xs) = (b, None) \<Longrightarrow>
     get_n dec (length xs) (b @ rest) = Inr (map norm xs, rest)"
proof (induction xs arbitrary: b)
  case (Cons x xs)
  from Cons.prems obtain b1 b2 where b: "enc x = (b1, None)" "wcat (map enc xs) = (b2, None)" "b = b1 @ b2"
    by auto
  then have "get_n dec (length xs) (b2 @ rest) = Inr (map norm xs, rest)" using Cons by simp
  moreover have "dec (b1 @ b2 @ rest) = Inr (norm x, b2 @ rest)" using Cons.prems b dec_enc by simp
  ultimately show ?case using b by simp
qed simp

end

text \<open>
  Recursive readers carry a fuel. Two readers agree below a length when they give the same
  result on all shorter inputs; a reader shrinks its input.
\<close>

definition shrinks :: "'a reader \<Rightarrow> bool" where
  "shrinks r \<longleftrightarrow> (\<forall>bs x rest. r bs = Inr (x, rest) \<longrightarrow> length rest \<le> length bs)"

definition agree :: "nat \<Rightarrow> 'a reader \<Rightarrow> 'a reader \<Rightarrow> bool" where
  "agree k r s \<longleftrightarrow> (\<forall>bs. length bs < k \<longrightarrow> r bs = s bs)"

named_theorems reader_intros

lemma shrinks_rret [reader_intros]: "shrinks (rret x)"
  by (simp add: shrinks_def rret_def)

lemma shrinks_rfail [reader_intros]: "shrinks (rfail e)"
  by (simp add: shrinks_def rfail_def)

lemma shrinks_rbind [reader_intros]: "shrinks r \<Longrightarrow> (\<And>x. shrinks (f x)) \<Longrightarrow> shrinks (rbind r f)"
  unfolding shrinks_def rbind_def by (auto, meson le_trans)

lemma shrinks_get_n [reader_intros]: "shrinks r \<Longrightarrow> shrinks (get_n r n)"
  by (induction n) (auto intro!: reader_intros)

lemma agree_refl [reader_intros]: "agree k r r"
  by (simp add: agree_def)

lemma agree_rbind [reader_intros]:
  "agree k r s \<Longrightarrow> shrinks r \<Longrightarrow> (\<And>x. agree k (f x) (g x)) \<Longrightarrow> agree k (rbind r f) (rbind s g)"
proof -
  assume a: "agree k r s" "shrinks r" "\<And>x. agree k (f x) (g x)"
  have "res_bind (r bs) (\<lambda>(x, rest). f x rest) = res_bind (r bs) (\<lambda>(x, rest). g x rest)" if "length bs < k" for bs
    using that a(2,3) by (cases "r bs") (auto simp: shrinks_def agree_def, meson le_less_trans)
  then show ?thesis using a(1) by (simp add: agree_def rbind_def)
qed

lemma agree_get_n [reader_intros]: "agree k r s \<Longrightarrow> shrinks r \<Longrightarrow> agree k (get_n r n) (get_n s n)"
  by (induction n) (auto intro!: reader_intros)

end
