(* ===== verification/Operation_Gate.thy ===== *)
theory Operation_Gate
  imports Prelude
begin

text \<open>
  The packed admission gate (\<open>include/neug/transaction/operation_gate.h\<close>,
  \<open>src/transaction/operation_gate.cc\<close>). One 64-bit atomic word holds the admission phase
  and the counts of active readers and inserters. The first section models the word; the
  second every method of \<open>OperationGate\<close> as a function that performs its next atomic
  action on the word; the lemmas relate the bit operations to a triple of a phase and two
  counters.
\<close>

section \<open>The gate word\<close>

text \<open>
  \<open>kReserved\<close> is the fourth value two bits can hold; no enumerator has it, and no
  operation produces it.
\<close>

datatype AdmissionState = kOpen | kInsertsBlocked | kAllBlocked | kReserved

fun phase_code :: "AdmissionState \<Rightarrow> u64" where
  "phase_code kOpen = 0"
| "phase_code kInsertsBlocked = 1"
| "phase_code kAllBlocked = 2"
| "phase_code kReserved = 3"

definition kMaxReaderCount :: u32 where "kMaxReaderCount = 0x7fffffff"
definition kMaxInserterCount :: u32 where "kMaxInserterCount = 0x7fffffff"
definition kReaderMask :: u64 where "kReaderMask = ucast kMaxReaderCount"
definition kInserterMask :: u64 where "kInserterMask = push_bit 31 (ucast kMaxInserterCount)"
definition kPhaseMask :: u64 where "kPhaseMask = push_bit 62 3"
definition kReaderUnit :: u64 where "kReaderUnit = 1"
definition kInserterUnit :: u64 where "kInserterUnit = push_bit 31 1"

definition empty_word :: "AdmissionState \<Rightarrow> u64" where
  "empty_word ph = push_bit 62 (phase_code ph)"

definition phase :: "u64 \<Rightarrow> AdmissionState" where
  "phase w = (let c = drop_bit 62 w in
     if c = 0 then kOpen else if c = 1 then kInsertsBlocked
     else if c = 2 then kAllBlocked else kReserved)"

definition readers :: "u64 \<Rightarrow> u32" where
  "readers w = ucast (w AND kReaderMask)"

definition inserters :: "u64 \<Rightarrow> u32" where
  "inserters w = ucast (drop_bit 31 w AND ucast kMaxInserterCount)"

definition with_phase :: "u64 \<Rightarrow> AdmissionState \<Rightarrow> u64" where
  "with_phase w ph = (w AND NOT kPhaseMask) OR push_bit 62 (phase_code ph)"

definition increment_inserter :: "u64 \<Rightarrow> u64" where
  "increment_inserter w = w + kInserterUnit"

text \<open>
  A compare-and-swap returns whether it wrote, the new word, and the value it left in
  \<open>observed\<close>; the weak form may fail although the word has the expected value
  (\<open>spurious\<close>).
\<close>

definition cas_weak :: "bool \<Rightarrow> u64 \<Rightarrow> u64 \<Rightarrow> u64 \<Rightarrow> bool \<times> u64 \<times> u64" where
  "cas_weak spurious w observed desired =
     (if w = observed \<and> \<not> spurious then (True, desired, observed) else (False, w, w))"

definition try_change_phase :: "bool \<Rightarrow> u64 \<Rightarrow> u64 \<Rightarrow> AdmissionState \<Rightarrow> bool \<times> u64 \<times> u64" where
  "try_change_phase spurious w observed desired_phase =
     cas_weak spurious w observed (with_phase observed desired_phase)"

section \<open>Gate methods as sequences of atomic actions\<close>

text \<open>
  Each method is a loop around atomic accesses to the word. Its control points are a
  datatype, and its \<open>_step\<close> function performs the actions up to and including the next
  access, with the outcome \<open>Go\<close> the next control point, \<open>Return\<close> the returned value
  (\<open>True\<close> for \<open>void\<close>) or \<open>Throw\<close>. \<open>spurious\<close> is the environment's choice of a
  spurious failure of a weak compare-and-swap, and \<open>expired\<close> the value of
  \<open>DeadlineExpired(deadline)\<close> at this step. Backoff waits change no state.
\<close>

datatype 'p outcome = Go 'p | Return bool | Throw neug_error

text \<open>\<open>SRollback ex\<close> is the rollback of a rejected speculative increment, \<open>SUndo\<close> the
  one of an increment that succeeded after the deadline.\<close>

datatype shared_pc = SLoad | SAdd | SRollback bool | SUndo

definition reader_admitted :: "u64 \<Rightarrow> bool" where
  "reader_admitted previous \<longleftrightarrow>
     phase previous \<noteq> kAllBlocked \<and> \<not> readers previous \<ge> kMaxReaderCount"

fun acquire_shared_step :: "shared_pc \<Rightarrow> u64 \<Rightarrow> shared_pc outcome \<times> u64" where
  "acquire_shared_step SLoad w =
     (Go (if phase w = kAllBlocked then SLoad else SAdd), w)"
| "acquire_shared_step SAdd w =
     (if reader_admitted w then Return True
      else Go (SRollback (readers w \<ge> kMaxReaderCount)), w + kReaderUnit)"
| "acquire_shared_step (SRollback exhausted) w =
     (if exhausted then Throw RuntimeError else Go SLoad, w - kReaderUnit)"
| "acquire_shared_step SUndo w = (Return False, w - kReaderUnit)"

fun acquire_shared_until_step :: "bool \<Rightarrow> shared_pc \<Rightarrow> u64 \<Rightarrow> shared_pc outcome \<times> u64" where
  "acquire_shared_until_step expired SLoad w =
     (if expired then Return False
      else Go (if phase w = kAllBlocked then SLoad else SAdd), w)"
| "acquire_shared_until_step expired SAdd w =
     (if reader_admitted w then (if \<not> expired then Return True else Go SUndo)
      else Go (SRollback (readers w \<ge> kMaxReaderCount)), w + kReaderUnit)"
| "acquire_shared_until_step expired (SRollback exhausted) w =
     (if exhausted then Throw RuntimeError else Go SLoad, w - kReaderUnit)"
| "acquire_shared_until_step expired SUndo w = (Return False, w - kReaderUnit)"

datatype release_pc = RLoad | RSub

fun release_shared_step :: "release_pc \<Rightarrow> u64 \<Rightarrow> release_pc outcome \<times> u64" where
  "release_shared_step RLoad w =
     (if readers w = 0 then Throw InternalException else Go RSub, w)"
| "release_shared_step RSub w = (Return True, w - kReaderUnit)"

text \<open>\<open>CLoad\<close> loads the word, \<open>CTry observed\<close> is about to compare-and-swap.\<close>

datatype cas_pc = CLoad | CTry u64

definition acquire_inserter_check :: "u64 \<Rightarrow> cas_pc outcome" where
  "acquire_inserter_check observed =
     (if phase observed \<noteq> kOpen then Go CLoad
      else if inserters observed = kMaxInserterCount then Throw RuntimeError
      else Go (CTry observed))"

fun acquire_inserter_step :: "bool \<Rightarrow> cas_pc \<Rightarrow> u64 \<Rightarrow> cas_pc outcome \<times> u64" where
  "acquire_inserter_step spurious CLoad w = (acquire_inserter_check w, w)"
| "acquire_inserter_step spurious (CTry observed) w =
     (case cas_weak spurious w observed (increment_inserter observed) of
        (ok, w', observed') \<Rightarrow>
          (if ok then Return True else acquire_inserter_check observed', w'))"

fun release_inserter_step :: "release_pc \<Rightarrow> u64 \<Rightarrow> release_pc outcome \<times> u64" where
  "release_inserter_step RLoad w =
     (if inserters w = 0 then Throw InternalException else Go RSub, w)"
| "release_inserter_step RSub w = (Return True, w - kInserterUnit)"

definition enter_phase_check :: "u64 \<Rightarrow> cas_pc outcome" where
  "enter_phase_check observed =
     (if phase observed \<noteq> kOpen then Go CLoad else Go (CTry observed))"

fun enter_phase_step ::
  "AdmissionState \<Rightarrow> bool \<Rightarrow> cas_pc \<Rightarrow> u64 \<Rightarrow> cas_pc outcome \<times> u64" where
  "enter_phase_step desired spurious CLoad w = (enter_phase_check w, w)"
| "enter_phase_step desired spurious (CTry observed) w =
     (case try_change_phase spurious w observed desired of
        (ok, w', observed') \<Rightarrow>
          (if ok then Return True else enter_phase_check observed', w'))"

text \<open>
  \<open>reopen\<close> checks the phase only in debug builds (\<open>DCHECK\<close>); \<open>unseal_to_open\<close> is the
  same loop.
\<close>

fun reopen_step :: "bool \<Rightarrow> cas_pc \<Rightarrow> u64 \<Rightarrow> cas_pc outcome \<times> u64" where
  "reopen_step spurious CLoad w = (Go (CTry w), w)"
| "reopen_step spurious (CTry observed) w =
     (case try_change_phase spurious w observed kOpen of
        (ok, w', observed') \<Rightarrow> (if ok then Return True else Go (CTry observed'), w'))"

definition unseal_to_open_step :: "bool \<Rightarrow> cas_pc \<Rightarrow> u64 \<Rightarrow> cas_pc outcome \<times> u64" where
  "unseal_to_open_step = reopen_step"

text \<open>\<open>EEnter\<close> is the loop of \<open>enter_phase_until\<close>, \<open>EReopen\<close> the call of \<open>reopen\<close>
  after a phase change that came too late.\<close>

datatype enter_pc = EEnter cas_pc | EReopen cas_pc

fun enter_phase_until_step ::
  "AdmissionState \<Rightarrow> bool \<Rightarrow> bool \<Rightarrow> enter_pc \<Rightarrow> u64 \<Rightarrow> enter_pc outcome \<times> u64" where
  "enter_phase_until_step desired expired spurious (EEnter CLoad) w =
     (if expired then Return False
      else if phase w = kOpen then Go (EEnter (CTry w)) else Go (EEnter CLoad), w)"
| "enter_phase_until_step desired expired spurious (EEnter (CTry observed)) w =
     (case try_change_phase spurious w observed desired of
        (ok, w', observed') \<Rightarrow>
          (if \<not> ok then Go (EEnter CLoad)
           else if \<not> expired then Return True else Go (EReopen CLoad), w'))"
| "enter_phase_until_step desired expired spurious (EReopen pc) w =
     (case reopen_step spurious pc w of
        (Go pc', w') \<Rightarrow> (Go (EReopen pc'), w')
      | (Return b, w') \<Rightarrow> (Return False, w')
      | (Throw e, w') \<Rightarrow> (Throw e, w'))"

fun try_enter_phase_step :: "AdmissionState \<Rightarrow> cas_pc \<Rightarrow> u64 \<Rightarrow> cas_pc outcome \<times> u64" where
  "try_enter_phase_step desired CLoad w =
     (if phase w \<noteq> kOpen then Return False else Go (CTry w), w)"
| "try_enter_phase_step desired (CTry observed) w =
     (case cas_weak False w observed (with_phase observed desired) of
        (ok, w', _) \<Rightarrow> (Return ok, w'))"

definition transition_phase_check :: "AdmissionState \<Rightarrow> u64 \<Rightarrow> cas_pc outcome" where
  "transition_phase_check expected observed =
     (if phase observed \<noteq> expected then Throw InternalException else Go (CTry observed))"

fun transition_phase_step ::
  "AdmissionState \<Rightarrow> AdmissionState \<Rightarrow> bool \<Rightarrow> cas_pc \<Rightarrow> u64 \<Rightarrow> cas_pc outcome \<times> u64" where
  "transition_phase_step expected desired spurious CLoad w =
     (transition_phase_check expected w, w)"
| "transition_phase_step expected desired spurious (CTry observed) w =
     (case try_change_phase spurious w observed desired of
        (ok, w', observed') \<Rightarrow>
          (if ok then Return True else transition_phase_check expected observed', w'))"

text \<open>The drain loops only load; \<open>Go ()\<close> is another round.\<close>

definition wait_readers_drained_step :: "u64 \<Rightarrow> unit outcome" where
  "wait_readers_drained_step w = (if readers w = 0 then Return True else Go ())"

definition wait_inserters_drained_step :: "u64 \<Rightarrow> unit outcome" where
  "wait_inserters_drained_step w = (if inserters w = 0 then Return True else Go ())"

definition wait_readers_drained_until_step :: "bool \<Rightarrow> u64 \<Rightarrow> unit outcome" where
  "wait_readers_drained_until_step expired w =
     (if readers w = 0 then Return (\<not> expired)
      else if expired then Return False else Go ())"

definition wait_inserters_drained_until_step :: "bool \<Rightarrow> u64 \<Rightarrow> unit outcome" where
  "wait_inserters_drained_until_step expired w =
     (if inserters w = 0 then Return (\<not> expired)
      else if expired then Return False else Go ())"

text \<open>Sealing is one strong compare-and-swap against the empty open word.\<close>

definition try_seal_open_state :: "u64 \<Rightarrow> bool \<times> u64" where
  "try_seal_open_state w =
     (case cas_weak False w (empty_word kOpen) (empty_word kAllBlocked) of
        (ok, w', _) \<Rightarrow> (ok, w'))"

definition reset_open :: u64 where "reset_open = empty_word kOpen"

section \<open>The word as a phase and two counters\<close>

text \<open>
  \<open>gate_word ph ins rd\<close> is the word with these fields. The bit operations of the code are
  arithmetic on the triple as long as no counter leaves its 31 bits.
\<close>

fun phase_num :: "AdmissionState \<Rightarrow> nat" where
  "phase_num kOpen = 0"
| "phase_num kInsertsBlocked = 1"
| "phase_num kAllBlocked = 2"
| "phase_num kReserved = 3"

definition gate_word :: "AdmissionState \<Rightarrow> nat \<Rightarrow> nat \<Rightarrow> u64" where
  "gate_word ph ins rd = of_nat (phase_num ph * 2 ^ 62 + ins * 2 ^ 31 + rd)"

lemma phase_num_less [simp]: "phase_num ph < 4"
  by (cases ph) simp_all

lemma phase_num_inject [simp]: "phase_num a = phase_num b \<longleftrightarrow> a = b"
  by (cases a; cases b) simp_all

lemma unat_phase_code [simp]: "unat (phase_code ph) = phase_num ph"
  by (cases ph) simp_all

lemma phase_code_of_num: "phase_code ph = of_nat (phase_num ph)"
  by (cases ph) simp_all

lemma gate_num_bound:
  assumes "ins < 2 ^ 31" "rd < 2 ^ 31"
  shows "phase_num ph * 2 ^ 62 + ins * 2 ^ 31 + rd < 2 ^ 64"
  using assms by (cases ph) auto

lemma unat_gate_word:
  assumes "ins < 2 ^ 31" "rd < 2 ^ 31"
  shows "unat (gate_word ph ins rd) = phase_num ph * 2 ^ 62 + ins * 2 ^ 31 + rd"
  unfolding gate_word_def using gate_num_bound [OF assms]
  by (simp add: unat_of_nat take_bit_eq_mod del: of_nat_add of_nat_mult)

lemma mod_pow_less: "(n :: nat) mod 2 ^ 31 < 2 ^ 32"
  by (rule less_trans [OF mod_less_divisor]) simp_all

lemma unat_readers: "unat (readers w) = unat w mod 2 ^ 31"
proof -
  have m: "w AND kReaderMask = take_bit 31 w"
    by (simp add: kReaderMask_def kMaxReaderCount_def take_bit_eq_mask mask_eq_exp_minus_1)
  have "unat (take_bit 31 w) < 2 ^ LENGTH(32)"
    unfolding unat_take_bit using mod_pow_less by simp
  then show ?thesis unfolding readers_def m by (simp only: unat_ucast_small unat_take_bit)
qed

lemma unat_inserters: "unat (inserters w) = unat w div 2 ^ 31 mod 2 ^ 31"
proof -
  have m: "drop_bit 31 w AND ucast kMaxInserterCount = take_bit 31 (drop_bit 31 w)"
    by (simp add: kMaxInserterCount_def take_bit_eq_mask mask_eq_exp_minus_1)
  have "unat (take_bit 31 (drop_bit 31 w)) < 2 ^ LENGTH(32)"
    unfolding unat_take_bit using mod_pow_less by simp
  then show ?thesis
    unfolding inserters_def m by (simp only: unat_ucast_small unat_take_bit unat_drop_bit)
qed

lemma phase_num_phase: "phase_num (phase w) = unat w div 2 ^ 62"
proof -
  note u = unat_drop_bit [of 62 w, symmetric]
  have "unat w < 2 ^ 64" using unsigned_less [of w, where ?'a = nat] by simp
  then have "unat w div 2 ^ 62 < 4" by simp
  then consider "unat w div 2 ^ 62 = 0" | "unat w div 2 ^ 62 = 1" | "unat w div 2 ^ 62 = 2"
    | "unat w div 2 ^ 62 = 3" by linarith
  then show ?thesis unfolding u by cases (simp_all add: phase_def Let_def word_unat_eq_iff)
qed

text \<open>Every word is the packing of its own fields, and the fields are independent.\<close>

lemma unat_gate_word_radix:
  assumes "ins < 2 ^ 31" "rd < 2 ^ 31"
  shows "unat (gate_word ph ins rd) = rd + 2 ^ 31 * (ins + 2 ^ 31 * phase_num ph)"
  using unat_gate_word [OF assms] by simp

lemma div_62: "n div 2 ^ 62 = n div 2 ^ 31 div (2 ^ 31 :: nat)"
  by (simp add: div_mult2_eq [symmetric])

lemma gate_word_fields:
  assumes "ins < 2 ^ 31" "rd < 2 ^ 31"
  shows "phase (gate_word ph ins rd) = ph"
    and "unat (readers (gate_word ph ins rd)) = rd"
    and "unat (inserters (gate_word ph ins rd)) = ins"
proof -
  note n = unat_gate_word_radix [OF assms]
  show "unat (readers (gate_word ph ins rd)) = rd"
    unfolding unat_readers n by (rule radix_fields [OF assms])
  show "unat (inserters (gate_word ph ins rd)) = ins"
    unfolding unat_inserters n by (rule radix_fields [OF assms])
  have "phase_num (phase (gate_word ph ins rd)) = phase_num ph"
    unfolding phase_num_phase n div_62 by (rule radix_fields [OF assms])
  then show "phase (gate_word ph ins rd) = ph" by simp
qed

lemma gate_word_of_fields: "gate_word (phase w) (unat (inserters w)) (unat (readers w)) = w"
proof -
  have "phase_num (phase w) * 2 ^ 62 + unat (inserters w) * 2 ^ 31 + unat (readers w)
      = unat (readers w) + 2 ^ 31 * (unat (inserters w) + 2 ^ 31 * phase_num (phase w))" by simp
  also have "\<dots> = unat w"
    unfolding phase_num_phase unat_inserters unat_readers div_62 by (rule radix_join)
  finally show ?thesis unfolding gate_word_def by (simp del: of_nat_add of_nat_mult)
qed

lemma gate_word_cases:
  obtains ph ins rd where "w = gate_word ph ins rd" "ins < 2 ^ 31" "rd < 2 ^ 31"
proof
  show "w = gate_word (phase w) (unat (inserters w)) (unat (readers w))"
    by (simp add: gate_word_of_fields)
  show "unat (inserters w) < 2 ^ 31" unfolding unat_inserters by simp
  show "unat (readers w) < 2 ^ 31" unfolding unat_readers by simp
qed

lemma gate_word_eq_iff:
  assumes "ins < 2 ^ 31" "rd < 2 ^ 31" "ins' < 2 ^ 31" "rd' < 2 ^ 31"
  shows "gate_word ph ins rd = gate_word ph' ins' rd' \<longleftrightarrow> ph = ph' \<and> ins = ins' \<and> rd = rd'"
  using gate_word_fields assms by metis

lemma readers_zero_iff: "readers w = 0 \<longleftrightarrow> unat (readers w) = 0"
  by (simp add: unat_eq_0)

lemma inserters_zero_iff: "inserters w = 0 \<longleftrightarrow> unat (inserters w) = 0"
  by (simp add: unat_eq_0)

lemma add_reader: "gate_word ph ins rd + kReaderUnit = gate_word ph ins (rd + 1)"
  by (simp add: gate_word_def kReaderUnit_def)

lemma sub_reader: "0 < rd \<Longrightarrow> gate_word ph ins rd - kReaderUnit = gate_word ph ins (rd - 1)"
  by (cases rd) (simp_all add: gate_word_def kReaderUnit_def)

lemma add_inserter: "increment_inserter (gate_word ph ins rd) = gate_word ph (ins + 1) rd"
  by (simp add: gate_word_def increment_inserter_def kInserterUnit_def)

lemma sub_inserter:
  "0 < ins \<Longrightarrow> gate_word ph ins rd - kInserterUnit = gate_word ph (ins - 1) rd"
  by (cases ins) (simp_all add: gate_word_def kInserterUnit_def)

lemma with_phase_sum: "with_phase w ph = take_bit 62 w + push_bit 62 (phase_code ph)"
proof -
  have "NOT kPhaseMask = mask 62" by (simp add: kPhaseMask_def mask_eq_exp_minus_1)
  then have "w AND NOT kPhaseMask = take_bit 62 w" by (simp add: take_bit_eq_mask)
  moreover have "take_bit 62 w AND push_bit 62 (phase_code ph) = 0"
    by (rule bit_eqI) (auto simp: bit_simps)
  ultimately show ?thesis by (simp add: with_phase_def disjunctive_add_eq_or)
qed

lemma with_phase_gate_word:
  assumes "ins < 2 ^ 31" "rd < 2 ^ 31"
  shows "with_phase (gate_word ph ins rd) ph' = gate_word ph' ins rd"
proof -
  have "take_bit 62 (gate_word ph ins rd) = gate_word kOpen ins rd"
  proof (rule word_unat_eq_iff [THEN iffD2])
    have "ins * 2 ^ 31 + rd < 2 ^ 62" using assms by simp
    then show "unat (take_bit 62 (gate_word ph ins rd)) = unat (gate_word kOpen ins rd)"
      unfolding unat_take_bit unat_gate_word [OF assms] by (simp add: add.assoc)
  qed
  then show ?thesis
    by (simp add: with_phase_sum gate_word_def phase_code_of_num push_bit_eq_mult)
qed

lemma empty_word_gate_word: "empty_word ph = gate_word ph 0 0"
  by (simp add: empty_word_def gate_word_def phase_code_of_num push_bit_eq_mult)
end
