(* ===== verification/Gate_Protocol.thy ===== *)
theory Gate_Protocol
  imports Operation_Gate
begin

text \<open>
  Any number of threads using one \<open>OperationGate\<close> at the same time. A thread is either
  between calls, holding what its last call gave it, or inside a call, at one of the
  control points of \<^theory_text>\<open>Operation_Gate\<close>. The step relation interleaves their atomic
  actions in every order; the invariant counts the threads' holdings against the fields
  of the word, and gives mutual exclusion.
\<close>

section \<open>Threads\<close>

text \<open>
  \<open>Owned ph ins rd\<close> is a thread that took the phase \<open>ph\<close> away from \<open>kOpen\<close>; \<open>ins\<close> and \<open>rd\<close>
  record that it has since returned from \<open>wait_inserters_drained\<close> and
  \<open>wait_readers_drained\<close>. \<open>ProbeIns\<close> is the single load by which
  \<open>try_acquire_update_timestamp\<close> looks for inserters. The boolean of \<open>AcqShared\<close>, \<open>WaitIns\<close> and \<open>WaitRd\<close> tells the
  \<open>_until\<close> variant.
\<close>

datatype gthread =
    Idle
  | AcqShared bool shared_pc
  | SharedHeld
  | RelShared release_pc
  | AcqInserter cas_pc
  | InserterHeld
  | RelInserter release_pc
  | Entering AdmissionState cas_pc
  | EnteringUntil AdmissionState enter_pc
  | TryEntering AdmissionState cas_pc
  | Sealing
  | Owned AdmissionState bool bool
  | WaitIns AdmissionState bool bool
  | WaitRd AdmissionState bool bool
  | ProbeIns AdmissionState bool
  | Transition AdmissionState AdmissionState bool bool cas_pc
  | Reopening AdmissionState cas_pc
  | Failed neug_error

fun after :: "'p outcome \<Rightarrow> ('p \<Rightarrow> gthread) \<Rightarrow> gthread \<Rightarrow> gthread \<Rightarrow> gthread" where
  "after (Go pc) continue ok refused = continue pc"
| "after (Return b) continue ok refused = (if b then ok else refused)"
| "after (Throw e) continue ok refused = Failed e"

text \<open>One atomic action of the call a thread is in.\<close>

fun gate_run :: "bool \<Rightarrow> bool \<Rightarrow> gthread \<Rightarrow> u64 \<Rightarrow> gthread \<times> u64" where
  "gate_run spurious expired (AcqShared timed pc) w =
     (case (if timed then acquire_shared_until_step expired pc w else acquire_shared_step pc w) of
        (r, w') \<Rightarrow> (after r (AcqShared timed) SharedHeld Idle, w'))"
| "gate_run spurious expired (RelShared pc) w =
     (case release_shared_step pc w of (r, w') \<Rightarrow> (after r RelShared Idle Idle, w'))"
| "gate_run spurious expired (AcqInserter pc) w =
     (case acquire_inserter_step spurious pc w of
        (r, w') \<Rightarrow> (after r AcqInserter InserterHeld Idle, w'))"
| "gate_run spurious expired (RelInserter pc) w =
     (case release_inserter_step pc w of (r, w') \<Rightarrow> (after r RelInserter Idle Idle, w'))"
| "gate_run spurious expired (Entering ph pc) w =
     (case enter_phase_step ph spurious pc w of
        (r, w') \<Rightarrow> (after r (Entering ph) (Owned ph False False) Idle, w'))"
| "gate_run spurious expired (EnteringUntil ph pc) w =
     (case enter_phase_until_step ph expired spurious pc w of
        (r, w') \<Rightarrow> (after r (EnteringUntil ph) (Owned ph False False) Idle, w'))"
| "gate_run spurious expired (TryEntering ph pc) w =
     (case try_enter_phase_step ph pc w of
        (r, w') \<Rightarrow> (after r (TryEntering ph) (Owned ph False False) Idle, w'))"
| "gate_run spurious expired Sealing w =
     (case try_seal_open_state w of
        (ok, w') \<Rightarrow> (if ok then Owned kAllBlocked True True else Idle, w'))"
| "gate_run spurious expired (WaitIns ph rd timed) w =
     (after (if timed then wait_inserters_drained_until_step expired w
             else wait_inserters_drained_step w)
        (\<lambda>_. WaitIns ph rd timed) (Owned ph True rd) (Owned ph False rd), w)"
| "gate_run spurious expired (WaitRd ph ins timed) w =
     (after (if timed then wait_readers_drained_until_step expired w
             else wait_readers_drained_step w)
        (\<lambda>_. WaitRd ph ins timed) (Owned ph ins True) (Owned ph ins False), w)"
| "gate_run spurious expired (ProbeIns ph rd) w = (Owned ph (inserters w = 0) rd, w)"
| "gate_run spurious expired (Transition ph ph' ins rd pc) w =
     (case transition_phase_step ph ph' spurious pc w of
        (r, w') \<Rightarrow> (after r (Transition ph ph' ins rd)
                      (if ph' = kOpen then Idle else Owned ph' ins rd) Idle, w'))"
| "gate_run spurious expired (Reopening ph pc) w =
     (case reopen_step spurious pc w of (r, w') \<Rightarrow> (after r (Reopening ph) Idle Idle, w'))"
| "gate_run spurious expired t w = (t, w)"

text \<open>
  The calls a thread may make next: it releases what it holds, and only the owner of the
  phase changes it, waits for a drain or reopens. \<open>VersionManager\<close>, the leases and
  \<open>try_set_runtime_wait_if_quiescent\<close> make no other calls.
\<close>

inductive gate_start :: "gthread \<Rightarrow> gthread \<Rightarrow> bool" where
  start_shared: "gate_start Idle (AcqShared timed SLoad)"
| start_inserter: "gate_start Idle (AcqInserter CLoad)"
| start_enter: "ph \<in> {kInsertsBlocked, kAllBlocked} \<Longrightarrow> gate_start Idle (Entering ph CLoad)"
| start_enter_until:
    "ph \<in> {kInsertsBlocked, kAllBlocked} \<Longrightarrow> gate_start Idle (EnteringUntil ph (EEnter CLoad))"
| start_try_enter:
    "ph \<in> {kInsertsBlocked, kAllBlocked} \<Longrightarrow> gate_start Idle (TryEntering ph CLoad)"
| start_seal: "gate_start Idle Sealing"
| start_rel_shared: "gate_start SharedHeld (RelShared RLoad)"
| start_rel_inserter: "gate_start InserterHeld (RelInserter RLoad)"
| start_wait_ins: "gate_start (Owned ph ins rd) (WaitIns ph rd timed)"
| start_wait_rd: "gate_start (Owned kAllBlocked ins rd) (WaitRd kAllBlocked ins timed)"
| start_probe_ins: "gate_start (Owned ph ins rd) (ProbeIns ph rd)"
| start_commit:
    "gate_start (Owned kInsertsBlocked ins rd) (Transition kInsertsBlocked kAllBlocked ins rd CLoad)"
| start_open: "gate_start (Owned ph ins rd) (Transition ph kOpen ins rd CLoad)"
| start_reopen: "gate_start (Owned ph ins rd) (Reopening ph CLoad)"

type_synonym gate_system = "u64 \<times> (nat \<Rightarrow> gthread)"

definition gate_init :: "gate_system \<Rightarrow> bool" where
  "gate_init s \<longleftrightarrow> s = (reset_open, \<lambda>_. Idle)"

inductive gate_step :: "nat \<Rightarrow> gate_system \<Rightarrow> gate_system \<Rightarrow> bool" for n where
  run: "i < n \<Longrightarrow> gate_run spurious expired (ts i) w = (t', w')
        \<Longrightarrow> gate_step n (w, ts) (w', ts(i := t'))"
| start: "i < n \<Longrightarrow> gate_start (ts i) t' \<Longrightarrow> gate_step n (w, ts) (w, ts(i := t'))"

inductive gate_reachable :: "nat \<Rightarrow> gate_system \<Rightarrow> bool" for n where
  reach_init: "gate_init s \<Longrightarrow> gate_reachable n s"
| reach_step: "gate_reachable n s \<Longrightarrow> gate_step n s s' \<Longrightarrow> gate_reachable n s'"

section \<open>What a thread holds\<close>

text \<open>Readers counted in the word: admitted ones and those about to be rolled back.\<close>

fun rcnt :: "gthread \<Rightarrow> nat" where
  "rcnt SharedHeld = 1"
| "rcnt (RelShared _) = 1"
| "rcnt (AcqShared _ (SRollback _)) = 1"
| "rcnt (AcqShared _ SUndo) = 1"
| "rcnt _ = 0"

fun admitted :: "gthread \<Rightarrow> nat" where
  "admitted SharedHeld = 1"
| "admitted (RelShared _) = 1"
| "admitted (AcqShared _ SUndo) = 1"
| "admitted _ = 0"

fun icnt :: "gthread \<Rightarrow> nat" where
  "icnt InserterHeld = 1"
| "icnt (RelInserter _) = 1"
| "icnt _ = 0"

fun own :: "gthread \<Rightarrow> AdmissionState option" where
  "own (Owned ph _ _) = Some ph"
| "own (WaitIns ph _ _) = Some ph"
| "own (WaitRd ph _ _) = Some ph"
| "own (ProbeIns ph _) = Some ph"
| "own (Transition ph _ _ _ _) = Some ph"
| "own (Reopening ph _) = Some ph"
| "own (EnteringUntil ph (EReopen _)) = Some ph"
| "own _ = None"

definition ocnt :: "gthread \<Rightarrow> nat" where
  "ocnt t = (case own t of None \<Rightarrow> 0 | Some _ \<Rightarrow> 1)"

text \<open>The thread has waited for the inserters (readers) after closing admission to them.\<close>

fun ins_drained :: "gthread \<Rightarrow> bool" where
  "ins_drained (Owned _ ins _) = ins"
| "ins_drained (WaitRd _ ins _) = ins"
| "ins_drained (Transition _ _ ins _ _) = ins"
| "ins_drained _ = False"

fun rd_drained :: "gthread \<Rightarrow> bool" where
  "rd_drained (Owned _ _ rd) = rd"
| "rd_drained (WaitIns _ rd _) = rd"
| "rd_drained (ProbeIns _ rd) = rd"
| "rd_drained (Transition _ _ _ rd _) = rd"
| "rd_drained _ = False"

text \<open>What a control point remembers of the checks made on the value it observed.\<close>

fun local_ok :: "gthread \<Rightarrow> bool" where
  "local_ok (AcqShared _ (SRollback exhausted)) = (\<not> exhausted)"
| "local_ok (AcqInserter (CTry ob)) = (phase ob = kOpen)"
| "local_ok (Entering ph pc) =
     (ph \<in> {kInsertsBlocked, kAllBlocked} \<and> (\<forall>ob. pc = CTry ob \<longrightarrow> phase ob = kOpen))"
| "local_ok (EnteringUntil ph pc) =
     (ph \<in> {kInsertsBlocked, kAllBlocked} \<and> (\<forall>ob. pc = EEnter (CTry ob) \<longrightarrow> phase ob = kOpen))"
| "local_ok (TryEntering ph pc) =
     (ph \<in> {kInsertsBlocked, kAllBlocked} \<and> (\<forall>ob. pc = CTry ob \<longrightarrow> phase ob = kOpen))"
| "local_ok (Owned ph ins rd) = (ph \<in> {kInsertsBlocked, kAllBlocked} \<and> (rd \<longrightarrow> ph = kAllBlocked))"
| "local_ok (WaitIns ph rd _) = (ph \<in> {kInsertsBlocked, kAllBlocked} \<and> (rd \<longrightarrow> ph = kAllBlocked))"
| "local_ok (ProbeIns ph rd) = (ph \<in> {kInsertsBlocked, kAllBlocked} \<and> (rd \<longrightarrow> ph = kAllBlocked))"
| "local_ok (WaitRd ph ins _) = (ph = kAllBlocked)"
| "local_ok (Transition ph ph' ins rd pc) =
     (ph \<in> {kInsertsBlocked, kAllBlocked} \<and> (rd \<longrightarrow> ph = kAllBlocked) \<and>
      (ph' = kOpen \<or> ph = kInsertsBlocked \<and> ph' = kAllBlocked) \<and>
      (\<forall>ob. pc = CTry ob \<longrightarrow> phase ob = ph))"
| "local_ok (Reopening ph _) = (ph \<in> {kInsertsBlocked, kAllBlocked})"
| "local_ok (Failed _) = False"
| "local_ok _ = True"

section \<open>Counter limits\<close>

lemma kMax_unat [simp]: "unat kMaxReaderCount = 2 ^ 31 - 1" "unat kMaxInserterCount = 2 ^ 31 - 1"
  by (simp_all add: kMaxReaderCount_def kMaxInserterCount_def)

lemma readers_exhausted_iff: "kMaxReaderCount \<le> readers w \<longleftrightarrow> 2 ^ 31 - 1 \<le> unat (readers w)"
  by (simp add: word_le_nat_alt)

lemma inserters_exhausted_iff: "inserters w = kMaxInserterCount \<longleftrightarrow> unat (inserters w) = 2 ^ 31 - 1"
  by (simp add: word_unat_eq_iff)

section \<open>One thread moving\<close>

text \<open>
  \<open>moves I R p t p' t'\<close> is all that a thread's action from \<open>t\<close> to \<open>t'\<close> can do to the
  phase (\<open>p\<close> to \<open>p'\<close>) and to its holdings while \<open>I\<close> inserters and \<open>R\<close> readers are
  counted: the phase changes hands only through \<open>kOpen\<close>, readers are not admitted under
  \<open>kAllBlocked\<close>, inserters only under \<open>kOpen\<close>.
\<close>

definition moves :: "nat \<Rightarrow> nat \<Rightarrow> AdmissionState \<Rightarrow> gthread \<Rightarrow> AdmissionState \<Rightarrow> gthread \<Rightarrow> bool" where
  "moves I R p t p' t' \<longleftrightarrow>
     local_ok t' \<and>
     (p' = p \<and> own t' = own t \<or>
      p = kOpen \<and> own t = None \<and> own t' = Some p' \<and> p' \<noteq> kOpen \<or>
      own t = Some p \<and> own t' = None \<and> p' = kOpen \<or>
      own t = Some p \<and> own t' = Some p' \<and> p = kInsertsBlocked \<and> p' = kAllBlocked) \<and>
     (admitted t < admitted t' \<longrightarrow> p \<noteq> kAllBlocked) \<and>
     (icnt t < icnt t' \<longrightarrow> p = kOpen) \<and>
     (ins_drained t' \<longrightarrow> ins_drained t \<or> own t' \<noteq> None \<and> I = 0) \<and>
     (rd_drained t' \<longrightarrow> rd_drained t \<or> own t' = Some kAllBlocked \<and> R = 0)"

lemmas gate_defs = cas_weak_def try_change_phase_def reader_admitted_def
  acquire_inserter_check_def enter_phase_check_def transition_phase_check_def
  wait_readers_drained_step_def wait_inserters_drained_step_def
  wait_readers_drained_until_step_def wait_inserters_drained_until_step_def
  try_seal_open_state_def

lemmas gate_word_simps = gate_word_fields readers_exhausted_iff inserters_exhausted_iff
  readers_zero_iff inserters_zero_iff add_reader sub_reader add_inserter sub_inserter
  with_phase_gate_word

lemma gate_run_moves:
  assumes w: "w = gate_word p (icnt t + I) (rcnt t + R)"
    and b: "I < 2 ^ 31 - 1" "R < 2 ^ 31 - 1"
    and ok: "local_ok t" and own: "\<And>q. own t = Some q \<Longrightarrow> q = p"
    and run: "gate_run sp ex t w = (t', w')"
  shows "\<exists>p'. w' = gate_word p' (icnt t' + I) (rcnt t' + R) \<and>
           moves (icnt t + I) (rcnt t + R) p t p' t'"
proof (cases t)
  case (AcqShared timed pc)
  then show ?thesis using assms
    by (cases pc; cases timed) (auto simp: gate_word_simps gate_defs moves_def split: if_splits)
next
  case (AcqInserter pc)
  then show ?thesis using assms
    by (cases pc) (auto simp: gate_word_simps gate_defs moves_def split: if_splits)
next
  case (RelShared pc)
  then show ?thesis using assms
    by (cases pc) (auto simp: gate_word_simps gate_defs moves_def split: if_splits)
next
  case (RelInserter pc)
  then show ?thesis using assms
    by (cases pc) (auto simp: gate_word_simps gate_defs moves_def split: if_splits)
next
  case (Entering ph pc)
  then show ?thesis using assms
    by (cases pc) (auto simp: gate_word_simps gate_defs moves_def split: if_splits)
next
  case (EnteringUntil ph pc)
  show ?thesis
  proof (cases pc)
    case (EEnter c)
    then show ?thesis using assms EnteringUntil
      by (cases c) (auto simp: gate_word_simps gate_defs moves_def split: if_splits)
  next
    case (EReopen c)
    then show ?thesis using assms EnteringUntil
      by (cases c) (auto simp: gate_word_simps gate_defs moves_def split: if_splits)
  qed
next
  case (TryEntering ph pc)
  then show ?thesis using assms
    by (cases pc) (auto simp: gate_word_simps gate_defs moves_def split: if_splits)
next
  case Sealing
  then show ?thesis using assms
    by (auto simp: gate_word_simps gate_defs moves_def empty_word_gate_word gate_word_eq_iff split: if_splits)
next
  case (Transition a b c d pc)
  then show ?thesis using assms
    by (cases pc) (auto simp: gate_word_simps gate_defs moves_def split: if_splits)
next
  case (Reopening ph pc)
  then show ?thesis using assms
    by (cases pc) (auto simp: gate_word_simps gate_defs moves_def split: if_splits)
qed (use assms in \<open>auto simp: gate_word_simps gate_defs moves_def split: if_splits\<close>)

lemma gate_start_moves:
  assumes "gate_start t t'" "local_ok t" "own t \<noteq> None \<longrightarrow> p \<noteq> kOpen"
  shows "moves I R p t p t' \<and> icnt t' = icnt t \<and> rcnt t' = rcnt t"
  using assms by (cases rule: gate_start.cases) (auto simp: moves_def)

section \<open>The invariant\<close>

text \<open>
  The counters of the word are the numbers of threads holding a count, the phase is
  closed exactly when one thread owns it, and a drain that has been observed lasts.
\<close>

definition gate_inv :: "nat \<Rightarrow> gate_system \<Rightarrow> bool" where
  "gate_inv n s \<longleftrightarrow> (case s of (w, ts) \<Rightarrow>
     w = gate_word (phase w) (total icnt n ts) (total rcnt n ts) \<and>
     total ocnt n ts = (if phase w = kOpen then 0 else 1) \<and>
     (\<forall>i<n. local_ok (ts i)) \<and>
     (\<forall>i<n. \<forall>q. own (ts i) = Some q \<longrightarrow> q = phase w) \<and>
     (\<forall>i<n. ins_drained (ts i) \<longrightarrow> total icnt n ts = 0) \<and>
     (\<forall>i<n. rd_drained (ts i) \<longrightarrow> total admitted n ts = 0))"

lemma cnt_le [simp]: "rcnt t \<le> 1" "icnt t \<le> 1" "ocnt t \<le> 1" "admitted t \<le> rcnt t"
proof -
  show "rcnt t \<le> 1" by (induction t rule: rcnt.induct) auto
  show "icnt t \<le> 1" by (induction t rule: icnt.induct) auto
  show "admitted t \<le> rcnt t" by (induction t rule: admitted.induct) auto
  show "ocnt t \<le> 1" by (simp add: ocnt_def split: option.split)
qed

lemma drained_own:
  "ins_drained t \<Longrightarrow> own t \<noteq> None"
  "rd_drained t \<Longrightarrow> local_ok t \<Longrightarrow> own t = Some kAllBlocked"
  by (induction t rule: ins_drained.induct) auto

lemma own_counts: "own t = Some q \<Longrightarrow> icnt t = 0 \<and> rcnt t = 0 \<and> admitted t = 0 \<and> ocnt t = 1"
  by (induction t rule: own.induct) (auto simp: ocnt_def)

lemma ocnt_None: "ocnt t = 0 \<longleftrightarrow> own t = None"
  by (simp add: ocnt_def split: option.split)

lemma gate_inv_move:
  assumes inv: "gate_inv n (w, ts)" and i: "i < n" and n: "n < 2 ^ 31"
    and w': "w' = gate_word p' (total icnt n (ts(i := t'))) (total rcnt n (ts(i := t')))"
    and mv: "moves (total icnt n ts) (total rcnt n ts) (phase w) (ts i) p' t'"
  shows "gate_inv n (w', ts(i := t'))"
proof -
  let ?ts = "ts(i := t')" and ?p = "phase w"
  note S = total_split [OF i, of _ ts] and S' = total_upd [OF i, of _ ts t']
  have AR: "others admitted n i ts \<le> others rcnt n i ts" by (rule others_mono) simp
  have bi: "total icnt n ?ts < 2 ^ 31" and br: "total rcnt n ?ts < 2 ^ 31"
    using total_le_count [of icnt n ?ts] total_le_count [of rcnt n ?ts] n cnt_le
    by (meson le_less_trans)+
  have p': "phase w' = p'" using gate_word_fields(1) [OF bi br] w' by simp
  have O1: "ocnt (ts i) + others ocnt n i ts = (if ?p = kOpen then 0 else 1)"
    and ok: "\<And>j. j < n \<Longrightarrow> local_ok (ts j)"
    and own1: "\<And>j q. j < n \<Longrightarrow> own (ts j) = Some q \<Longrightarrow> q = ?p"
    and ins1: "\<And>j. j < n \<Longrightarrow> ins_drained (ts j) \<Longrightarrow> icnt (ts i) + others icnt n i ts = 0"
    and rd1: "\<And>j. j < n \<Longrightarrow> rd_drained (ts j) \<Longrightarrow> admitted (ts i) + others admitted n i ts = 0"
    using inv unfolding gate_inv_def by (auto simp: S)
  note mv' = mv [unfolded moves_def S]
  have other: "p' = ?p \<and> own t' = None \<and> own (ts i) = None \<and> ?p \<noteq> kOpen"
    if "j < n" "j \<noteq> i" "own (ts j) \<noteq> None" for j
    using others_member [OF that(1,2), of ocnt ts] that(3) O1 mv' ocnt_None [of "ts i"]
      ocnt_None [of "ts j"] by (auto split: if_splits)
  have "ocnt t' + others ocnt n i ts = (if p' = kOpen then 0 else 1)"
    using O1 mv' by (auto simp: ocnt_def split: if_splits option.splits)
  moreover have "local_ok (?ts j)" if "j < n" for j using ok that mv' by auto
  moreover have "q = p'" if "j < n" "own (?ts j) = Some q" for j q
  proof (cases "j = i")
    case True
    then have "own t' = Some q" using that by simp
    then show ?thesis using mv' own1 [OF i, of q] by (elim conjE disjE) auto
  next
    case False
    then show ?thesis using that own1 other by force
  qed
  moreover have "icnt t' + others icnt n i ts = 0" if "j < n" "ins_drained (?ts j)" for j
  proof (cases "j = i")
    case True
    then show ?thesis using that mv' ins1 [OF i] drained_own(1) [of t'] own_counts [of t'] by auto
  next
    case False
    then have "ins_drained (ts j)" using that by simp
    then show ?thesis
      using ins1 [OF \<open>j < n\<close>] other [OF \<open>j < n\<close> False] drained_own(1) mv' by auto
  qed
  moreover have "admitted t' + others admitted n i ts = 0" if "j < n" "rd_drained (?ts j)" for j
  proof (cases "j = i")
    case True
    then show ?thesis
      using that mv' rd1 [OF i] drained_own(2) [of t'] own_counts [of t'] AR by auto
  next
    case False
    then have "rd_drained (ts j)" using that by simp
    then show ?thesis
      using rd1 [OF \<open>j < n\<close>] drained_own(2) [OF _ ok [OF \<open>j < n\<close>]] own1 [OF \<open>j < n\<close>] mv'
      by fastforce
  qed
  ultimately show ?thesis unfolding gate_inv_def using w' p' by (simp add: S')
qed

lemma gate_step_inv:
  assumes "gate_step n s s'" "gate_inv n s" "n < 2 ^ 31"
  shows "gate_inv n s'"
  using assms(1)
proof cases
  case (run i sp ex ts w t' w')
  let ?I = "others icnt n i ts" and ?R = "others rcnt n i ts"
  note S = total_split [OF \<open>i < n\<close>, of _ ts] and S' = total_upd [OF \<open>i < n\<close>, of _ ts t']
  have "?I < 2 ^ 31 - 1" "?R < 2 ^ 31 - 1"
    using others_less [where f = icnt and ts = ts, OF \<open>i < n\<close> cnt_le(2)]
      others_less [where f = rcnt and ts = ts, OF \<open>i < n\<close> cnt_le(1)] \<open>n < 2 ^ 31\<close> by simp_all
  moreover have "w = gate_word (phase w) (icnt (ts i) + ?I) (rcnt (ts i) + ?R)"
    "local_ok (ts i)" "\<And>q. own (ts i) = Some q \<Longrightarrow> q = phase w"
    using \<open>gate_inv n s\<close> run unfolding gate_inv_def by (auto simp: S)
  ultimately obtain p' where "w' = gate_word p' (icnt t' + ?I) (rcnt t' + ?R)"
    "moves (icnt (ts i) + ?I) (rcnt (ts i) + ?R) (phase w) (ts i) p' t'"
    using gate_run_moves [of w "phase w" "ts i" ?I ?R sp ex t' w'] run by blast
  then show ?thesis using gate_inv_move [of n w ts i w' p' t'] run assms by (simp add: S S')
next
  case (start i ts t' w)
  have inv: "gate_inv n (w, ts)" using assms start by simp
  have "own (ts i) \<noteq> None \<longrightarrow> phase w \<noteq> kOpen"
    using inv start total_member [OF \<open>i < n\<close>, of ocnt ts] ocnt_None [of "ts i"]
    unfolding gate_inv_def by (auto split: if_splits)
  then have mv: "moves (total icnt n ts) (total rcnt n ts) (phase w) (ts i) (phase w) t'"
    and same: "icnt t' = icnt (ts i)" "rcnt t' = rcnt (ts i)"
    using gate_start_moves inv start unfolding gate_inv_def by blast+
  have "w = gate_word (phase w) (total icnt n (ts(i := t'))) (total rcnt n (ts(i := t')))"
    using inv unfolding gate_inv_def by (simp add: total_upd_same same)
  then show ?thesis using gate_inv_move [OF inv \<open>i < n\<close> assms(3) _ mv] start by simp
qed

lemma gate_reachable_inv: "gate_reachable n s \<Longrightarrow> n < 2 ^ 31 \<Longrightarrow> gate_inv n s"
proof (induction rule: gate_reachable.induct)
  case (reach_init s)
  then show ?case
    by (auto simp: gate_init_def gate_inv_def reset_open_def empty_word_gate_word gate_word_fields
        ocnt_def)
next
  case (reach_step s s')
  then show ?case using gate_step_inv by blast
qed
section \<open>Properties\<close>

lemma gate_inv_owner_alone:
  assumes "gate_inv n (w, ts)" "i < n" "own (ts i) \<noteq> None" "j < n" "j \<noteq> i"
  shows "own (ts j) = None"
proof -
  have "ocnt (ts i) + ocnt (ts j) \<le> 1"
    using assms others_member [of j n i ocnt ts] total_split [of i n ocnt ts]
    unfolding gate_inv_def by (auto split: if_splits)
  then show ?thesis using assms ocnt_None [of "ts i"] ocnt_None [of "ts j"] by linarith
qed

text \<open>
  C1. Mutual exclusion of the admission gate: in every state that any interleaving of fewer
  than \<open>2^31\<close> threads reaches, while one thread owns the all-blocked phase with readers
  and inserters drained, no other thread holds a reader or inserter admission (or is about
  to give one back) and no other thread owns a phase.
\<close>
theorem exclusive_owner_alone:
  assumes "gate_reachable n (w, ts)" "n < 2 ^ 31" "i < n" "ts i = Owned kAllBlocked True True"
    and "j < n" "j \<noteq> i"
  shows "admitted (ts j) = 0 \<and> icnt (ts j) = 0 \<and> own (ts j) = None"
proof -
  have inv: "gate_inv n (w, ts)" using assms gate_reachable_inv by blast
  then have "total admitted n ts = 0" "total icnt n ts = 0"
    using assms unfolding gate_inv_def by auto
  then show ?thesis
    using total_zeroD [OF _ \<open>j < n\<close>] gate_inv_owner_alone [OF inv \<open>i < n\<close> _ \<open>j < n\<close>] assms by auto
qed

text \<open>
  C2. An update excludes inserts from the moment its drain returns until it reopens: while a
  thread owns a blocking phase with the inserters drained, no thread holds an inserter
  admission, and the word itself shows no inserter.
\<close>
theorem update_excludes_inserters:
  assumes "gate_reachable n (w, ts)" "n < 2 ^ 31" "i < n" "ins_drained (ts i)"
  shows "(\<forall>j<n. icnt (ts j) = 0) \<and> inserters w = 0"
proof -
  have inv: "gate_inv n (w, ts)" using assms gate_reachable_inv by blast
  then have z: "total icnt n ts = 0" and w: "w = gate_word (phase w) 0 (total rcnt n ts)"
    using assms unfolding gate_inv_def by auto
  have "total rcnt n ts < 2 ^ 31"
    using total_le_count [where f = rcnt and n = n and ts = ts] cnt_le assms by (meson le_less_trans)
  then have "unat (inserters w) = 0" using w gate_word_fields(3) [of 0 "total rcnt n ts" "phase w"] by simp
  then show ?thesis using z total_zeroD by (auto simp: inserters_zero_iff)
qed

text \<open>
  C3. With fewer than \<open>2^31\<close> threads no gate method ever throws: the counters are never
  exhausted, no release finds a zero counter, and no phase transition finds an unexpected
  phase.
\<close>
theorem gate_methods_never_throw:
  assumes "gate_reachable n (w, ts)" "n < 2 ^ 31" "i < n"
  shows "ts i \<noteq> Failed e"
  using gate_reachable_inv [OF assms(1,2)] assms(3) unfolding gate_inv_def by force

text \<open>
  C4. The packed counters are exact in every reachable state: the reader field is the number of
  threads with a counted (possibly speculative) shared admission, the inserter field the
  number of threads with an inserter admission, and the phase is open exactly when no
  thread owns it.
\<close>
theorem gate_counters_exact:
  assumes "gate_reachable n (w, ts)" "n < 2 ^ 31"
  shows "unat (readers w) = total rcnt n ts \<and> unat (inserters w) = total icnt n ts \<and>
         (phase w = kOpen \<longleftrightarrow> (\<forall>i<n. own (ts i) = None))"
proof -
  have inv: "gate_inv n (w, ts)" using assms gate_reachable_inv by blast
  then have w: "w = gate_word (phase w) (total icnt n ts) (total rcnt n ts)"
    and o: "total ocnt n ts = (if phase w = kOpen then 0 else 1)" unfolding gate_inv_def by auto
  have b: "total icnt n ts < 2 ^ 31" "total rcnt n ts < 2 ^ 31"
    using total_le_count [where n = n and ts = ts] cnt_le assms by (meson le_less_trans)+
  have "total ocnt n ts = 0 \<longleftrightarrow> (\<forall>i<n. own (ts i) = None)"
    by (auto simp: total_def ocnt_None)
  then show ?thesis using gate_word_fields(2,3) [OF b, of "phase w"] w o by (metis zero_neq_one)
qed

text \<open>A concrete run: thread 0 acquires the exclusive phase while thread 1 is in the
  middle of a shared acquisition that has passed its first check.\<close>

lemma reach_run:
  assumes "gate_reachable n (w, ts)" "i < n" "gate_run spurious expired (ts i) w = (t', w')"
  shows "gate_reachable n (w', ts(i := t'))"
  using assms gate_step.run reach_step by blast

lemma reach_start:
  assumes "gate_reachable n (w, ts)" "i < n" "gate_start (ts i) t'"
  shows "gate_reachable n (w, ts(i := t'))"
  using assms gate_step.start reach_step by blast

definition demo_threads :: "gthread \<Rightarrow> nat \<Rightarrow> gthread" where
  "demo_threads t = (\<lambda>_. Idle)(1 := AcqShared False SAdd, 0 := t)"

lemma demo_upd: "(demo_threads t)(0 := t') = demo_threads t'"
  by (auto simp: demo_threads_def)

lemma demo_reader: "gate_reachable 2 (gate_word kOpen 0 0, demo_threads Idle)"
proof -
  have "gate_reachable 2 (gate_word kOpen 0 0, \<lambda>_. Idle)"
    by (rule reach_init) (simp add: gate_init_def reset_open_def empty_word_gate_word)
  from reach_start [OF this, of 1] have
    "gate_reachable 2 (gate_word kOpen 0 0, (\<lambda>_. Idle)(1 := AcqShared False SLoad))"
    by (simp add: gate_start.intros)
  from reach_run [OF this, of 1 False False] have
    "gate_reachable 2 (gate_word kOpen 0 0, (\<lambda>_. Idle)(1 := AcqShared False SAdd))"
    by (simp add: gate_word_fields)
  moreover have "(\<lambda>_. Idle)(1 := AcqShared False SAdd) = demo_threads Idle"
    by (auto simp: demo_threads_def)
  ultimately show ?thesis by simp
qed

lemma demo_step_run:
  assumes "gate_reachable 2 (w, demo_threads t)" "gate_run False False t w = (t', w')"
  shows "gate_reachable 2 (w', demo_threads t')"
  using reach_run [OF assms(1), of 0 False False] assms(2)
  by (simp add: demo_threads_def demo_upd [unfolded demo_threads_def])

lemma demo_step_start:
  assumes "gate_reachable 2 (w, demo_threads t)" "gate_start t t'"
  shows "gate_reachable 2 (w, demo_threads t')"
  using reach_start [OF assms(1), of 0] assms(2)
  by (simp add: demo_threads_def demo_upd [unfolded demo_threads_def])

lemma demo_exclusive: "gate_reachable 2 (gate_word kAllBlocked 0 0, demo_threads (Owned kAllBlocked True True))"
proof -
  let ?o = "gate_word kOpen 0 0" and ?b = "gate_word kAllBlocked 0 0"
  have "gate_reachable 2 (?o, demo_threads (Entering kAllBlocked CLoad))"
    by (rule demo_step_start [OF demo_reader]) (simp add: gate_start.intros)
  from demo_step_run [OF this] have "gate_reachable 2 (?o, demo_threads (Entering kAllBlocked (CTry ?o)))"
    by (simp add: gate_word_simps gate_defs)
  from demo_step_run [OF this] have "gate_reachable 2 (?b, demo_threads (Owned kAllBlocked False False))"
    by (simp add: gate_word_simps gate_defs)
  from demo_step_start [OF this] have "gate_reachable 2 (?b, demo_threads (WaitIns kAllBlocked False False))"
    by (simp add: gate_start.intros)
  from demo_step_run [OF this] have "gate_reachable 2 (?b, demo_threads (Owned kAllBlocked True False))"
    by (simp add: gate_word_simps gate_defs)
  from demo_step_start [OF this] have "gate_reachable 2 (?b, demo_threads (WaitRd kAllBlocked True False))"
    by (simp add: gate_start.intros)
  from demo_step_run [OF this] show ?thesis by (simp add: gate_word_simps gate_defs)
qed

theorem exclusive_owner_alone_witness:
  "admitted (demo_threads (Owned kAllBlocked True True) 1) = 0"
  using exclusive_owner_alone [OF demo_exclusive, of 0 1] by (simp add: demo_threads_def)

theorem update_excludes_inserters_witness:
  "inserters (gate_word kAllBlocked 0 0) = 0"
  using update_excludes_inserters [OF demo_exclusive, of 0] by (simp add: demo_threads_def)

theorem gate_methods_never_throw_witness:
  "demo_threads (Owned kAllBlocked True True) 1 \<noteq> Failed RuntimeError"
  using gate_methods_never_throw [OF demo_exclusive, of 1] by simp

lemma demo_total: "total rcnt 2 (demo_threads (Owned kAllBlocked True True)) = 0"
  by (simp add: total_def demo_threads_def numeral_2_eq_2)

theorem gate_counters_exact_witness:
  "unat (readers (gate_word kAllBlocked 0 0)) = 0"
  using gate_counters_exact [OF demo_exclusive] by (simp add: demo_total)

end
