(* ===== verification/Gate_Leases.thy ===== *)
theory Gate_Leases
  imports Gate_Protocol
begin

text \<open>
  \<open>SharedOperationLease\<close> and \<open>ExclusiveOperationLease\<close> as programs over the gate methods.
  The lemmas show that a constructed exclusive lease owns the drained all-blocked phase,
  that a constructor that throws has given the phase back, and that the programs only make
  calls the protocol of \<^theory_text>\<open>Gate_Protocol\<close> allows.
\<close>

section \<open>Lease constructors\<close>

text \<open>
  The constructors of \<open>ExclusiveOperationLease\<close> and its \<open>release\<close> as programs over the
  gate: the control point, and what the last call left the thread with, determine the
  next call. \<open>XThrown\<close> is the \<open>THROW_TRANSACTION_TIMEOUT\<close> of the deadline variant.
\<close>

datatype xlease_pc = XStart | XEnter | XIns | XRd | XCatch | XActive | XRelease | XInactive | XThrown

fun exclusive_lease_next :: "bool \<Rightarrow> xlease_pc \<Rightarrow> gthread \<Rightarrow> (xlease_pc \<times> gthread) option" where
  "exclusive_lease_next timed XStart t =
     Some (XEnter, if timed then EnteringUntil kAllBlocked (EEnter CLoad) else Entering kAllBlocked CLoad)"
| "exclusive_lease_next timed XEnter t =
     (case t of Owned ph ins rd \<Rightarrow> Some (XIns, WaitIns ph rd timed)
      | Idle \<Rightarrow> Some (XThrown, Idle) | _ \<Rightarrow> None)"
| "exclusive_lease_next timed XIns t =
     (case t of Owned ph ins rd \<Rightarrow>
        (if ins then Some (XRd, WaitRd ph ins timed) else Some (XCatch, Reopening ph CLoad)) | _ \<Rightarrow> None)"
| "exclusive_lease_next timed XRd t =
     (case t of Owned ph ins rd \<Rightarrow>
        (if rd then Some (XActive, Owned ph ins rd) else Some (XCatch, Reopening ph CLoad)) | _ \<Rightarrow> None)"
| "exclusive_lease_next timed XCatch t = (if t = Idle then Some (XThrown, Idle) else None)"
| "exclusive_lease_next timed XActive t =
     (case t of Owned ph ins rd \<Rightarrow> Some (XRelease, Reopening ph CLoad) | _ \<Rightarrow> None)"
| "exclusive_lease_next timed XRelease t = (if t = Idle then Some (XInactive, Idle) else None)"
| "exclusive_lease_next timed XInactive t = None"
| "exclusive_lease_next timed XThrown t = None"

datatype slease_pc = LStart | LAcquire | LActive | LRelease | LInactive | LThrown

fun shared_lease_next :: "bool \<Rightarrow> slease_pc \<Rightarrow> gthread \<Rightarrow> (slease_pc \<times> gthread) option" where
  "shared_lease_next timed LStart t = Some (LAcquire, AcqShared timed SLoad)"
| "shared_lease_next timed LAcquire t =
     (case t of SharedHeld \<Rightarrow> Some (LActive, SharedHeld) | Idle \<Rightarrow> Some (LThrown, Idle) | _ \<Rightarrow> None)"
| "shared_lease_next timed LActive t =
     (if t = SharedHeld then Some (LRelease, RelShared RLoad) else None)"
| "shared_lease_next timed LRelease t = (if t = Idle then Some (LInactive, Idle) else None)"
| "shared_lease_next timed LInactive t = None"
| "shared_lease_next timed LThrown t = None"

text \<open>A lease program running while other threads change the word arbitrarily between its
  actions.\<close>

inductive exclusive_lease_run :: "bool \<Rightarrow> xlease_pc \<Rightarrow> gthread \<Rightarrow> bool" for timed where
  xl_init: "exclusive_lease_run timed XStart Idle"
| xl_call: "exclusive_lease_run timed pc t \<Longrightarrow> exclusive_lease_next timed pc t = Some (pc', t')
            \<Longrightarrow> exclusive_lease_run timed pc' t'"
| xl_run: "exclusive_lease_run timed pc t \<Longrightarrow> gate_run spurious expired t w = (t', w')
            \<Longrightarrow> exclusive_lease_run timed pc t'"

inductive shared_lease_run :: "bool \<Rightarrow> slease_pc \<Rightarrow> gthread \<Rightarrow> bool" for timed where
  sl_init: "shared_lease_run timed LStart Idle"
| sl_call: "shared_lease_run timed pc t \<Longrightarrow> shared_lease_next timed pc t = Some (pc', t')
            \<Longrightarrow> shared_lease_run timed pc' t'"
| sl_run: "shared_lease_run timed pc t \<Longrightarrow> gate_run spurious expired t w = (t', w')
            \<Longrightarrow> shared_lease_run timed pc t'"

fun xlease_ok :: "bool \<Rightarrow> xlease_pc \<Rightarrow> gthread \<Rightarrow> bool" where
  "xlease_ok timed XStart t = (t = Idle)"
| "xlease_ok timed XEnter t =
     ((\<exists>pc. \<not> timed \<and> t = Entering kAllBlocked pc) \<or> (\<exists>pc. timed \<and> t = EnteringUntil kAllBlocked pc)
      \<or> t = Owned kAllBlocked False False \<or> timed \<and> t = Idle)"
| "xlease_ok timed XIns t =
     (t = WaitIns kAllBlocked False timed \<or> t = Owned kAllBlocked True False
      \<or> timed \<and> t = Owned kAllBlocked False False)"
| "xlease_ok timed XRd t =
     (t = WaitRd kAllBlocked True timed \<or> t = Owned kAllBlocked True True
      \<or> timed \<and> t = Owned kAllBlocked True False)"
| "xlease_ok timed XCatch t = (timed \<and> ((\<exists>pc. t = Reopening kAllBlocked pc) \<or> t = Idle))"
| "xlease_ok timed XActive t = (t = Owned kAllBlocked True True)"
| "xlease_ok timed XRelease t = ((\<exists>pc. t = Reopening kAllBlocked pc) \<or> t = Idle)"
| "xlease_ok timed XInactive t = (t = Idle)"
| "xlease_ok timed XThrown t = (timed \<and> t = Idle)"

fun slease_ok :: "bool \<Rightarrow> slease_pc \<Rightarrow> gthread \<Rightarrow> bool" where
  "slease_ok timed LAcquire t =
     ((\<exists>pc. t = AcqShared timed pc) \<or> t = SharedHeld \<or> t = Idle \<or> t = Failed RuntimeError)"
| "slease_ok timed LActive t = (t = SharedHeld)"
| "slease_ok timed LRelease t =
     ((\<exists>pc. t = RelShared pc) \<or> t = Idle \<or> t = Failed InternalException)"
| "slease_ok timed pc t = (t = Idle)"

lemma run_entering:
  "gate_run sp ex (Entering ph c) w = (t', w') \<Longrightarrow> t' = Owned ph False False \<or> (\<exists>c. t' = Entering ph c)"
  by (cases c) (auto simp: gate_defs split: if_splits)

lemma run_reopening:
  "gate_run sp ex (Reopening ph c) w = (t', w') \<Longrightarrow> t' = Idle \<or> (\<exists>c. t' = Reopening ph c)"
  by (cases c) (auto simp: gate_defs split: if_splits)

lemma reopen_no_throw: "reopen_step sp c w \<noteq> (Throw e, w')"
  by (cases c) (auto simp: gate_defs)

lemma run_entering_until:
  "gate_run sp ex (EnteringUntil ph e) w = (t', w') \<Longrightarrow>
     t' = Owned ph False False \<or> t' = Idle \<or> (\<exists>e. t' = EnteringUntil ph e)"
  by (cases "(ph, ex, sp, e, w)" rule: enter_phase_until_step.cases)
     (auto simp: gate_defs reopen_no_throw split: if_splits outcome.splits prod.splits)

lemma run_waiting:
  "gate_run sp ex (WaitIns ph rd timed) w = (t', w') \<Longrightarrow>
     t' = WaitIns ph rd timed \<or> t' = Owned ph True rd \<or> timed \<and> t' = Owned ph False rd"
  "gate_run sp ex (WaitRd ph ins timed) w = (t', w') \<Longrightarrow>
     t' = WaitRd ph ins timed \<or> t' = Owned ph ins True \<or> timed \<and> t' = Owned ph ins False"
  by (auto simp: gate_defs split: if_splits)

lemma run_shared:
  "gate_run sp ex (AcqShared timed c) w = (t', w') \<Longrightarrow>
     t' = SharedHeld \<or> t' = Idle \<or> t' = Failed RuntimeError \<or> (\<exists>c. t' = AcqShared timed c)"
  "gate_run sp ex (RelShared r) w = (t', w') \<Longrightarrow>
     t' = Idle \<or> t' = Failed InternalException \<or> (\<exists>r. t' = RelShared r)"
  by (cases c; cases timed; auto split: if_splits) (cases r; auto split: if_splits)

lemma run_stable:
  "gate_run sp ex Idle w = (t', w') \<Longrightarrow> t' = Idle"
  "gate_run sp ex (Owned ph ins rd) w = (t', w') \<Longrightarrow> t' = Owned ph ins rd"
  "gate_run sp ex SharedHeld w = (t', w') \<Longrightarrow> t' = SharedHeld"
  "gate_run sp ex (Failed e) w = (t', w') \<Longrightarrow> t' = Failed e"
  by auto

lemmas run_dests = run_entering run_reopening run_entering_until run_waiting run_shared run_stable

lemma exclusive_lease_run_ok: "exclusive_lease_run timed pc t \<Longrightarrow> xlease_ok timed pc t"
proof (induction rule: exclusive_lease_run.induct)
  case (xl_call pc t pc' t')
  then show ?case
    by (cases pc) (auto split: if_splits gthread.splits)
next
  case (xl_run pc t sp ex w t' w')
  then show ?case
    by (cases pc) (auto simp del: gate_run.simps dest!: run_dests)
qed simp

lemma shared_lease_run_ok: "shared_lease_run timed pc t \<Longrightarrow> slease_ok timed pc t"
proof (induction rule: shared_lease_run.induct)
  case (sl_call pc t pc' t')
  then show ?case
    by (cases pc) (auto split: if_splits gthread.splits)
next
  case (sl_run pc t sp ex w t' w')
  then show ?case
    by (cases pc) (auto simp del: gate_run.simps dest!: run_dests)
qed simp

lemma exclusive_lease_calls:
  assumes "exclusive_lease_run timed pc t" "exclusive_lease_next timed pc t = Some (pc', t')"
  shows "t' = t \<or> gate_start t t'"
  using exclusive_lease_run_ok [OF assms(1)] assms(2)
  by (cases pc) (auto intro: gate_start.intros split: if_splits gthread.splits)

section \<open>Properties\<close>

text \<open>
  C5. A constructed exclusive lease owns the all-blocked phase with inserters and readers
  drained, whatever other threads did to the gate meanwhile; a constructor that throws (only
  the deadline variant does) has given back every phase it took, and so has a released
  lease.
\<close>
theorem exclusive_lease_outcomes:
  assumes "exclusive_lease_run timed pc t"
  shows "(pc = XActive \<longrightarrow> t = Owned kAllBlocked True True) \<and>
         (pc = XThrown \<longrightarrow> timed \<and> own t = None) \<and> (pc = XInactive \<longrightarrow> own t = None)"
  using exclusive_lease_run_ok [OF assms] by (cases pc) auto

lemma demo_timeout: "exclusive_lease_run True XThrown Idle"
proof -
  have "exclusive_lease_run True XEnter (EnteringUntil kAllBlocked (EEnter CLoad))"
    by (rule xl_call [OF xl_init]) simp
  from xl_run [OF this, of False True "gate_word kInsertsBlocked 0 0"]
  have "exclusive_lease_run True XEnter Idle" by simp
  then show ?thesis by (rule xl_call) simp
qed

theorem exclusive_lease_outcomes_witness: "own Idle = None"
  using exclusive_lease_outcomes [OF demo_timeout] by simp

end
