(* ===== verification/Timestamp_Window.thy ===== *)
theory Timestamp_Window
  imports Prelude
begin

text \<open>
  The ring of completed write timestamps (\<open>include/neug/transaction/timestamp_window.h\<close>,
  \<open>src/transaction/timestamp_window.cc\<close>): slot \<open>ts mod kWindowSize\<close> holds the completed
  timestamp itself, or zero.
\<close>

definition kWindowSize :: nat where "kWindowSize = 65536"

type_synonym ts_window = "nat \<Rightarrow> nat"

definition ts_index :: "nat \<Rightarrow> nat" where "ts_index ts = ts mod kWindowSize"

definition window_init :: ts_window where "window_init = (\<lambda>_. 0)"

definition mark_completed :: "nat \<Rightarrow> ts_window \<Rightarrow> ts_window" where
  "mark_completed ts win = win(ts_index ts := ts)"

definition is_completed :: "nat \<Rightarrow> ts_window \<Rightarrow> bool" where
  "is_completed ts win \<longleftrightarrow> win (ts_index ts) = ts"

text \<open>A compare-and-swap of \<open>ts\<close> by zero: a slot that holds another timestamp is kept.\<close>

definition window_clear :: "nat \<Rightarrow> ts_window \<Rightarrow> ts_window" where
  "window_clear ts win = (if win (ts_index ts) = ts then win(ts_index ts := 0) else win)"

text \<open>Timestamps less than a window apart never share a slot.\<close>

lemma ts_index_inj:
  assumes "ts_index a = ts_index b" "r < a" "a \<le> r + kWindowSize" "r < b" "b \<le> r + kWindowSize"
  shows "a = b"
proof -
  have *: "x = y" if "x mod kWindowSize = y mod kWindowSize" "x \<le> y" "r < x" "y \<le> r + kWindowSize"
    for x y
  proof -
    have "kWindowSize dvd y - x" using that mod_eq_dvd_iff_nat [of x y kWindowSize] by simp
    moreover have "y - x < kWindowSize" using that by (simp add: kWindowSize_def)
    ultimately show "x = y" using that by (auto dest: dvd_imp_le)
  qed
  show ?thesis using assms * [of a b] * [of b a] unfolding ts_index_def by (metis nat_le_linear)
qed

lemma ts_index_Suc_ne: "ts_index (r + 1) \<noteq> ts_index t" if "r + 1 < t" "t \<le> r + kWindowSize"
  using ts_index_inj [of "r + 1" t r] that by auto

lemma window_lookup [simp]:
  "is_completed ts (mark_completed ts win)"
  "ts \<noteq> 0 \<Longrightarrow> \<not> is_completed ts (window_clear ts win)"
  "ts \<noteq> 0 \<Longrightarrow> \<not> is_completed ts window_init"
  by (auto simp: is_completed_def mark_completed_def window_clear_def window_init_def)

lemma window_lookup_other:
  "ts_index a \<noteq> ts_index b \<Longrightarrow> is_completed a (mark_completed b win) = is_completed a win"
  "ts_index a \<noteq> ts_index b \<Longrightarrow> is_completed a (window_clear b win) = is_completed a win"
  by (auto simp: is_completed_def mark_completed_def window_clear_def)

end
