(* ===== verification/Version_Manager.thy ===== *)
theory Version_Manager
  imports Gate_Protocol Timestamp_Window
begin

text \<open>
  The version manager (\<open>src/transaction/version_manager.cc\<close>): write timestamps are
  reserved by compare-and-swap, completed through the timestamp window, and published to
  readers as one 64-bit word of visibility timestamp and snapshot generation. Each method
  is a function that performs its next shared access; gate calls are delegated to the
  thread's control point in \<^theory_text>\<open>Gate_Protocol\<close>. Any number of threads run these
  methods concurrently.
\<close>

section \<open>The published view\<close>

record PublishedReadView =
  visibility_ts :: u32
  snapshot_generation :: u32

definition PackPublishedReadView :: "PublishedReadView \<Rightarrow> u64" where
  "PackPublishedReadView view =
     push_bit 32 (ucast (snapshot_generation view)) OR ucast (visibility_ts view)"

definition UnpackPublishedReadView :: "u64 \<Rightarrow> PublishedReadView" where
  "UnpackPublishedReadView packed =
     \<lparr> visibility_ts = ucast packed, snapshot_generation = ucast (drop_bit 32 packed) \<rparr>"

section \<open>Shared state\<close>

text \<open>
  The atomics of \<open>VersionManager\<close> beside the gate. \<open>published\<close> is the pair the packed
  word stands for, \<open>vlock\<close> the thread holding \<open>lock_\<close>.
\<close>

record vmdata =
  write_ts :: nat
  read_ts :: nat
  generation :: nat
  published :: "nat \<times> nat"
  window :: ts_window
  vlock :: "nat option"

definition init_ts :: "nat \<times> nat \<Rightarrow> vmdata res" where
  "init_ts view = (case view of (ts, gen) \<Rightarrow>
     if ts = u32_max then Inl RuntimeError
     else Inr \<lparr> write_ts = u32_succ ts, read_ts = ts, generation = gen, published = (ts, gen),
                window = window_init, vlock = None \<rparr>)"

section \<open>Reserving a write timestamp\<close>

text \<open>
  Control points of \<open>ReserveWriteTimestamp\<close>: \<open>RvCheck candidate\<close> is the head of the loop,
  \<open>RvRefresh r\<close> the reload after \<open>candidate <= r\<close>, \<open>RvCas candidate\<close> the
  compare-and-swap.
\<close>

datatype reserve_pc = RvLoad | RvCheck nat | RvRefresh nat | RvCas nat

datatype reservation = RGo reserve_pc | kReservedTs nat | kWindowFull | kExhausted | RThrow neug_error

definition outstanding :: "nat \<Rightarrow> nat \<Rightarrow> nat" where
  "outstanding candidate current_read_ts = (candidate + 2 ^ 64 - current_read_ts) mod 2 ^ 64"

fun ReserveWriteTimestamp_step :: "bool \<Rightarrow> reserve_pc \<Rightarrow> vmdata \<Rightarrow> reservation \<times> vmdata" where
  "ReserveWriteTimestamp_step spurious RvLoad d = (RGo (RvCheck (write_ts d)), d)"
| "ReserveWriteTimestamp_step spurious (RvCheck candidate) d =
     (if candidate = u32_max then kExhausted
      else if outstanding candidate (read_ts d) > kWindowSize then
        (if candidate \<le> read_ts d then RGo (RvRefresh (read_ts d)) else kWindowFull)
      else RGo (RvCas candidate), d)"
| "ReserveWriteTimestamp_step spurious (RvRefresh current_read_ts) d =
     (if write_ts d \<le> current_read_ts then RThrow InternalException
      else RGo (RvCheck (write_ts d)), d)"
| "ReserveWriteTimestamp_step spurious (RvCas candidate) d =
     (if write_ts d = candidate \<and> \<not> spurious
      then (kReservedTs candidate, d \<lparr> write_ts := u32_succ candidate \<rparr>)
      else (RGo (RvCheck (write_ts d)), d))"

text \<open>\<open>throw_timestamp_reservation_failure\<close>: a full window under exclusive admission is an
  internal error, exhaustion a runtime error.\<close>

fun reservation_failure :: "reservation \<Rightarrow> neug_error" where
  "reservation_failure kWindowFull = InternalException"
| "reservation_failure _ = RuntimeError"

section \<open>Completing a write timestamp\<close>

text \<open>
  Control points of \<open>complete_write_timestamp\<close> and, from \<open>CoAdvance\<close> to \<open>CoPublish\<close>, of
  \<open>advance_read_ts_locked\<close>. The result \<open>None\<close> is the return.
\<close>

datatype complete_pc =
    CoMark | CoLock | CoCheck | CoAdvance nat | CoClear nat | CoStore nat | CoPublish nat | CoUnlock

fun complete_write_timestamp_step ::
  "nat \<Rightarrow> nat \<Rightarrow> complete_pc \<Rightarrow> vmdata \<Rightarrow> complete_pc option \<times> vmdata" where
  "complete_write_timestamp_step me ts CoMark d =
     (Some CoLock, d \<lparr> window := mark_completed ts (window d) \<rparr>)"
| "complete_write_timestamp_step me ts CoLock d =
     (if vlock d = None then (Some CoCheck, d \<lparr> vlock := Some me \<rparr>) else (Some CoLock, d))"
| "complete_write_timestamp_step me ts CoCheck d =
     (if ts = u32_succ (read_ts d) then (Some (CoAdvance (read_ts d)), d) else (Some CoUnlock, d))"
| "complete_write_timestamp_step me ts (CoAdvance current) d =
     (if \<not> is_completed (u32_succ current) (window d) then (Some (CoPublish current), d)
      else (Some (CoClear (u32_succ current)), d))"
| "complete_write_timestamp_step me ts (CoClear next_ts) d =
     (Some (CoStore next_ts), d \<lparr> window := window_clear next_ts (window d) \<rparr>)"
| "complete_write_timestamp_step me ts (CoStore next_ts) d =
     (Some (CoAdvance next_ts), d \<lparr> read_ts := next_ts \<rparr>)"
| "complete_write_timestamp_step me ts (CoPublish current) d =
     (Some CoUnlock, d \<lparr> published := (current, generation d) \<rparr>)"
| "complete_write_timestamp_step me ts CoUnlock d = (None, d \<lparr> vlock := None \<rparr>)"

section \<open>Threads and methods\<close>

text \<open>
  \<open>Ins\<close>, \<open>Upd\<close> and \<open>Com\<close> are the three kinds of writers. \<open>Acquire\<close> is inside the gate
  calls that open a method, \<open>Reserve\<close> inside the reservation, \<open>GiveBack\<close> returning the
  admission after a failure (with the exception to throw, if any), \<open>Held\<close> between the
  acquiring and the releasing call, \<open>Complete\<close> inside the completion and \<open>Release\<close> inside
  the closing gate call. The state of an update between acquisition and finish is
  its gate state: \<open>Owned kInsertsBlocked\<close> before \<open>begin_update_commit\<close>,
  \<open>Owned kAllBlocked\<close> after it.
\<close>

datatype wrole = Ins | Upd | Com
datatype amode = Block | Until | Try
datatype astage = AEnter | ADrain1 | ADrain2

datatype vthread =
    VIdle
  | RdAcquire | RdLoad | RdHeld "nat \<times> nat" | RdRelease
  | Acquire wrole amode astage
  | Reserve wrole reserve_pc
  | GiveBack wrole "neug_error option"
  | Held wrole nat
  | Complete wrole nat complete_pc
  | Release wrole nat
  | VThrown neug_error

type_synonym vm_local = "vthread \<times> gthread \<times> vmdata"

definition acquire_read_operation :: "vthread \<Rightarrow> gthread \<Rightarrow> vmdata \<Rightarrow> vm_local option" where
  "acquire_read_operation v g d = (case v of
     VIdle \<Rightarrow> if g = Idle then Some (RdAcquire, AcqShared False SLoad, d) else None
   | RdAcquire \<Rightarrow> if g = SharedHeld then Some (RdLoad, g, d) else None
   | RdLoad \<Rightarrow> Some (RdHeld (published d), g, d)
   | _ \<Rightarrow> None)"

definition release_read_operation :: "vthread \<Rightarrow> gthread \<Rightarrow> vmdata \<Rightarrow> vm_local option" where
  "release_read_operation v g d = (case v of
     RdHeld view \<Rightarrow> Some (RdRelease, RelShared RLoad, d)
   | RdRelease \<Rightarrow> if g = Idle then Some (VIdle, Idle, d) else None
   | _ \<Rightarrow> None)"

definition acquire_insert_timestamp ::
  "bool \<Rightarrow> vthread \<Rightarrow> gthread \<Rightarrow> vmdata \<Rightarrow> vm_local option" where
  "acquire_insert_timestamp spurious v g d = (case v of
     VIdle \<Rightarrow> if g = Idle then Some (Acquire Ins Block AEnter, AcqInserter CLoad, d) else None
   | Acquire Ins m st \<Rightarrow> if g = InserterHeld then Some (Reserve Ins RvLoad, g, d) else None
   | Reserve Ins pc \<Rightarrow>
       (case ReserveWriteTimestamp_step spurious pc d of
          (RGo pc', d') \<Rightarrow> Some (Reserve Ins pc', g, d')
        | (kReservedTs ts, d') \<Rightarrow> Some (Held Ins ts, g, d')
        | (RThrow e, d') \<Rightarrow> Some (VThrown e, g, d')
        | (kExhausted, d') \<Rightarrow>
            Some (GiveBack Ins (Some (reservation_failure kExhausted)), RelInserter RLoad, d')
        | (kWindowFull, d') \<Rightarrow> Some (GiveBack Ins None, RelInserter RLoad, d'))
   | GiveBack Ins (Some e) \<Rightarrow> if g = Idle then Some (VThrown e, Idle, d) else None
   | GiveBack Ins None \<Rightarrow>
       if g = Idle then Some (Acquire Ins Block AEnter, AcqInserter CLoad, d) else None
   | _ \<Rightarrow> None)"

definition release_insert_timestamp ::
  "nat \<Rightarrow> vthread \<Rightarrow> gthread \<Rightarrow> vmdata \<Rightarrow> vm_local option" where
  "release_insert_timestamp me v g d = (case v of
     Held Ins ts \<Rightarrow> Some (Complete Ins ts CoMark, g, d)
   | Complete Ins ts pc \<Rightarrow>
       (case complete_write_timestamp_step me ts pc d of
          (Some pc', d') \<Rightarrow> Some (Complete Ins ts pc', g, d')
        | (None, d') \<Rightarrow> Some (Release Ins ts, RelInserter RLoad, d'))
   | Release Ins ts \<Rightarrow> if g = Idle then Some (VIdle, Idle, d) else None
   | _ \<Rightarrow> None)"

text \<open>\<open>reserve_update_timestamp\<close> reopens the gate before it throws.\<close>

definition reserve_update_timestamp ::
  "bool \<Rightarrow> vthread \<Rightarrow> gthread \<Rightarrow> vmdata \<Rightarrow> vm_local option" where
  "reserve_update_timestamp spurious v g d = (case v of
     Reserve Upd pc \<Rightarrow>
       (case ReserveWriteTimestamp_step spurious pc d of
          (RGo pc', d') \<Rightarrow> Some (Reserve Upd pc', g, d')
        | (kReservedTs ts, d') \<Rightarrow> Some (Held Upd ts, g, d')
        | (RThrow e, d') \<Rightarrow> Some (VThrown e, g, d')
        | (r, d') \<Rightarrow> Some (GiveBack Upd (Some (reservation_failure r)),
                         Transition kInsertsBlocked kOpen True False CLoad, d'))
   | GiveBack Upd (Some e) \<Rightarrow> if g = Idle then Some (VThrown e, Idle, d) else None
   | _ \<Rightarrow> None)"

definition acquire_update_timestamp :: "vthread \<Rightarrow> gthread \<Rightarrow> vmdata \<Rightarrow> vm_local option" where
  "acquire_update_timestamp v g d = (case v of
     VIdle \<Rightarrow>
       if g = Idle then Some (Acquire Upd Block AEnter, Entering kInsertsBlocked CLoad, d) else None
   | Acquire Upd Block AEnter \<Rightarrow>
       if g = Owned kInsertsBlocked False False
       then Some (Acquire Upd Block ADrain1, WaitIns kInsertsBlocked False False, d) else None
   | Acquire Upd Block ADrain1 \<Rightarrow>
       if g = Owned kInsertsBlocked True False then Some (Reserve Upd RvLoad, g, d) else None
   | _ \<Rightarrow> None)"

definition acquire_update_timestamp_until ::
  "bool \<Rightarrow> vthread \<Rightarrow> gthread \<Rightarrow> vmdata \<Rightarrow> vm_local option" where
  "acquire_update_timestamp_until expired v g d = (case v of
     VIdle \<Rightarrow>
       if g = Idle
       then Some (Acquire Upd Until AEnter, EnteringUntil kInsertsBlocked (EEnter CLoad), d) else None
   | Acquire Upd Until AEnter \<Rightarrow>
       if g = Owned kInsertsBlocked False False
       then Some (Acquire Upd Until ADrain1, WaitIns kInsertsBlocked False True, d)
       else if g = Idle then Some (VThrown TransactionTimeout, Idle, d) else None
   | Acquire Upd Until ADrain1 \<Rightarrow>
       if g = Owned kInsertsBlocked False False
       then Some (GiveBack Upd (Some TransactionTimeout),
                  Transition kInsertsBlocked kOpen False False CLoad, d)
       else if g = Owned kInsertsBlocked True False then
         (if expired
          then Some (GiveBack Upd (Some TransactionTimeout),
                     Transition kInsertsBlocked kOpen True False CLoad, d)
          else Some (Reserve Upd RvLoad, g, d))
       else None
   | _ \<Rightarrow> None)"

definition try_acquire_update_timestamp :: "vthread \<Rightarrow> gthread \<Rightarrow> vmdata \<Rightarrow> vm_local option" where
  "try_acquire_update_timestamp v g d = (case v of
     VIdle \<Rightarrow>
       if g = Idle then Some (Acquire Upd Try AEnter, TryEntering kInsertsBlocked CLoad, d) else None
   | Acquire Upd Try AEnter \<Rightarrow>
       if g = Owned kInsertsBlocked False False
       then Some (Acquire Upd Try ADrain1, ProbeIns kInsertsBlocked False, d)
       else if g = Idle then Some (VIdle, Idle, d) else None
   | Acquire Upd Try ADrain1 \<Rightarrow>
       if g = Owned kInsertsBlocked False False
       then Some (GiveBack Upd None, Reopening kInsertsBlocked CLoad, d)
       else if g = Owned kInsertsBlocked True False then Some (Reserve Upd RvLoad, g, d) else None
   | GiveBack Upd None \<Rightarrow> if g = Idle then Some (VIdle, Idle, d) else None
   | _ \<Rightarrow> None)"

definition begin_update_commit :: "vthread \<Rightarrow> gthread \<Rightarrow> vmdata \<Rightarrow> vm_local option" where
  "begin_update_commit v g d = (case v of
     Held Upd ts \<Rightarrow>
       (case g of Owned ph ins rd \<Rightarrow>
          if ph = kInsertsBlocked
          then Some (v, Transition kInsertsBlocked kAllBlocked ins rd CLoad, d) else None
        | _ \<Rightarrow> None)
   | _ \<Rightarrow> None)"

text \<open>\<open>drain_readers\<close> loads the gate word \<open>w\<close> to check the phase first.\<close>

definition drain_readers :: "u64 \<Rightarrow> vthread \<Rightarrow> gthread \<Rightarrow> vmdata \<Rightarrow> vm_local option" where
  "drain_readers w v g d = (case v of
     Held Upd ts \<Rightarrow>
       (case g of Owned ph ins rd \<Rightarrow>
          if ph = kAllBlocked then
            (if phase w \<noteq> kAllBlocked then Some (VThrown InternalException, g, d)
             else Some (v, WaitRd kAllBlocked ins False, d))
          else None
        | _ \<Rightarrow> None)
   | _ \<Rightarrow> None)"

text \<open>An installed snapshot generation is passed only after the commit has started
  (\<open>UpdateTimestampLease::Finish\<close>).\<close>

definition finish_update_timestamp ::
  "nat \<Rightarrow> nat option \<Rightarrow> vthread \<Rightarrow> gthread \<Rightarrow> vmdata \<Rightarrow> vm_local option" where
  "finish_update_timestamp me installed v g d = (case v of
     Held Upd ts \<Rightarrow>
       (case g of Owned ph ins rd \<Rightarrow>
          if installed = None \<or> ph = kAllBlocked
          then Some (Complete Upd ts CoMark, g,
                 (case installed of None \<Rightarrow> d | Some gen \<Rightarrow> d \<lparr> generation := gen \<rparr>))
          else None
        | _ \<Rightarrow> None)
   | Complete Upd ts pc \<Rightarrow>
       (case complete_write_timestamp_step me ts pc d of
          (Some pc', d') \<Rightarrow> Some (Complete Upd ts pc', g, d')
        | (None, d') \<Rightarrow>
            (case g of Owned ph ins rd \<Rightarrow> Some (Release Upd ts, Reopening ph CLoad, d') | _ \<Rightarrow> None))
   | Release Upd ts \<Rightarrow> if g = Idle then Some (VIdle, Idle, d) else None
   | _ \<Rightarrow> None)"

text \<open>
  The stores of the reset are one step: they happen under the drained all-blocked phase,
  where no other thread is at a control point that accesses these variables
  (theorem \<open>timeline_reset_unobserved\<close> below).
\<close>

definition finish_update_and_reset_timeline ::
  "u64 \<Rightarrow> vthread \<Rightarrow> gthread \<Rightarrow> vmdata \<Rightarrow> vm_local option" where
  "finish_update_and_reset_timeline w v g d = (case v of
     Held Upd ts \<Rightarrow>
       if g = Owned kAllBlocked True True then
         (if phase w = kAllBlocked \<and> inserters w = 0 \<and> write_ts d = u32_succ ts
          then Some (Release Upd ts, Transition kAllBlocked kOpen True True CLoad,
                 d \<lparr> write_ts := 1, read_ts := 0, window := window_init,
                     published := (0, generation d) \<rparr>)
          else Some (VThrown CheckFailed, g, d))
       else None
   | _ \<Rightarrow> None)"

definition acquire_compact_timestamp ::
  "bool \<Rightarrow> vthread \<Rightarrow> gthread \<Rightarrow> vmdata \<Rightarrow> vm_local option" where
  "acquire_compact_timestamp spurious v g d = (case v of
     VIdle \<Rightarrow>
       if g = Idle then Some (Acquire Com Block AEnter, Entering kAllBlocked CLoad, d) else None
   | Acquire Com m AEnter \<Rightarrow>
       if g = Owned kAllBlocked False False
       then Some (Acquire Com m ADrain1, WaitRd kAllBlocked False False, d) else None
   | Acquire Com m ADrain1 \<Rightarrow>
       if g = Owned kAllBlocked False True
       then Some (Acquire Com m ADrain2, WaitIns kAllBlocked True False, d) else None
   | Acquire Com m ADrain2 \<Rightarrow>
       if g = Owned kAllBlocked True True then Some (Reserve Com RvLoad, g, d) else None
   | Reserve Com pc \<Rightarrow>
       (case ReserveWriteTimestamp_step spurious pc d of
          (RGo pc', d') \<Rightarrow> Some (Reserve Com pc', g, d')
        | (kReservedTs ts, d') \<Rightarrow> Some (Held Com ts, g, d')
        | (RThrow e, d') \<Rightarrow> Some (VThrown e, g, d')
        | (r, d') \<Rightarrow> Some (GiveBack Com (Some (reservation_failure r)),
                         Transition kAllBlocked kOpen True True CLoad, d'))
   | GiveBack Com (Some e) \<Rightarrow> if g = Idle then Some (VThrown e, Idle, d) else None
   | _ \<Rightarrow> None)"

text \<open>\<open>revert_compact_timestamp\<close> has the same body.\<close>

definition release_compact_timestamp ::
  "nat \<Rightarrow> u64 \<Rightarrow> vthread \<Rightarrow> gthread \<Rightarrow> vmdata \<Rightarrow> vm_local option" where
  "release_compact_timestamp me w v g d = (case v of
     Held Com ts \<Rightarrow>
       if phase w \<noteq> kAllBlocked then Some (VThrown InternalException, g, d)
       else Some (Complete Com ts CoMark, g, d)
   | Complete Com ts pc \<Rightarrow>
       (case complete_write_timestamp_step me ts pc d of
          (Some pc', d') \<Rightarrow> Some (Complete Com ts pc', g, d')
        | (None, d') \<Rightarrow> Some (Release Com ts, Transition kAllBlocked kOpen True True CLoad, d'))
   | Release Com ts \<Rightarrow> if g = Idle then Some (VIdle, Idle, d) else None
   | _ \<Rightarrow> None)"

definition revert_compact_timestamp ::
  "nat \<Rightarrow> u64 \<Rightarrow> vthread \<Rightarrow> gthread \<Rightarrow> vmdata \<Rightarrow> vm_local option" where
  "revert_compact_timestamp = release_compact_timestamp"

section \<open>The concurrent system\<close>

definition vm_next :: "nat \<Rightarrow> u64 \<Rightarrow> vthread \<Rightarrow> gthread \<Rightarrow> vmdata \<Rightarrow> vm_local \<Rightarrow> bool" where
  "vm_next me w v g d r \<longleftrightarrow>
     acquire_read_operation v g d = Some r \<or> release_read_operation v g d = Some r \<or>
     (\<exists>sp. acquire_insert_timestamp sp v g d = Some r) \<or> release_insert_timestamp me v g d = Some r \<or>
     (\<exists>sp. reserve_update_timestamp sp v g d = Some r) \<or> acquire_update_timestamp v g d = Some r \<or>
     (\<exists>ex. acquire_update_timestamp_until ex v g d = Some r) \<or>
     try_acquire_update_timestamp v g d = Some r \<or> begin_update_commit v g d = Some r \<or>
     drain_readers w v g d = Some r \<or> (\<exists>gen. finish_update_timestamp me gen v g d = Some r) \<or>
     finish_update_and_reset_timeline w v g d = Some r \<or>
     (\<exists>sp. acquire_compact_timestamp sp v g d = Some r) \<or>
     release_compact_timestamp me w v g d = Some r \<or> revert_compact_timestamp me w v g d = Some r"

record vm_state =
  gword :: u64
  gts :: "nat \<Rightarrow> gthread"
  data :: vmdata
  vts :: "nat \<Rightarrow> vthread"

inductive vm_step :: "nat \<Rightarrow> vm_state \<Rightarrow> vm_state \<Rightarrow> bool" for n where
  vm_gate: "i < n \<Longrightarrow> gate_run spurious expired (gts s i) (gword s) = (t', w')
            \<Longrightarrow> vm_step n s (s \<lparr> gword := w', gts := (gts s)(i := t') \<rparr>)"
| vm_call: "i < n \<Longrightarrow> vm_next i (gword s) (vts s i) (gts s i) (data s) (v', g', d')
            \<Longrightarrow> vm_step n s (s \<lparr> gts := (gts s)(i := g'), data := d', vts := (vts s)(i := v') \<rparr>)"

definition vm_init :: "vm_state \<Rightarrow> bool" where
  "vm_init s \<longleftrightarrow> gword s = reset_open \<and> gts s = (\<lambda>_. Idle) \<and> vts s = (\<lambda>_. VIdle) \<and>
     (\<exists>ts gen. ts \<le> u32_max \<and> init_ts (ts, gen) = Inr (data s))"

inductive vm_reachable :: "nat \<Rightarrow> vm_state \<Rightarrow> bool" for n where
  vm_reach_init: "vm_init s \<Longrightarrow> vm_reachable n s"
| vm_reach_step: "vm_reachable n s \<Longrightarrow> vm_step n s s' \<Longrightarrow> vm_reachable n s'"

end
