(* ===== verification/Timestamp_Lease.thy ===== *)
theory Timestamp_Lease
  imports Version_Manager
begin

text \<open>
  \<open>UpdateTimestampLease\<close> (\<open>src/transaction/timestamp_lease.cc\<close>): the move-only owner of
  one update timestamp. Each operation checks the lease's state and makes calls to the
  version manager; the model records those calls, so that the discipline the version
  manager relies on can be read off every sequence of operations.
\<close>

text \<open>\<open>UINT32_MAX\<close>, which the version manager never hands out.\<close>

definition kInactiveTimestamp :: nat where "kInactiveTimestamp = u32_max"

record UpdateTimestampLease =
  timestamp :: nat
  commit_started :: bool

datatype vm_request = BeginCommitReq nat | DrainReq | FinishReq nat "nat option" | ResetReq nat

type_synonym lease_result = "(UpdateTimestampLease \<times> vm_request list) res"

text \<open>The constructors: \<open>acquired\<close> is what the version manager handed out.\<close>

definition lease_acquire :: "nat \<Rightarrow> UpdateTimestampLease res" where
  "lease_acquire acquired =
     (if acquired = kInactiveTimestamp then Inl CheckFailed
      else Inr \<lparr> timestamp = acquired, commit_started = False \<rparr>)"

definition lease_try_acquire :: "nat option \<Rightarrow> UpdateTimestampLease option" where
  "lease_try_acquire acquired =
     (case acquired of None \<Rightarrow> None | Some ts \<Rightarrow> Some \<lparr> timestamp = ts, commit_started = False \<rparr>)"

definition BeginCommit :: "UpdateTimestampLease \<Rightarrow> lease_result" where
  "BeginCommit l =
     (if timestamp l = kInactiveTimestamp then Inl CheckFailed
      else if commit_started l then Inl CheckFailed
      else Inr (l \<lparr> commit_started := True \<rparr>, [BeginCommitReq (timestamp l)]))"

definition MakeUpdateExclusive :: "UpdateTimestampLease \<Rightarrow> lease_result" where
  "MakeUpdateExclusive l =
     res_bind (if \<not> commit_started l then BeginCommit l else Inr (l, []))
       (\<lambda>(l', calls). Inr (l', calls @ [DrainReq]))"

definition Finish :: "nat option \<Rightarrow> UpdateTimestampLease \<Rightarrow> lease_result" where
  "Finish installed l =
     (if timestamp l = kInactiveTimestamp then Inl CheckFailed
      else if installed \<noteq> None \<and> \<not> commit_started l then Inl CheckFailed
      else Inr (l \<lparr> timestamp := kInactiveTimestamp, commit_started := False \<rparr>,
                [FinishReq (timestamp l) installed]))"

definition FinishAndResetTimeline :: "UpdateTimestampLease \<Rightarrow> lease_result" where
  "FinishAndResetTimeline l =
     (if timestamp l = kInactiveTimestamp then Inl CheckFailed
      else if \<not> commit_started l then Inl CheckFailed
      else Inr (l \<lparr> timestamp := kInactiveTimestamp, commit_started := False \<rparr>,
                [ResetReq (timestamp l)]))"

text \<open>\<open>reset\<close>, which the destructor runs.\<close>

definition lease_reset :: "UpdateTimestampLease \<Rightarrow> lease_result" where
  "lease_reset l =
     (if timestamp l = kInactiveTimestamp then Inr (l, [])
      else Inr (l \<lparr> timestamp := kInactiveTimestamp, commit_started := False \<rparr>,
                [FinishReq (timestamp l) None]))"

text \<open>The move constructor: the new lease, and what it leaves behind.\<close>

definition lease_move :: "UpdateTimestampLease \<Rightarrow> UpdateTimestampLease \<times> UpdateTimestampLease" where
  "lease_move other = (other, \<lparr> timestamp = kInactiveTimestamp, commit_started = False \<rparr>)"

datatype lease_op = OpBegin | OpExclusive | OpFinish "nat option" | OpFinishReset

fun lease_apply :: "lease_op \<Rightarrow> UpdateTimestampLease \<Rightarrow> lease_result" where
  "lease_apply OpBegin l = BeginCommit l"
| "lease_apply OpExclusive l = MakeUpdateExclusive l"
| "lease_apply (OpFinish g) l = Finish g l"
| "lease_apply OpFinishReset l = FinishAndResetTimeline l"

text \<open>A lease's life: any operations, then the destructor.\<close>

fun lease_life :: "lease_op list \<Rightarrow> UpdateTimestampLease \<Rightarrow> vm_request list res" where
  "lease_life [] l = res_bind (lease_reset l) (\<lambda>(l', calls). Inr calls)"
| "lease_life (op # ops) l =
     res_bind (lease_apply op l) (\<lambda>(l', calls).
       res_bind (lease_life ops l') (\<lambda>rest. Inr (calls @ rest)))"

definition is_end :: "vm_request \<Rightarrow> bool" where
  "is_end r \<longleftrightarrow> (case r of FinishReq ts g \<Rightarrow> True | ResetReq ts \<Rightarrow> True | _ \<Rightarrow> False)"

text \<open>The discipline: at most one commit start, drains only after it, an installed
  generation or a timeline reset only after it, and exactly one end, the last of the
  requests that concern the timestamp.\<close>

fun well_ordered :: "nat \<Rightarrow> bool \<Rightarrow> vm_request list \<Rightarrow> bool" where
  "well_ordered ts started [] = False"
| "well_ordered ts started (BeginCommitReq t # rs) = (\<not> started \<and> t = ts \<and> well_ordered ts True rs)"
| "well_ordered ts started (DrainReq # rs) = (started \<and> well_ordered ts started rs)"
| "well_ordered ts started (FinishReq t g # rs) = (t = ts \<and> (g = None \<or> started) \<and> rs = [])"
| "well_ordered ts started (ResetReq t # rs) = (t = ts \<and> started \<and> rs = [])"

lemmas lease_defs = BeginCommit_def MakeUpdateExclusive_def Finish_def FinishAndResetTimeline_def
  lease_reset_def

text \<open>An ended lease makes no request: every operation on it is a failed check.\<close>

lemma inactive_lease_silent:
  assumes "lease_life ops l = Inr calls" "timestamp l = kInactiveTimestamp" "\<not> commit_started l"
  shows "ops = [] \<and> calls = []"
  using assms by (cases ops rule: list.exhaust; case_tac "hd ops") (auto simp: lease_defs split: if_splits)

lemma lease_life_ordered:
  assumes "lease_life ops l = Inr calls" "timestamp l \<noteq> kInactiveTimestamp"
  shows "well_ordered (timestamp l) (commit_started l) calls"
  using assms
proof (induction ops arbitrary: l calls)
  case Nil
  then show ?case by (auto simp: lease_defs)
next
  case (Cons op ops)
  then show ?case
    using inactive_lease_silent [of ops "l\<lparr>timestamp := kInactiveTimestamp, commit_started := False\<rparr>"]
    by (cases op) (fastforce simp: lease_defs split: if_splits)+
qed

section \<open>Properties\<close>

text \<open>
  C13. An acquired update lease obeys the protocol the version manager needs, whatever
  operations its owner performs before it is destroyed, provided no check fails: the commit
  is started at most once, readers are drained and a generation installed or the timeline
  reset only after the commit started, and the timestamp is finished or reset exactly once.
\<close>
theorem update_lease_protocol:
  assumes "lease_acquire ts = Inr l" "lease_life ops l = Inr calls"
  shows "well_ordered ts False calls"
  using lease_life_ordered [OF assms(2)] assms(1)
  by (auto simp: lease_acquire_def split: if_splits)

theorem update_lease_protocol_witness:
  "well_ordered 7 False [BeginCommitReq 7, DrainReq, FinishReq 7 (Some 3)]"
  using update_lease_protocol [of 7 "\<lparr> timestamp = 7, commit_started = False \<rparr>" "[OpExclusive, OpFinish (Some 3)]"
      "[BeginCommitReq 7, DrainReq, FinishReq 7 (Some 3)]"]
  by (simp add: lease_acquire_def lease_defs kInactiveTimestamp_def)

end
