(* ===== verification/Archive.thy ===== *)
theory Archive
  imports Prelude
begin

text \<open>
  \<open>InArchive\<close> and \<open>OutArchive\<close> (\<open>include/neug/utils/serialization\<close>): the byte encoding of plain
  data, strings and vectors on a little-endian machine. An \<open>InArchive\<close> is the bytes written so
  far; an \<open>OutArchive\<close> is the bytes not read yet.
\<close>

section \<open>Writing\<close>

definition AddBytes :: "bytes \<Rightarrow> bytes \<Rightarrow> bytes" where "AddBytes buffer data = buffer @ data"

definition put_pod :: "nat \<Rightarrow> nat \<Rightarrow> written" where "put_pod sz v = (AddBytes [] (le_bytes sz v), None)"

definition put_u8 :: "u8 \<Rightarrow> written" where "put_u8 w = put_pod 1 (unat w)"
definition put_u32 :: "u32 \<Rightarrow> written" where "put_u32 w = put_pod 4 (unat w)"
definition put_u64 :: "u64 \<Rightarrow> written" where "put_u64 w = put_pod 8 (unat w)"
definition put_bool :: "bool \<Rightarrow> written" where "put_bool b = put_u8 (of_bool b)"

definition put_string :: "bytes \<Rightarrow> written" where
  "put_string s = wcat [put_u64 (of_nat (length s)), (AddBytes [] s, None)]"

text \<open>A vector of non-plain data: the \<open>size_t\<close> count, then the items; and the form with a
  \<open>uint32_t\<close> count that the serializers of the log write out by hand.\<close>

definition put_vector :: "('a \<Rightarrow> written) \<Rightarrow> 'a list \<Rightarrow> written" where
  "put_vector put xs = wcat (put_u64 (of_nat (length xs)) # map put xs)"

definition put_vector32 :: "('a \<Rightarrow> written) \<Rightarrow> 'a list \<Rightarrow> written" where
  "put_vector32 put xs = wcat (put_u32 (of_nat (length xs)) # map put xs)"

section \<open>Reading\<close>

definition GetBytes :: "nat \<Rightarrow> bytes reader" where
  "GetBytes sz bs = (if sz \<le> length bs then Inr (take sz bs, drop sz bs) else Inl UndefinedBehaviour)"

definition get_u8 :: "u8 reader" where "get_u8 = rbind (GetBytes 1) (\<lambda>bs. rret (of_nat (le_val bs)))"
definition get_u32 :: "u32 reader" where "get_u32 = rbind (GetBytes 4) (\<lambda>bs. rret (of_nat (le_val bs)))"
definition get_u64 :: "u64 reader" where "get_u64 = rbind (GetBytes 8) (\<lambda>bs. rret (of_nat (le_val bs)))"
definition get_bool :: "bool reader" where "get_bool = rbind get_u8 (\<lambda>b. rret (b \<noteq> 0))"

definition get_string :: "bytes reader" where
  "get_string = rbind get_u64 (\<lambda>sz. GetBytes (unat sz))"

definition get_vector :: "'a reader \<Rightarrow> 'a list reader" where
  "get_vector r = rbind get_u64 (\<lambda>sz. get_n r (unat sz))"

definition get_vector32 :: "'a reader \<Rightarrow> 'a list reader" where
  "get_vector32 r = rbind get_u32 (\<lambda>sz. get_n r (unat sz))"

definition Peek :: "'a reader \<Rightarrow> 'a reader" where
  "Peek r bs = res_bind (r bs) (\<lambda>(x, _). Inr (x, bs))"

section \<open>Plain data\<close>

lemma put_pod_eq [simp]: "put_pod n v = (le_bytes n v, None)"
  by (simp add: put_pod_def AddBytes_def)

lemma GetBytes_append [simp]: "length a = n \<Longrightarrow> GetBytes n (a @ rest) = Inr (a, rest)"
  by (simp add: GetBytes_def)

lemma pod_val: "v < 256 ^ n \<Longrightarrow> le_val (le_bytes n v) = v"
  by (simp add: le_val_le_bytes)

lemma get_u8_put [simp]: "put_u8 w = (b, None) \<Longrightarrow> get_u8 (b @ rest) = Inr (w, rest)"
  by (auto simp: put_u8_def get_u8_def GetBytes_def rbind_def)

lemma get_u32_put [simp]: "put_u32 w = (b, None) \<Longrightarrow> get_u32 (b @ rest) = Inr (w, rest)"
  using unsigned_less [of w, where ?'a = nat] by (auto simp: put_u32_def get_u32_def pod_val)

lemma get_u64_put [simp]: "put_u64 w = (b, None) \<Longrightarrow> get_u64 (b @ rest) = Inr (w, rest)"
  using unsigned_less [of w, where ?'a = nat] by (auto simp: put_u64_def get_u64_def pod_val)

lemma put_lengths:
  "put_u8 w8 = (b, None) \<Longrightarrow> length b = 1" "put_u32 w = (b, None) \<Longrightarrow> length b = 4"
  "put_u64 w64 = (b, None) \<Longrightarrow> length b = 8"
  by (auto simp: put_u8_def put_u32_def put_u64_def)

lemma put_total [simp]: "snd (put_u8 w8) = None" "snd (put_u32 w) = None" "snd (put_u64 w64) = None"
  "snd (put_bool x) = None" "snd (put_string s) = None"
  by (simp_all add: put_u8_def put_u32_def put_u64_def put_bool_def put_string_def AddBytes_def)

lemma get_bool_put [simp]: "put_bool x = (b, None) \<Longrightarrow> get_bool (b @ rest) = Inr (x, rest)"
  by (simp add: put_bool_def get_bool_def)

lemma unat_of_nat_64: "n < 2 ^ 64 \<Longrightarrow> unat (of_nat n :: u64) = n"
  by (simp add: unat_of_nat take_bit_nat_eq_self)

lemma unat_of_nat_32: "n < 2 ^ 32 \<Longrightarrow> unat (of_nat n :: u32) = n"
  by (simp add: unat_of_nat take_bit_nat_eq_self)

text \<open>A string in memory is shorter than \<open>2 ^ 64\<close>.\<close>

definition wf_string :: "bytes \<Rightarrow> bool" where "wf_string s \<longleftrightarrow> length s < 2 ^ 64"

lemma get_string_put [simp]:
  "put_string s = (b, None) \<Longrightarrow> wf_string s \<Longrightarrow> get_string (b @ rest) = Inr (s, rest)"
  by (auto simp: put_string_def get_string_def wf_string_def AddBytes_def unat_of_nat_64)

lemma shrinks_GetBytes [reader_intros]: "shrinks (GetBytes n)"
  by (simp add: shrinks_def GetBytes_def)

lemma shrinks_pods [reader_intros]:
  "shrinks get_u8" "shrinks get_u32" "shrinks get_u64" "shrinks get_bool" "shrinks get_string"
  unfolding get_u8_def get_u32_def get_u64_def get_bool_def get_string_def by (intro reader_intros)+

lemma shrinks_vectors [reader_intros]:
  "shrinks r \<Longrightarrow> shrinks (get_vector r)" "shrinks r \<Longrightarrow> shrinks (get_vector32 r)"
  unfolding get_vector_def get_vector32_def by (intro reader_intros; assumption)+

interpretation string_codec: codec put_string get_string wf_string "\<lambda>s. s"
  by unfold_locales simp

context codec
begin

lemma get_vector_put:
  assumes "\<forall>x\<in>set xs. wf x" "length xs < 2 ^ 64" "put_vector enc xs = (b, None)"
  shows "get_vector dec (b @ rest) = Inr (map norm xs, rest)"
  using assms dec_enc_n [of xs] by (auto simp: put_vector_def get_vector_def unat_of_nat_64)

lemma get_vector32_put:
  assumes "\<forall>x\<in>set xs. wf x" "length xs < 2 ^ 32" "put_vector32 enc xs = (b, None)"
  shows "get_vector32 dec (b @ rest) = Inr (map norm xs, rest)"
  using assms dec_enc_n [of xs] by (auto simp: put_vector32_def get_vector32_def unat_of_nat_32)

end

end
