(* ===== verification/Data_Types.thy ===== *)
theory Data_Types
  imports Archive
begin

text \<open>
  \<open>DataTypeId\<close> and \<open>DataType\<close> (\<open>src/common/types.cc\<close>) and their byte encoding: the value codecs
  and the log records of schema changes write them.
\<close>

section \<open>Types\<close>

text \<open>\<open>enum class DataTypeId : uint8_t\<close>; a cast from an integer can give any byte.\<close>

type_synonym DataTypeId = u8

abbreviation kInvalid :: DataTypeId where "kInvalid \<equiv> 0"
abbreviation kNull :: DataTypeId where "kNull \<equiv> 1"
abbreviation kUnknown :: DataTypeId where "kUnknown \<equiv> 2"
abbreviation kBoolean :: DataTypeId where "kBoolean \<equiv> 10"
abbreviation kInt32 :: DataTypeId where "kInt32 \<equiv> 13"
abbreviation kInt64 :: DataTypeId where "kInt64 \<equiv> 14"
abbreviation kDate :: DataTypeId where "kDate \<equiv> 15"
abbreviation kTimestampMs :: DataTypeId where "kTimestampMs \<equiv> 18"
abbreviation kFloat :: DataTypeId where "kFloat \<equiv> 22"
abbreviation kDouble :: DataTypeId where "kDouble \<equiv> 23"
abbreviation kVarchar :: DataTypeId where "kVarchar \<equiv> 25"
abbreviation kInterval :: DataTypeId where "kInterval \<equiv> 27"
abbreviation kUInt32 :: DataTypeId where "kUInt32 \<equiv> 30"
abbreviation kUInt64 :: DataTypeId where "kUInt64 \<equiv> 31"
abbreviation kStruct :: DataTypeId where "kStruct \<equiv> 100"
abbreviation kList :: DataTypeId where "kList \<equiv> 101"
abbreviation kArray :: DataTypeId where "kArray \<equiv> 108"
abbreviation kEmpty :: DataTypeId where "kEmpty \<equiv> 203"

text \<open>\<open>NoTypeInfo\<close> is the null pointer. The node and relationship infos extend the struct info;
  their link into the compiler plays no role here.\<close>

datatype DataType = DataType (dt_id: DataTypeId) (dt_info: ExtraTypeInfo)
and ExtraTypeInfo =
    NoTypeInfo
  | ListTypeInfo DataType
  | StructTypeInfo "DataType list" "bytes list"
  | ArrayTypeInfo DataType u64
  | MapTypeInfo DataType DataType
  | StringTypeInfo u64
  | GNodeTypeInfo "DataType list" "bytes list"
  | GRelTypeInfo "DataType list" "bytes list"

definition mk_Struct_unnamed :: "DataType list \<Rightarrow> DataType" where
  "mk_Struct_unnamed children = DataType kStruct (StructTypeInfo children [])"

fun duplicate_name :: "bytes set \<Rightarrow> bytes list \<Rightarrow> bool" where
  "duplicate_name seen [] = False"
| "duplicate_name seen (x # xs) =
     (if x \<noteq> [] then if x \<in> seen then True else duplicate_name (insert x seen) xs
      else duplicate_name seen xs)"

definition mk_Struct :: "bytes list \<Rightarrow> DataType list \<Rightarrow> DataType res" where
  "mk_Struct field_names field_types =
     (if length field_names \<noteq> length field_types then Inl RuntimeError
      else if list_ex (\<lambda>n. n = []) field_names \<and> list_ex (\<lambda>n. n \<noteq> []) field_names then Inl RuntimeError
      else if duplicate_name {} field_names then Inl RuntimeError
      else Inr (DataType kStruct (StructTypeInfo field_types field_names)))"

definition FromFields :: "bytes list \<Rightarrow> DataType list \<Rightarrow> DataType res" where
  "FromFields field_names child_types =
     (if field_names = [] then Inr (mk_Struct_unnamed child_types) else mk_Struct field_names child_types)"

definition mk_List :: "DataType \<Rightarrow> DataType" where
  "mk_List child_type = DataType kList (ListTypeInfo child_type)"

definition mk_Array :: "DataType \<Rightarrow> u64 \<Rightarrow> DataType res" where
  "mk_Array child_type num_elements =
     (if num_elements = 0 \<and> dt_id child_type \<noteq> kUnknown then Inl RuntimeError
      else Inr (DataType kArray (ArrayTypeInfo child_type num_elements)))"

definition mk_Varchar :: "u64 \<Rightarrow> DataType" where
  "mk_Varchar max_length = DataType kVarchar (StringTypeInfo max_length)"

text \<open>\<open>EqualTypeInfo\<close>: string infos are equal whatever their lengths, also to no info.\<close>

fun type_eq :: "DataType \<Rightarrow> DataType \<Rightarrow> bool"
and info_eq :: "ExtraTypeInfo \<Rightarrow> ExtraTypeInfo \<Rightarrow> bool" where
  "type_eq (DataType i a) (DataType j b) = (i = j \<and> info_eq a b)"
| "info_eq a b = (case a of
     NoTypeInfo \<Rightarrow> (case b of NoTypeInfo \<Rightarrow> True | StringTypeInfo _ \<Rightarrow> True | _ \<Rightarrow> False)
   | StringTypeInfo _ \<Rightarrow> True
   | ListTypeInfo s \<Rightarrow> (case b of ListTypeInfo t \<Rightarrow> type_eq s t | _ \<Rightarrow> False)
   | ArrayTypeInfo s m \<Rightarrow> (case b of ArrayTypeInfo t n \<Rightarrow> type_eq s t \<and> m = n | _ \<Rightarrow> False)
   | MapTypeInfo k v \<Rightarrow> (case b of MapTypeInfo k' v' \<Rightarrow> type_eq k k' \<and> type_eq v v' | _ \<Rightarrow> False)
   | StructTypeInfo ss ns \<Rightarrow> (case b of StructTypeInfo ts ms \<Rightarrow> list_all2 type_eq ss ts \<and> ns = ms | _ \<Rightarrow> False)
   | GNodeTypeInfo ss ns \<Rightarrow> (case b of GNodeTypeInfo ts ms \<Rightarrow> list_all2 type_eq ss ts \<and> ns = ms | _ \<Rightarrow> False)
   | GRelTypeInfo ss ns \<Rightarrow> (case b of GRelTypeInfo ts ms \<Rightarrow> list_all2 type_eq ss ts \<and> ns = ms | _ \<Rightarrow> False))"

section \<open>Encoding\<close>

text \<open>A \<open>DataTypeId\<close> is written as an \<open>int32_t\<close>.\<close>

definition put_DataTypeId :: "DataTypeId \<Rightarrow> written" where "put_DataTypeId i = put_u32 (ucast i)"
definition get_DataTypeId :: "DataTypeId reader" where "get_DataTypeId = rbind get_u32 (\<lambda>w. rret (ucast w))"

fun put_DataType :: "DataType \<Rightarrow> written"
and put_TypeInfo :: "DataTypeId \<Rightarrow> ExtraTypeInfo \<Rightarrow> written" where
  "put_DataType (DataType i info) = wcat [put_DataTypeId i,
     if info = NoTypeInfo then put_u8 0 else wcat [put_u8 1, put_TypeInfo i info]]"
| "put_TypeInfo i info =
     (if i = kList then
        (case info of ListTypeInfo c \<Rightarrow> put_DataType c | ArrayTypeInfo c _ \<Rightarrow> put_DataType c
         | _ \<Rightarrow> ([], Some UndefinedBehaviour))
      else if i = kStruct then
        (case info of StructTypeInfo cs names \<Rightarrow>
           wcat [wcat (put_u64 (of_nat (length cs)) # map put_DataType cs), put_vector put_string names]
         | GNodeTypeInfo cs names \<Rightarrow>
           wcat [wcat (put_u64 (of_nat (length cs)) # map put_DataType cs), put_vector put_string names]
         | GRelTypeInfo cs names \<Rightarrow>
           wcat [wcat (put_u64 (of_nat (length cs)) # map put_DataType cs), put_vector put_string names]
         | _ \<Rightarrow> ([], Some UndefinedBehaviour))
      else if i = kArray then
        (case info of ArrayTypeInfo c n \<Rightarrow> wcat [put_DataType c, put_u64 n]
         | _ \<Rightarrow> ([], Some UndefinedBehaviour))
      else if i = kVarchar then
        (case info of StringTypeInfo m \<Rightarrow> put_u64 m | _ \<Rightarrow> ([], Some UndefinedBehaviour))
      else ([], Some NotSupported))"

definition lift :: "'a res \<Rightarrow> 'a reader" where
  "lift r bs = res_bind r (\<lambda>x. Inr (x, bs))"

text \<open>The fuel bounds the nesting; every level reads at least five bytes.\<close>

definition get_DataType_body :: "DataType reader \<Rightarrow> DataType reader" where
  "get_DataType_body rec = rbind get_DataTypeId (\<lambda>i. rbind get_u8 (\<lambda>has.
     if has \<noteq> 0 then
       if i = kList then rbind rec (\<lambda>c. rret (mk_List c))
       else if i = kStruct then
         rbind (get_vector rec) (\<lambda>cs. rbind (get_vector get_string) (\<lambda>names. lift (FromFields names cs)))
       else if i = kArray then rbind rec (\<lambda>c. rbind get_u64 (\<lambda>n. lift (mk_Array c n)))
       else if i = kVarchar then rbind get_u64 (\<lambda>m. rret (mk_Varchar m))
       else rfail NotSupported
     else rret (DataType i NoTypeInfo)))"

fun get_DataType_fuel :: "nat \<Rightarrow> DataType reader" where
  "get_DataType_fuel 0 = rfail UndefinedBehaviour"
| "get_DataType_fuel (Suc k) = get_DataType_body (get_DataType_fuel k)"

definition get_DataType :: "DataType reader" where
  "get_DataType bs = get_DataType_fuel (Suc (length bs)) bs"

section \<open>Well-formed types\<close>

fun wf_type :: "DataType \<Rightarrow> bool" where
  "wf_type (DataType i info) = (case info of
     NoTypeInfo \<Rightarrow> True
   | ListTypeInfo c \<Rightarrow> i = kList \<and> wf_type c
   | StructTypeInfo cs names \<Rightarrow> i = kStruct \<and> list_all wf_type cs \<and> list_all wf_string names \<and>
       length cs < 2 ^ 64 \<and> length names < 2 ^ 64 \<and>
       FromFields names cs = Inr (DataType kStruct (StructTypeInfo cs names))
   | ArrayTypeInfo c n \<Rightarrow> i = kArray \<and> wf_type c \<and> (n \<noteq> 0 \<or> dt_id c = kUnknown)
   | StringTypeInfo m \<Rightarrow> i = kVarchar
   | _ \<Rightarrow> False)"


section \<open>Reading back\<close>

lemma get_DataTypeId_put [simp]:
  "put_DataTypeId i = (b, None) \<Longrightarrow> get_DataTypeId (b @ rest) = Inr (i, rest)"
proof -
  assume "put_DataTypeId i = (b, None)"
  moreover have "ucast (ucast i :: u32) = i" by (rule bit_word_eqI) (auto simp: bit_simps)
  ultimately show ?thesis by (simp add: put_DataTypeId_def get_DataTypeId_def)
qed

lemma lift_Inr [simp]: "lift (Inr x) bs = Inr (x, bs)"
  by (simp add: lift_def)

lemma shrinks_lift [reader_intros]: "shrinks (lift r)"
  by (cases r) (simp_all add: shrinks_def lift_def)

lemma shrinks_DataTypeId [reader_intros]: "shrinks get_DataTypeId"
  unfolding get_DataTypeId_def by (intro reader_intros)

lemma get_DataTypeId_strict: "get_DataTypeId bs = Inr (i, rest) \<Longrightarrow> length rest < length bs"
  by (auto simp: get_DataTypeId_def get_u32_def GetBytes_def rbind_def rret_def split: if_splits)

lemma shrinks_DataType_fuel [reader_intros]: "shrinks (get_DataType_fuel k)"
proof (induction k)
  case 0 then show ?case by (simp add: reader_intros)
next
  case (Suc k)
  then show ?case unfolding get_DataType_fuel.simps get_DataType_body_def
    by (auto intro!: shrinks_rbind shrinks_DataTypeId shrinks_pods shrinks_lift shrinks_rret shrinks_rfail shrinks_vectors)
qed

lemma agree_vector [reader_intros]: "agree k r s \<Longrightarrow> shrinks r \<Longrightarrow> agree k (get_vector r) (get_vector s)"
  unfolding get_vector_def by (intro reader_intros) auto

text \<open>After a strict first read the rest of the reader sees shorter input.\<close>

lemma agree_strict:
  assumes "\<And>bs x rest. r bs = Inr (x, rest) \<Longrightarrow> length rest < length bs" "\<And>x. agree k (f x) (g x)"
  shows "agree (Suc k) (rbind r f) (rbind r g)"
proof -
  have "rbind r f bs = rbind r g bs" if "length bs < Suc k" for bs
  proof (cases "r bs")
    case (Inr p)
    obtain x rest where "p = (x, rest)" by (cases p)
    then have "length rest < k" using assms(1) [of bs x rest] Inr that by simp
    then show ?thesis using assms(2) [of x] Inr \<open>p = _\<close> by (simp add: agree_def)
  qed (simp add: rbind_def)
  then show ?thesis by (simp add: agree_def)
qed

lemma DataType_fuel_step: "agree k (get_DataType_fuel k) (get_DataType_fuel (Suc k))"
proof (induction k)
  case 0 then show ?case by (simp add: agree_def)
next
  case (Suc k)
  have "agree (Suc k) (get_DataType_body r) (get_DataType_body s)" if "agree k r s" "shrinks r" for r s
    unfolding get_DataType_body_def
    by (rule agree_strict [OF get_DataTypeId_strict])
      (auto intro!: agree_rbind agree_refl agree_vector that shrinks_pods shrinks_vectors)
  then show ?case using Suc shrinks_DataType_fuel by (metis get_DataType_fuel.simps(2))
qed

lemma DataType_fuel_enough: "length bs < k \<Longrightarrow> get_DataType_fuel k bs = get_DataType bs"
proof (induction k)
  case (Suc k)
  show ?case
  proof (cases "length bs = k")
    case True then show ?thesis by (simp add: get_DataType_def)
  next
    case False
    then show ?thesis using Suc DataType_fuel_step [of k] by (simp add: agree_def del: get_DataType_fuel.simps)
  qed
qed simp

fun tdepth :: "DataType \<Rightarrow> nat" where
  "tdepth (DataType i info) = Suc (case info of
     ListTypeInfo c \<Rightarrow> tdepth c | ArrayTypeInfo c n \<Rightarrow> tdepth c
   | StructTypeInfo cs names \<Rightarrow> Max (insert 0 (set (map tdepth cs))) | _ \<Rightarrow> 0)"

lemma get_DataType_fuel_put:
  "wf_type t \<Longrightarrow> put_DataType t = (b, None) \<Longrightarrow> tdepth t \<le> k \<Longrightarrow> get_DataType_fuel k (b @ rest) = Inr (t, rest)"
proof (induction t arbitrary: b k rest rule: wf_type.induct)
  case (1 i info)
  then obtain j where k: "k = Suc j" by (cases k) auto
  note IH = "1.IH"
  note P = "1.prems"
  show ?case
  proof (cases info)
    case NoTypeInfo
    then show ?thesis using P k by (auto simp: get_DataType_body_def)
  next
    case (ListTypeInfo c)
    then show ?thesis using P k IH(1) [OF ListTypeInfo, of _ j] by (auto simp: mk_List_def get_DataType_body_def)
  next
    case (ArrayTypeInfo c n)
    then show ?thesis using P k IH(3) [OF ArrayTypeInfo, of _ j] by (auto simp: mk_Array_def get_DataType_body_def)
  next
    case (StringTypeInfo m)
    then show ?thesis using P k by (auto simp: mk_Varchar_def get_DataType_body_def)
  next
    case (StructTypeInfo cs names)
    have c: "get_DataType_fuel j (b' @ r') = Inr (c, r')"
      if "c \<in> set cs" "put_DataType c = (b', None)" for c b' r'
    proof -
      have "tdepth c \<le> j" using P(3) k StructTypeInfo that(1) by simp
      moreover have "wf_type c" using P(1) StructTypeInfo that(1) by (auto simp: list_all_iff)
      ultimately show ?thesis using IH(2) [OF StructTypeInfo that(1)] that(2) by blast
    qed
    have "codec put_DataType (get_DataType_fuel j) (\<lambda>c. c \<in> set cs) (\<lambda>c. c)"
      by unfold_locales (rule c)
    from codec.get_vector_put [OF this, of cs]
    have v: "put_vector put_DataType cs = (b', None) \<Longrightarrow> get_vector (get_DataType_fuel j) (b' @ r') = Inr (cs, r')" for b' r'
      using P(1) StructTypeInfo by simp
    have w: "put_vector put_string names = (b', None) \<Longrightarrow> get_vector get_string (b' @ r') = Inr (names, r')" for b' r'
      using string_codec.get_vector_put [of names b' r'] P(1) StructTypeInfo by (simp add: list_all_iff)
    show ?thesis using P k StructTypeInfo v w by (auto simp: put_vector_def get_DataType_body_def)
  qed (use P in auto)
qed

interpretation type_codec: codec put_DataType get_DataType wf_type "\<lambda>t. t"
proof
  fix t b rest assume "wf_type t" "put_DataType t = (b, None)"
  then show "get_DataType (b @ rest) = Inr (t, rest)"
    using get_DataType_fuel_put [of t b "max (tdepth t) (Suc (length (b @ rest)))" rest]
      DataType_fuel_enough [of "b @ rest" "max (tdepth t) (Suc (length (b @ rest)))"] by (simp add: less_max_iff_disj del: length_append)
qed


section \<open>Properties\<close>

text \<open>
  C21. Every data type that the constructors can build and that has an encoding is read back
  unchanged, whatever follows it in the buffer; and no encoding is a prefix of another one.
\<close>
theorem data_type_round_trip:
  assumes "wf_type t" "put_DataType t = (b, None)"
  shows "get_DataType (b @ rest) = Inr (t, rest) \<and>
         (\<forall>u c s. wf_type u \<and> put_DataType u = (c, None) \<and> b @ rest = c @ s \<longrightarrow> u = t)"
  using type_codec.dec_enc [OF assms, of rest] type_codec.prefix_free [OF assms(1) _ assms(2), of _ _ rest]
  by metis

theorem data_type_round_trip_witness:
  "let t = mk_List (mk_Varchar 64) in get_DataType (fst (put_DataType t) @ [7]) = Inr (t, [7])"
  using data_type_round_trip [of "mk_List (mk_Varchar 64)" "fst (put_DataType (mk_List (mk_Varchar 64)))" "[7]"]
  by (simp add: mk_List_def mk_Varchar_def put_DataTypeId_def put_u32_def put_u8_def put_u64_def)

text \<open>\<open>erase\<close> forgets the declared length of strings.\<close>

fun erase :: "DataType \<Rightarrow> DataType" where
  "erase (DataType i info) = DataType i (case info of
     StringTypeInfo m \<Rightarrow> NoTypeInfo
   | ListTypeInfo c \<Rightarrow> ListTypeInfo (erase c)
   | ArrayTypeInfo c n \<Rightarrow> ArrayTypeInfo (erase c) n
   | StructTypeInfo cs names \<Rightarrow> StructTypeInfo (map erase cs) names
   | _ \<Rightarrow> info)"

lemma list_all2_map_eq:
  "(\<And>x y. x \<in> set xs \<Longrightarrow> y \<in> set ys \<Longrightarrow> P x y \<longleftrightarrow> f x = f y) \<Longrightarrow> list_all2 P xs ys \<longleftrightarrow> map f xs = map f ys"
  by (induction xs arbitrary: ys; case_tac ys) auto

text \<open>
  C22. Equality of data types, as \<open>operator==\<close> computes it, is equality up to the declared
  lengths of strings: it is an equivalence on the types that can be built, and it never
  distinguishes \<open>VARCHAR(m)\<close> from \<open>VARCHAR(n)\<close>, at any depth.
\<close>
theorem type_eq_ignores_string_length:
  "wf_type s \<Longrightarrow> wf_type t \<Longrightarrow> type_eq s t \<longleftrightarrow> erase s = erase t"
proof (induction s arbitrary: t rule: wf_type.induct)
  case (1 i a)
  obtain j b where t: "t = DataType j b" by (cases t)
  show ?case
  proof (cases a)
    case (StructTypeInfo cs names)
    have "list_all2 type_eq cs ds \<longleftrightarrow> map erase cs = map erase ds" if "list_all wf_type ds" for ds
      using that "1.prems"(1) StructTypeInfo "1.IH"(2) [OF StructTypeInfo]
      by (intro list_all2_map_eq) (auto simp: list_all_iff)
    then show ?thesis using "1.prems" StructTypeInfo t by (cases b) auto
  next
    case (ListTypeInfo c)
    then show ?thesis using "1.prems" "1.IH"(1) [OF ListTypeInfo] t by (cases b) auto
  next
    case (ArrayTypeInfo c n)
    then show ?thesis using "1.prems" "1.IH"(3) [OF ArrayTypeInfo] t by (cases b) auto
  qed (use "1.prems" t in \<open>cases b; auto\<close>)+
qed

theorem type_eq_ignores_string_length_witness:
  "type_eq (mk_List (mk_Varchar 10)) (mk_List (mk_Varchar 20)) \<and>
   \<not> type_eq (mk_Varchar 10) (DataType kInt64 NoTypeInfo)"
  using type_eq_ignores_string_length [of "mk_List (mk_Varchar 10)" "mk_List (mk_Varchar 20)"]
    type_eq_ignores_string_length [of "mk_Varchar 10" "DataType kInt64 NoTypeInfo"]
  by (simp add: mk_List_def mk_Varchar_def)

end
