(* ===== verification/Values.thy ===== *)
theory Values
  imports Data_Types
begin

text \<open>
  Property values (\<open>src/common/types/value.cc\<close>) and their byte encoding, which the log writes for
  vertex ids, properties and default values. Numbers are their bit patterns; a date and a
  timestamp are the integers inside them.
\<close>

section \<open>Values\<close>

text \<open>\<open>VOther\<close> stands for the kinds without an encoding (vertices, edges, paths and the like).\<close>

datatype Value =
    VNull DataType
  | VBool bool
  | VInt32 u32 | VUInt32 u32 | VInt64 u64 | VUInt64 u64
  | VFloat u32 | VDouble u64
  | VString DataType bytes
  | VDate u32 | VTimestampMs u64 | VInterval u32 u32 u64
  | VNested DataType "Value list"
  | VOther DataType

abbreviation plain :: "DataTypeId \<Rightarrow> DataType" where "plain i \<equiv> DataType i NoTypeInfo"

text \<open>The default constructor, \<open>STRING\<close> and \<open>VARCHAR\<close>, \<open>LIST\<close>, \<open>ARRAY\<close> and \<open>STRUCT\<close>.\<close>

definition Value_default :: Value where "Value_default = VNull (plain kInvalid)"
definition Value_STRING :: "bytes \<Rightarrow> Value" where "Value_STRING str = VString (plain kVarchar) str"
definition Value_VARCHAR :: "bytes \<Rightarrow> u16 \<Rightarrow> Value" where
  "Value_VARCHAR str max_length = VString (mk_Varchar (ucast max_length)) str"
definition Value_LIST :: "DataType \<Rightarrow> Value list \<Rightarrow> Value" where
  "Value_LIST child_type values = VNested (mk_List child_type) values"
definition Value_ARRAY :: "DataType \<Rightarrow> Value list \<Rightarrow> Value" where
  "Value_ARRAY array_type values = VNested array_type values"
definition Value_STRUCT :: "DataType \<Rightarrow> Value list \<Rightarrow> Value" where
  "Value_STRUCT struct_type values = VNested struct_type values"

fun Value_type :: "Value \<Rightarrow> DataType" where
  "Value_type (VNull t) = t"
| "Value_type (VBool _) = plain kBoolean"
| "Value_type (VInt32 _) = plain kInt32"
| "Value_type (VUInt32 _) = plain kUInt32"
| "Value_type (VInt64 _) = plain kInt64"
| "Value_type (VUInt64 _) = plain kUInt64"
| "Value_type (VFloat _) = plain kFloat"
| "Value_type (VDouble _) = plain kDouble"
| "Value_type (VString t _) = t"
| "Value_type (VDate _) = plain kDate"
| "Value_type (VTimestampMs _) = plain kTimestampMs"
| "Value_type (VInterval _ _ _) = plain kInterval"
| "Value_type (VNested t _) = t"
| "Value_type (VOther t) = t"

section \<open>Encoding\<close>

fun put_Value :: "Value \<Rightarrow> written" where
  "put_Value (VNull t) = put_DataTypeId kEmpty"
| "put_Value (VBool b) = wcat [put_DataTypeId kBoolean, put_bool b]"
| "put_Value (VInt32 w) = wcat [put_DataTypeId kInt32, put_u32 w]"
| "put_Value (VUInt32 w) = wcat [put_DataTypeId kUInt32, put_u32 w]"
| "put_Value (VInt64 w) = wcat [put_DataTypeId kInt64, put_u64 w]"
| "put_Value (VUInt64 w) = wcat [put_DataTypeId kUInt64, put_u64 w]"
| "put_Value (VFloat w) = wcat [put_DataTypeId kFloat, put_u32 w]"
| "put_Value (VDouble w) = wcat [put_DataTypeId kDouble, put_u64 w]"
| "put_Value (VString t s) = wcat [put_DataTypeId kVarchar, put_string s]"
| "put_Value (VDate w) = wcat [put_DataTypeId kDate, put_u32 w]"
| "put_Value (VTimestampMs w) = wcat [put_DataTypeId kTimestampMs, put_u64 w]"
| "put_Value (VInterval months days micros) =
     wcat [put_DataTypeId kInterval, put_u32 months, put_u32 days, put_u64 micros]"
| "put_Value (VNested t children) = wcat [put_DataTypeId (dt_id t), put_DataType t,
     wcat (put_u32 (of_nat (length children)) # map put_Value children)]"
| "put_Value (VOther t) = ([], Some NotSupported)"

text \<open>\<open>ListType::GetChildType\<close>, with the debug assertion as undefined behaviour.\<close>

definition list_child :: "DataType \<Rightarrow> DataType res" where
  "list_child t = (case dt_info t of
     ListTypeInfo c \<Rightarrow> Inr c | ArrayTypeInfo c _ \<Rightarrow> Inr c | _ \<Rightarrow> Inl UndefinedBehaviour)"

definition get_Value_body :: "Value reader \<Rightarrow> Value reader" where
  "get_Value_body rec = rbind get_DataTypeId (\<lambda>i.
     if i = kEmpty then rret Value_default
     else if i = kBoolean then rbind get_bool (\<lambda>b. rret (VBool b))
     else if i = kInt32 then rbind get_u32 (\<lambda>w. rret (VInt32 w))
     else if i = kUInt32 then rbind get_u32 (\<lambda>w. rret (VUInt32 w))
     else if i = kInt64 then rbind get_u64 (\<lambda>w. rret (VInt64 w))
     else if i = kUInt64 then rbind get_u64 (\<lambda>w. rret (VUInt64 w))
     else if i = kFloat then rbind get_u32 (\<lambda>w. rret (VFloat w))
     else if i = kDouble then rbind get_u64 (\<lambda>w. rret (VDouble w))
     else if i = kVarchar then rbind get_string (\<lambda>s. rret (Value_STRING s))
     else if i = kDate then rbind get_u32 (\<lambda>w. rret (VDate w))
     else if i = kTimestampMs then rbind get_u64 (\<lambda>w. rret (VTimestampMs w))
     else if i = kInterval then rbind get_u32 (\<lambda>months. rbind get_u32 (\<lambda>days. rbind get_u64 (\<lambda>micros.
       rret (VInterval months days micros))))
     else if i = kList \<or> i = kArray \<or> i = kStruct then
       rbind get_DataType (\<lambda>dt. rbind (get_vector32 rec) (\<lambda>children.
         if i = kList then lift (res_bind (list_child dt) (\<lambda>c. Inr (Value_LIST c children)))
         else if i = kArray then rret (Value_ARRAY dt children)
         else rret (Value_STRUCT dt children)))
     else rfail NotSupported)"

text \<open>The fuel bounds the nesting; every level reads at least four bytes.\<close>

fun get_Value_fuel :: "nat \<Rightarrow> Value reader" where
  "get_Value_fuel 0 = rfail UndefinedBehaviour"
| "get_Value_fuel (Suc k) = get_Value_body (get_Value_fuel k)"

definition get_Value :: "Value reader" where
  "get_Value bs = get_Value_fuel (Suc (length bs)) bs"

section \<open>Reading back\<close>

text \<open>What survives: a null value and a string lose their declared type.\<close>

fun norm_Value :: "Value \<Rightarrow> Value" where
  "norm_Value (VNull t) = Value_default"
| "norm_Value (VString t s) = Value_STRING s"
| "norm_Value (VNested t children) = VNested t (map norm_Value children)"
| "norm_Value v = v"

fun wf_Value :: "Value \<Rightarrow> bool" where
  "wf_Value (VString t s) = (dt_id t = kVarchar \<and> wf_string s)"
| "wf_Value (VNested t children) = (wf_type t \<and> dt_info t \<noteq> NoTypeInfo \<and> dt_id t \<noteq> kVarchar \<and>
     list_all wf_Value children \<and> length children < 2 ^ 32)"
| "wf_Value (VOther t) = False"
| "wf_Value v = True"

fun vdepth :: "Value \<Rightarrow> nat" where
  "vdepth (VNested t children) = Suc (Max (insert 0 (set (map vdepth children))))"
| "vdepth v = 1"

lemma shrinks_DataType [reader_intros]: "shrinks get_DataType"
  using shrinks_DataType_fuel unfolding shrinks_def get_DataType_def by blast

lemma shrinks_Value_fuel [reader_intros]: "shrinks (get_Value_fuel k)"
proof (induction k)
  case 0 then show ?case by (simp add: reader_intros)
next
  case (Suc k)
  then show ?case unfolding get_Value_fuel.simps get_Value_body_def
    by (auto intro!: shrinks_rbind shrinks_DataTypeId shrinks_DataType shrinks_pods shrinks_lift
        shrinks_rret shrinks_rfail shrinks_vectors)
qed

lemma agree_vector32 [reader_intros]: "agree k r s \<Longrightarrow> shrinks r \<Longrightarrow> agree k (get_vector32 r) (get_vector32 s)"
  unfolding get_vector32_def by (intro reader_intros) auto

lemma Value_fuel_step: "agree k (get_Value_fuel k) (get_Value_fuel (Suc k))"
proof (induction k)
  case 0 then show ?case by (simp add: agree_def)
next
  case (Suc k)
  have "agree (Suc k) (get_Value_body r) (get_Value_body s)" if "agree k r s" "shrinks r" for r s
    unfolding get_Value_body_def
    by (rule agree_strict [OF get_DataTypeId_strict])
      (auto intro!: agree_rbind agree_refl agree_vector32 that shrinks_pods shrinks_vectors shrinks_DataType)
  then show ?case using Suc shrinks_Value_fuel by (metis get_Value_fuel.simps(2))
qed

lemma Value_fuel_enough: "length bs < k \<Longrightarrow> get_Value_fuel k bs = get_Value bs"
proof (induction k)
  case (Suc k)
  show ?case
  proof (cases "length bs = k")
    case True then show ?thesis by (simp add: get_Value_def)
  next
    case False
    then show ?thesis using Suc Value_fuel_step [of k] by (simp add: agree_def del: get_Value_fuel.simps)
  qed
qed simp

lemma wf_nested_id:
  assumes "wf_type t" "dt_info t \<noteq> NoTypeInfo" "dt_id t \<noteq> kVarchar"
  shows "dt_id t = kList \<and> (\<exists>c. t = mk_List c) \<or> dt_id t = kArray \<or> dt_id t = kStruct"
  using assms by (cases t; cases "dt_info t") (auto simp: mk_List_def)

lemma get_Value_fuel_put:
  "wf_Value v \<Longrightarrow> put_Value v = (b, None) \<Longrightarrow> vdepth v \<le> k \<Longrightarrow>
     get_Value_fuel k (b @ rest) = Inr (norm_Value v, rest)"
proof (induction v arbitrary: b k rest rule: put_Value.induct)
  case (13 t children)
  then obtain j where k: "k = Suc j" by (cases k) auto
  have c: "get_Value_fuel j (b' @ r') = Inr (norm_Value c, r')"
    if "c \<in> set children" "put_Value c = (b', None)" for c b' r'
  proof -
    have "vdepth c \<le> j" using 13(4) k that(1) by simp
    moreover have "wf_Value c" using 13(2) that(1) by (auto simp: list_all_iff)
    ultimately show ?thesis using 13(1) [OF that(1)] that(2) by blast
  qed
  have "codec put_Value (get_Value_fuel j) (\<lambda>c. c \<in> set children) norm_Value"
    by unfold_locales (rule c)
  from codec.get_vector32_put [OF this, of children]
  have v: "put_vector32 put_Value children = (b', None) \<Longrightarrow>
      get_vector32 (get_Value_fuel j) (b' @ r') = Inr (map norm_Value children, r')" for b' r'
    using 13(2) by simp
  have t: "put_DataType t = (b', None) \<Longrightarrow> get_DataType (b' @ r') = Inr (t, r')" for b' r'
    using type_codec.dec_enc 13(2) by auto
  have i: "dt_id t = kList \<and> (\<exists>c. t = mk_List c) \<or> dt_id t = kArray \<or> dt_id t = kStruct"
    using wf_nested_id 13(2) by auto
  have l: "list_child (mk_List c) = Inr c" "Value_LIST c vs = VNested (mk_List c) vs" for c vs
    by (simp_all add: list_child_def mk_List_def Value_LIST_def)
  obtain b1 b2 b3 where b: "put_DataTypeId (dt_id t) = (b1, None)" "put_DataType t = (b2, None)"
      "put_vector32 put_Value children = (b3, None)" "b = b1 @ b2 @ b3"
    using 13(3) by (auto simp: put_vector32_def simp del: put_DataType.simps)
  show ?case using i b(1) v [OF b(3)] t [OF b(2)] k
    by (auto simp: b(4) get_Value_body_def l Value_ARRAY_def Value_STRUCT_def)
qed (simp_all, (case_tac k; auto simp: get_Value_body_def)+)

interpretation value_codec: codec put_Value get_Value wf_Value norm_Value
proof
  fix v b rest assume "wf_Value v" "put_Value v = (b, None)"
  then show "get_Value (b @ rest) = Inr (norm_Value v, rest)"
    using get_Value_fuel_put [of v b "max (vdepth v) (Suc (length (b @ rest)))" rest]
      Value_fuel_enough [of "b @ rest" "max (vdepth v) (Suc (length (b @ rest)))"]
    by (simp add: less_max_iff_disj del: length_append)
qed


section \<open>Properties\<close>

text \<open>A value keeps its declared type through the log when no null and no string in it has one.\<close>

fun undeclared :: "Value \<Rightarrow> bool" where
  "undeclared (VNull t) = (t = plain kInvalid)"
| "undeclared (VString t s) = (t = plain kVarchar)"
| "undeclared (VNested t children) = list_all undeclared children"
| "undeclared v = True"

lemma norm_Value_fixed: "norm_Value v = v \<longleftrightarrow> undeclared v"
proof (induction v rule: norm_Value.induct)
  case (3 t children)
  have "map norm_Value children = children \<longleftrightarrow> (\<forall>c\<in>set children. norm_Value c = c)"
    using map_eq_conv [of norm_Value children "\<lambda>c. c"] by simp
  then show ?case using 3 by (simp add: list_all_iff)
qed (auto simp: Value_default_def Value_STRING_def)

text \<open>
  C23. Every value with an encoding is read back, whatever follows it, up to the declared types
  of nulls and strings, which the encoding does not carry: the value itself comes back exactly
  when no null and no string in it has a declared type.
\<close>
theorem value_round_trip:
  assumes "wf_Value v" "put_Value v = (b, None)"
  shows "get_Value (b @ rest) = Inr (norm_Value v, rest) \<and>
         (get_Value (b @ rest) = Inr (v, rest) \<longleftrightarrow> undeclared v)"
  using value_codec.dec_enc [OF assms] norm_Value_fixed [of v] by auto

theorem value_round_trip_witness:
  "let v = Value_LIST (plain kInt64) [VInt64 5, VNull (plain kInvalid)] in
     get_Value (fst (put_Value v) @ [1, 2]) = Inr (v, [1, 2])"
proof -
  let ?v = "Value_LIST (plain kInt64) [VInt64 5, VNull (plain kInvalid)]"
  have "snd (put_Value ?v) = None"
    by (simp add: Value_LIST_def mk_List_def put_DataTypeId_def put_u32_def put_u64_def put_u8_def)
  then show ?thesis using value_round_trip [of ?v "fst (put_Value ?v)" "[1, 2]"]
    by (simp add: Value_LIST_def mk_List_def prod_eq_iff Value_default_def del: put_Value.simps)
qed

end
