(* ===== verification/Op_Params.thy ===== *)
theory Op_Params
  imports Values
begin

text \<open>
  The parameters of schema operations (\<open>src/storages/graph/operation_params.cc\<close>) and projected
  graphs (\<open>src/storages/graph/graph_entry.cc\<close>), as the log writes and reads them. A property
  is a name with its default value, and the type of the default value is the type of the
  property.
\<close>

section \<open>Parameters\<close>

type_synonym property = "bytes \<times> Value"
type_synonym EdgeStrategy = u32

record CreateVertexTypeParam =
  vertex_label_name :: bytes
  v_properties :: "property list"
  primary_key_names :: "bytes list"
  v_temporary :: bool

record CreateEdgeTypeParam =
  src_label_name :: bytes
  dst_label_name :: bytes
  edge_label_name :: bytes
  e_properties :: "property list"
  oe_edge_strategy :: EdgeStrategy
  ie_edge_strategy :: EdgeStrategy
  sort_key_for_nbr :: "bytes option"
  e_temporary :: bool

record VertexEntryInfo =
  labelName :: bytes
  v_predicate :: bytes

record EdgeEntryInfo =
  srcLabelName :: bytes
  edgeLabelName :: bytes
  dstLabelName :: bytes
  e_predicate :: bytes

record ProjectedGraphEntry =
  vertexInfos :: "VertexEntryInfo list"
  edgeInfos :: "EdgeEntryInfo list"

text \<open>\<open>Build\<close> of the two builders that validate.\<close>

definition Build_vertex :: "CreateVertexTypeParam \<Rightarrow> CreateVertexTypeParam res" where
  "Build_vertex config =
     (if vertex_label_name config = [] then Inl InvalidArgument
      else if primary_key_names config = [] then Inl InvalidArgument
      else Inr config)"

definition Build_edge :: "CreateEdgeTypeParam \<Rightarrow> CreateEdgeTypeParam res" where
  "Build_edge config =
     (if src_label_name config = [] then Inl InvalidArgument
      else if dst_label_name config = [] then Inl InvalidArgument
      else if edge_label_name config = [] then Inl InvalidArgument
      else Inr config)"

section \<open>Serialize\<close>

definition put_property :: "property \<Rightarrow> written" where
  "put_property p = wcat [put_DataType (Value_type (snd p)), put_string (fst p), put_Value (snd p)]"

definition put_names :: "bytes \<times> bytes \<Rightarrow> written" where
  "put_names p = wcat [put_string (fst p), put_string (snd p)]"

definition CreateVertexTypeParam_Serialize :: "CreateVertexTypeParam \<Rightarrow> written" where
  "CreateVertexTypeParam_Serialize c = wcat [put_string (vertex_label_name c),
     put_vector32 put_property (v_properties c), put_vector32 put_string (primary_key_names c)]"

definition put_optional :: "bytes option \<Rightarrow> written" where
  "put_optional k = (case k of Some s \<Rightarrow> wcat [put_u8 1, put_string s] | None \<Rightarrow> put_u8 0)"

definition CreateEdgeTypeParam_Serialize :: "CreateEdgeTypeParam \<Rightarrow> written" where
  "CreateEdgeTypeParam_Serialize c = wcat [put_string (src_label_name c), put_string (dst_label_name c),
     put_string (edge_label_name c), put_vector32 put_property (e_properties c),
     put_u32 (oe_edge_strategy c), put_u32 (ie_edge_strategy c), put_optional (sort_key_for_nbr c)]"

definition AddVertexPropertiesParam_Serialize :: "property list \<Rightarrow> written" where
  "AddVertexPropertiesParam_Serialize ps = put_vector32 put_property ps"
definition AddEdgePropertiesParam_Serialize :: "property list \<Rightarrow> written" where
  "AddEdgePropertiesParam_Serialize ps = put_vector32 put_property ps"
definition RenameVertexPropertiesParam_Serialize :: "(bytes \<times> bytes) list \<Rightarrow> written" where
  "RenameVertexPropertiesParam_Serialize ps = put_vector32 put_names ps"
definition RenameEdgePropertiesParam_Serialize :: "(bytes \<times> bytes) list \<Rightarrow> written" where
  "RenameEdgePropertiesParam_Serialize ps = put_vector32 put_names ps"
definition DeleteVertexPropertiesParam_Serialize :: "bytes list \<Rightarrow> written" where
  "DeleteVertexPropertiesParam_Serialize ps = put_vector32 put_string ps"
definition DeleteEdgePropertiesParam_Serialize :: "bytes list \<Rightarrow> written" where
  "DeleteEdgePropertiesParam_Serialize ps = put_vector32 put_string ps"

definition put_VertexEntryInfo :: "VertexEntryInfo \<Rightarrow> written" where
  "put_VertexEntryInfo i = wcat [put_string (labelName i), put_string (v_predicate i)]"
definition put_EdgeEntryInfo :: "EdgeEntryInfo \<Rightarrow> written" where
  "put_EdgeEntryInfo i = wcat [put_string (srcLabelName i), put_string (edgeLabelName i),
     put_string (dstLabelName i), put_string (e_predicate i)]"
definition put_ProjectedGraphEntry :: "ProjectedGraphEntry \<Rightarrow> written" where
  "put_ProjectedGraphEntry e = wcat [put_vector put_VertexEntryInfo (vertexInfos e),
     put_vector put_EdgeEntryInfo (edgeInfos e)]"

section \<open>Deserialize\<close>

text \<open>The type written before a property is read and dropped.\<close>

definition get_property :: "property reader" where
  "get_property = rbind get_DataType (\<lambda>type. rbind get_string (\<lambda>name. rbind get_Value (\<lambda>default_value.
     rret (name, default_value))))"

definition get_names :: "(bytes \<times> bytes) reader" where
  "get_names = rbind get_string (\<lambda>old_name. rbind get_string (\<lambda>new_name. rret (old_name, new_name)))"

definition CreateVertexTypeParam_Deserialize :: "CreateVertexTypeParam reader" where
  "CreateVertexTypeParam_Deserialize = rbind get_string (\<lambda>vertex_type.
     rbind (get_vector32 get_property) (\<lambda>ps. rbind (get_vector32 get_string) (\<lambda>keys.
       lift (Build_vertex \<lparr> vertex_label_name = vertex_type, v_properties = ps,
                            primary_key_names = keys, v_temporary = False \<rparr>))))"

definition get_optional :: "bytes option reader" where
  "get_optional = rbind get_u8 (\<lambda>has. if has \<noteq> 0 then rbind get_string (\<lambda>s. rret (Some s)) else rret None)"

definition CreateEdgeTypeParam_Deserialize :: "CreateEdgeTypeParam reader" where
  "CreateEdgeTypeParam_Deserialize = rbind get_string (\<lambda>src_label. rbind get_string (\<lambda>dst_label.
     rbind get_string (\<lambda>edge_label. rbind (get_vector32 get_property) (\<lambda>ps.
       rbind get_u32 (\<lambda>oe. rbind get_u32 (\<lambda>ie. rbind get_optional (\<lambda>key.
         lift (Build_edge \<lparr> src_label_name = src_label, dst_label_name = dst_label,
                 edge_label_name = edge_label, e_properties = ps, oe_edge_strategy = oe,
                 ie_edge_strategy = ie, sort_key_for_nbr = key, e_temporary = False \<rparr>))))))))"

definition AddVertexPropertiesParam_Deserialize :: "property list reader" where
  "AddVertexPropertiesParam_Deserialize = get_vector32 get_property"
definition AddEdgePropertiesParam_Deserialize :: "property list reader" where
  "AddEdgePropertiesParam_Deserialize = get_vector32 get_property"
definition RenameVertexPropertiesParam_Deserialize :: "(bytes \<times> bytes) list reader" where
  "RenameVertexPropertiesParam_Deserialize = get_vector32 get_names"
definition RenameEdgePropertiesParam_Deserialize :: "(bytes \<times> bytes) list reader" where
  "RenameEdgePropertiesParam_Deserialize = get_vector32 get_names"
definition DeleteVertexPropertiesParam_Deserialize :: "bytes list reader" where
  "DeleteVertexPropertiesParam_Deserialize = get_vector32 get_string"
definition DeleteEdgePropertiesParam_Deserialize :: "bytes list reader" where
  "DeleteEdgePropertiesParam_Deserialize = get_vector32 get_string"

definition get_VertexEntryInfo :: "VertexEntryInfo reader" where
  "get_VertexEntryInfo = rbind get_string (\<lambda>l. rbind get_string (\<lambda>p.
     rret \<lparr> labelName = l, v_predicate = p \<rparr>))"
definition get_EdgeEntryInfo :: "EdgeEntryInfo reader" where
  "get_EdgeEntryInfo = rbind get_string (\<lambda>s. rbind get_string (\<lambda>e. rbind get_string (\<lambda>d.
     rbind get_string (\<lambda>p. rret \<lparr> srcLabelName = s, edgeLabelName = e, dstLabelName = d, e_predicate = p \<rparr>))))"
definition get_ProjectedGraphEntry :: "ProjectedGraphEntry reader" where
  "get_ProjectedGraphEntry = rbind (get_vector get_VertexEntryInfo) (\<lambda>vs.
     rbind (get_vector get_EdgeEntryInfo) (\<lambda>es. rret \<lparr> vertexInfos = vs, edgeInfos = es \<rparr>))"

section \<open>Reading back\<close>

definition wf_property :: "property \<Rightarrow> bool" where
  "wf_property p \<longleftrightarrow> wf_string (fst p) \<and> wf_Value (snd p) \<and> wf_type (Value_type (snd p))"

definition norm_property :: "property \<Rightarrow> property" where
  "norm_property p = (fst p, norm_Value (snd p))"

definition wf_names :: "bytes \<times> bytes \<Rightarrow> bool" where
  "wf_names p \<longleftrightarrow> wf_string (fst p) \<and> wf_string (snd p)"

definition small :: "('a \<Rightarrow> bool) \<Rightarrow> 'a list \<Rightarrow> bool" where
  "small P xs \<longleftrightarrow> list_all P xs \<and> length xs < 2 ^ 32"

interpretation property_codec: codec put_property get_property wf_property norm_property
  by unfold_locales
    (auto simp: put_property_def get_property_def wf_property_def norm_property_def
      type_codec.dec_enc value_codec.dec_enc)

interpretation names_codec: codec put_names get_names wf_names "\<lambda>p. p"
  by unfold_locales (auto simp: put_names_def get_names_def wf_names_def)

definition wf_VertexEntryInfo :: "VertexEntryInfo \<Rightarrow> bool" where
  "wf_VertexEntryInfo i \<longleftrightarrow> wf_string (labelName i) \<and> wf_string (v_predicate i)"
definition wf_EdgeEntryInfo :: "EdgeEntryInfo \<Rightarrow> bool" where
  "wf_EdgeEntryInfo i \<longleftrightarrow> wf_string (srcLabelName i) \<and> wf_string (edgeLabelName i) \<and>
     wf_string (dstLabelName i) \<and> wf_string (e_predicate i)"
definition wf_ProjectedGraphEntry :: "ProjectedGraphEntry \<Rightarrow> bool" where
  "wf_ProjectedGraphEntry e \<longleftrightarrow> list_all wf_VertexEntryInfo (vertexInfos e) \<and> length (vertexInfos e) < 2 ^ 64 \<and>
     list_all wf_EdgeEntryInfo (edgeInfos e) \<and> length (edgeInfos e) < 2 ^ 64"

interpretation vinfo_codec: codec put_VertexEntryInfo get_VertexEntryInfo wf_VertexEntryInfo "\<lambda>i. i"
  by unfold_locales (auto simp: put_VertexEntryInfo_def get_VertexEntryInfo_def wf_VertexEntryInfo_def)

interpretation einfo_codec: codec put_EdgeEntryInfo get_EdgeEntryInfo wf_EdgeEntryInfo "\<lambda>i. i"
  by unfold_locales (auto simp: put_EdgeEntryInfo_def get_EdgeEntryInfo_def wf_EdgeEntryInfo_def)

interpretation entry_codec: codec put_ProjectedGraphEntry get_ProjectedGraphEntry wf_ProjectedGraphEntry "\<lambda>e. e"
  by unfold_locales
    (auto simp: put_ProjectedGraphEntry_def get_ProjectedGraphEntry_def wf_ProjectedGraphEntry_def
      vinfo_codec.get_vector_put einfo_codec.get_vector_put list_all_iff)

lemma vectors_put [simp]:
  "small wf_property ps \<Longrightarrow> put_vector32 put_property ps = (b, None) \<Longrightarrow>
     get_vector32 get_property (b @ rest) = Inr (map norm_property ps, rest)"
  "small wf_names ns \<Longrightarrow> put_vector32 put_names ns = (b, None) \<Longrightarrow>
     get_vector32 get_names (b @ rest) = Inr (ns, rest)"
  "small wf_string ss \<Longrightarrow> put_vector32 put_string ss = (b, None) \<Longrightarrow>
     get_vector32 get_string (b @ rest) = Inr (ss, rest)"
  "small wf_Value vs \<Longrightarrow> put_vector32 put_Value vs = (b, None) \<Longrightarrow>
     get_vector32 get_Value (b @ rest) = Inr (map norm_Value vs, rest)"
  using property_codec.get_vector32_put names_codec.get_vector32_put
    string_codec.get_vector32_put value_codec.get_vector32_put
  by (simp_all add: small_def list_all_iff)

lemma get_optional_put [simp]:
  "put_optional k = (b, None) \<Longrightarrow> pred_option wf_string k \<Longrightarrow> get_optional (b @ rest) = Inr (k, rest)"
  by (cases k) (auto simp: put_optional_def get_optional_def)

text \<open>What survives of the parameters: defaults lose declared types, and a type read back is
  never temporary.\<close>

definition wf_vertex_param :: "CreateVertexTypeParam \<Rightarrow> bool" where
  "wf_vertex_param c \<longleftrightarrow> wf_string (vertex_label_name c) \<and> small wf_property (v_properties c) \<and>
     small wf_string (primary_key_names c) \<and> Build_vertex c = Inr c"

definition norm_vertex_param :: "CreateVertexTypeParam \<Rightarrow> CreateVertexTypeParam" where
  "norm_vertex_param c = c \<lparr> v_properties := map norm_property (v_properties c), v_temporary := False \<rparr>"

definition wf_edge_param :: "CreateEdgeTypeParam \<Rightarrow> bool" where
  "wf_edge_param c \<longleftrightarrow> wf_string (src_label_name c) \<and> wf_string (dst_label_name c) \<and>
     wf_string (edge_label_name c) \<and> small wf_property (e_properties c) \<and>
     pred_option wf_string (sort_key_for_nbr c) \<and> Build_edge c = Inr c"

definition norm_edge_param :: "CreateEdgeTypeParam \<Rightarrow> CreateEdgeTypeParam" where
  "norm_edge_param c = c \<lparr> e_properties := map norm_property (e_properties c), e_temporary := False \<rparr>"

interpretation vertex_param_codec: codec CreateVertexTypeParam_Serialize CreateVertexTypeParam_Deserialize
    wf_vertex_param norm_vertex_param
  by unfold_locales
    (auto simp: CreateVertexTypeParam_Serialize_def CreateVertexTypeParam_Deserialize_def
      wf_vertex_param_def norm_vertex_param_def Build_vertex_def split: if_splits)

interpretation edge_param_codec: codec CreateEdgeTypeParam_Serialize CreateEdgeTypeParam_Deserialize
    wf_edge_param norm_edge_param
  by unfold_locales
    (auto simp: CreateEdgeTypeParam_Serialize_def CreateEdgeTypeParam_Deserialize_def
      wf_edge_param_def norm_edge_param_def Build_edge_def split: if_splits)


section \<open>Properties\<close>

fun keeps_type :: "Value \<Rightarrow> bool" where
  "keeps_type (VNull t) = (t = plain kInvalid)"
| "keeps_type (VString t s) = (t = plain kVarchar)"
| "keeps_type v = True"

lemma norm_Value_type: "Value_type (norm_Value v) = Value_type v \<longleftrightarrow> keeps_type v"
  by (cases v) (auto simp: Value_default_def Value_STRING_def)

text \<open>
  C24. A property definition is read back from the log with its name and its default value, but its
  type is the type of the value that was read: the declared type survives exactly when the
  default is neither a null of a declared type nor a string of declared length.
\<close>
theorem property_type_recovered:
  assumes "wf_property p" "put_property p = (b, None)"
  shows "\<exists>q. get_property (b @ rest) = Inr (q, rest) \<and> fst q = fst p \<and> snd q = norm_Value (snd p) \<and>
           (Value_type (snd q) = Value_type (snd p) \<longleftrightarrow> keeps_type (snd p))"
  using property_codec.dec_enc [OF assms, of rest] norm_Value_type [of "snd p"] by (simp add: norm_property_def)

theorem property_type_recovered_witness:
  "\<exists>q. get_property (fst (put_property ([110], VNull (plain kInt64)))) = Inr (q, []) \<and>
     Value_type (snd q) \<noteq> plain kInt64"
proof -
  let ?p = "([110], VNull (plain kInt64)) :: property"
  have "put_property ?p = (fst (put_property ?p), None)"
    by (simp add: put_property_def put_DataTypeId_def put_u32_def put_u8_def put_u64_def put_string_def AddBytes_def)
  moreover have "wf_property ?p" by (simp add: wf_property_def wf_string_def)
  ultimately show ?thesis using property_type_recovered [of ?p "fst (put_property ?p)" "[]"] by auto
qed

text \<open>A string property of declared length comes back without its length.\<close>

theorem varchar_length_not_recovered:
  assumes "wf_property (name, VString (mk_Varchar n) s)" "put_property (name, VString (mk_Varchar n) s) = (b, None)"
  shows "get_property b = Inr ((name, VString (plain kVarchar) s), [])"
  using property_codec.dec_enc [OF assms, of "[]"] by (simp add: norm_property_def Value_STRING_def)

end
