(* ===== verification/Wal_Redo.thy ===== *)
theory Wal_Redo
  imports Op_Params
begin

text \<open>
  The redo records of the write-ahead log (\<open>src/transaction/wal/wal.cc\<close>): one tagged encoding per
  logged operation, and the decoder that dispatches on the tag as the replay loop does. The
  metadata of an index travels as the JSON text that \<open>IndexMeta\<close> prints and parses.
\<close>

section \<open>Records\<close>

datatype Redo =
    CreateVertexType CreateVertexTypeParam
  | CreateEdgeType CreateEdgeTypeParam
  | InsertVertex bytes Value "Value list"
  | InsertEdge bytes Value bytes Value bytes "Value list"
  | UpdateVertexProp bytes Value u32 Value
  | UpdateEdgeProp bytes Value bytes Value bytes u32 u32 u32 Value
  | RemoveVertex bytes Value
  | RemoveEdge bytes Value bytes Value bytes u32 u32
  | AddVertexProp bytes "property list"
  | AddEdgeProp bytes bytes bytes "property list"
  | RenameVertexProp bytes "(bytes \<times> bytes) list"
  | RenameEdgeProp bytes bytes bytes "(bytes \<times> bytes) list"
  | DeleteVertexProp bytes "bytes list"
  | DeleteEdgeProp bytes bytes bytes "bytes list"
  | DeleteVertexType bytes
  | DeleteEdgeType bytes bytes bytes
  | AddGraphEntry bytes ProjectedGraphEntry
  | DropGraphEntry bytes
  | CreateIndex bytes
  | DropIndex bytes
  | ActivateIndexes
  | OptimizeIndexes "bytes list"

section \<open>Serialize\<close>

definition CreateVertexTypeRedo_Serialize :: "CreateVertexTypeParam \<Rightarrow> written" where
  "CreateVertexTypeRedo_Serialize config = wcat [put_u8 0,
      CreateVertexTypeParam_Serialize config]"
definition CreateEdgeTypeRedo_Serialize :: "CreateEdgeTypeParam \<Rightarrow> written" where
  "CreateEdgeTypeRedo_Serialize config = wcat [put_u8 1, CreateEdgeTypeParam_Serialize config]"
definition InsertVertexRedo_Serialize :: "bytes \<Rightarrow> Value \<Rightarrow>
    Value list \<Rightarrow> written" where
  "InsertVertexRedo_Serialize vertex_type oid props = wcat [put_u8 2, put_string vertex_type,
      put_Value oid, put_vector32 put_Value props]"
definition InsertEdgeRedo_Serialize :: "bytes \<Rightarrow> Value \<Rightarrow>
    bytes \<Rightarrow> Value \<Rightarrow> bytes \<Rightarrow> Value list \<Rightarrow>
    written" where
  "InsertEdgeRedo_Serialize src_type src dst_type dst edge_type props = wcat [put_u8 3,
      put_string src_type, put_Value src, put_string dst_type, put_Value dst,
      put_string edge_type, put_vector32 put_Value props]"
definition UpdateVertexPropRedo_Serialize :: "bytes \<Rightarrow> Value \<Rightarrow>
    u32 \<Rightarrow> Value \<Rightarrow> written" where
  "UpdateVertexPropRedo_Serialize vertex_type oid prop_id val = wcat [put_u8 4,
      put_string vertex_type, put_Value oid, put_u32 prop_id, put_Value val]"
definition UpdateEdgePropRedo_Serialize :: "bytes \<Rightarrow> Value \<Rightarrow>
    bytes \<Rightarrow> Value \<Rightarrow> bytes \<Rightarrow> u32 \<Rightarrow>
    u32 \<Rightarrow> u32 \<Rightarrow> Value \<Rightarrow> written" where
  "UpdateEdgePropRedo_Serialize src_type src dst_type dst edge_type oe_offset ie_offset prop_id val = wcat [put_u8 5, put_string src_type, put_Value src, put_string dst_type, put_Value dst, put_string edge_type, put_u32 oe_offset, put_u32 ie_offset, put_u32 prop_id, put_Value val]"
definition RemoveVertexRedo_Serialize :: "bytes \<Rightarrow> Value \<Rightarrow> written" where
  "RemoveVertexRedo_Serialize vertex_type oid = wcat [put_u8 6, put_string vertex_type,
      put_Value oid]"
definition RemoveEdgeRedo_Serialize :: "bytes \<Rightarrow> Value \<Rightarrow>
    bytes \<Rightarrow> Value \<Rightarrow> bytes \<Rightarrow> u32 \<Rightarrow>
    u32 \<Rightarrow> written" where
  "RemoveEdgeRedo_Serialize src_type src dst_type dst edge_type oe_offset ie_offset = wcat [put_u8 7, put_string src_type, put_Value src, put_string dst_type, put_Value dst, put_string edge_type, put_u32 oe_offset, put_u32 ie_offset]"
definition AddVertexPropertiesRedo_Serialize :: "bytes \<Rightarrow> property list \<Rightarrow>
    written" where
  "AddVertexPropertiesRedo_Serialize vertex_type config = wcat [put_u8 8, put_string vertex_type,
      AddVertexPropertiesParam_Serialize config]"
definition AddEdgePropertiesRedo_Serialize :: "bytes \<Rightarrow> bytes \<Rightarrow>
    bytes \<Rightarrow> property list \<Rightarrow> written" where
  "AddEdgePropertiesRedo_Serialize src_type dst_type edge_type config = wcat [put_u8 9,
      put_string src_type, put_string dst_type, put_string edge_type,
      AddEdgePropertiesParam_Serialize config]"
definition RenameVertexPropertiesRedo_Serialize :: "bytes \<Rightarrow>
    (bytes \<times> bytes) list \<Rightarrow> written" where
  "RenameVertexPropertiesRedo_Serialize vertex_type config = wcat [put_u8 10,
      put_string vertex_type, RenameVertexPropertiesParam_Serialize config]"
definition RenameEdgePropertiesRedo_Serialize :: "bytes \<Rightarrow> bytes \<Rightarrow>
    bytes \<Rightarrow> (bytes \<times> bytes) list \<Rightarrow> written" where
  "RenameEdgePropertiesRedo_Serialize src_type dst_type edge_type config = wcat [put_u8 11,
      put_string src_type, put_string dst_type, put_string edge_type,
      RenameEdgePropertiesParam_Serialize config]"
definition DeleteVertexPropertiesRedo_Serialize :: "bytes \<Rightarrow> bytes list \<Rightarrow>
    written" where
  "DeleteVertexPropertiesRedo_Serialize vertex_type config = wcat [put_u8 12,
      put_string vertex_type, DeleteVertexPropertiesParam_Serialize config]"
definition DeleteEdgePropertiesRedo_Serialize :: "bytes \<Rightarrow> bytes \<Rightarrow>
    bytes \<Rightarrow> bytes list \<Rightarrow> written" where
  "DeleteEdgePropertiesRedo_Serialize src_type dst_type edge_type config = wcat [put_u8 13,
      put_string src_type, put_string dst_type, put_string edge_type,
      DeleteEdgePropertiesParam_Serialize config]"
definition DeleteVertexTypeRedo_Serialize :: "bytes \<Rightarrow> written" where
  "DeleteVertexTypeRedo_Serialize vertex_type = wcat [put_u8 14, put_string vertex_type]"
definition DeleteEdgeTypeRedo_Serialize :: "bytes \<Rightarrow> bytes \<Rightarrow>
    bytes \<Rightarrow> written" where
  "DeleteEdgeTypeRedo_Serialize src_type dst_type edge_type = wcat [put_u8 15,
      put_string src_type, put_string dst_type, put_string edge_type]"
definition AddGraphEntryRedo_Serialize :: "bytes \<Rightarrow> ProjectedGraphEntry \<Rightarrow>
    written" where
  "AddGraphEntryRedo_Serialize nm entry = wcat [put_u8 16, put_string nm,
      put_ProjectedGraphEntry entry]"
definition DropGraphEntryRedo_Serialize :: "bytes \<Rightarrow> written" where
  "DropGraphEntryRedo_Serialize nm = wcat [put_u8 17, put_string nm]"
definition CreateIndexRedo_Serialize :: "bytes \<Rightarrow> written" where
  "CreateIndexRedo_Serialize json = wcat [put_u8 18, put_string json]"
definition DropIndexRedo_Serialize :: "bytes \<Rightarrow> written" where
  "DropIndexRedo_Serialize nm = wcat [put_u8 19, put_string nm]"
definition ActivateIndexesRedo_Serialize :: "written" where
  "ActivateIndexesRedo_Serialize = wcat [put_u8 20]"
definition OptimizeIndexesRedo_Serialize :: "bytes list \<Rightarrow> written" where
  "OptimizeIndexesRedo_Serialize names = wcat [put_u8 21, put_vector32 put_string names]"

definition put_Redo :: "Redo \<Rightarrow> written" where
  "put_Redo r = (case r of
     CreateVertexType config \<Rightarrow> CreateVertexTypeRedo_Serialize config
   | CreateEdgeType config \<Rightarrow> CreateEdgeTypeRedo_Serialize config
   | InsertVertex vertex_type oid props \<Rightarrow>
       InsertVertexRedo_Serialize vertex_type oid props
   | InsertEdge src_type src dst_type dst edge_type props \<Rightarrow>
       InsertEdgeRedo_Serialize src_type src dst_type dst edge_type props
   | UpdateVertexProp vertex_type oid prop_id val \<Rightarrow>
       UpdateVertexPropRedo_Serialize vertex_type oid prop_id val
   | UpdateEdgeProp src_type src dst_type dst edge_type oe_offset ie_offset prop_id val \<Rightarrow> UpdateEdgePropRedo_Serialize src_type src dst_type dst edge_type oe_offset ie_offset prop_id val
   | RemoveVertex vertex_type oid \<Rightarrow> RemoveVertexRedo_Serialize vertex_type oid
   | RemoveEdge src_type src dst_type dst edge_type oe_offset ie_offset \<Rightarrow>
       RemoveEdgeRedo_Serialize src_type src dst_type dst edge_type oe_offset ie_offset
   | AddVertexProp vertex_type config \<Rightarrow>
       AddVertexPropertiesRedo_Serialize vertex_type config
   | AddEdgeProp src_type dst_type edge_type config \<Rightarrow>
       AddEdgePropertiesRedo_Serialize src_type dst_type edge_type config
   | RenameVertexProp vertex_type config \<Rightarrow>
       RenameVertexPropertiesRedo_Serialize vertex_type config
   | RenameEdgeProp src_type dst_type edge_type config \<Rightarrow>
       RenameEdgePropertiesRedo_Serialize src_type dst_type edge_type config
   | DeleteVertexProp vertex_type config \<Rightarrow>
       DeleteVertexPropertiesRedo_Serialize vertex_type config
   | DeleteEdgeProp src_type dst_type edge_type config \<Rightarrow>
       DeleteEdgePropertiesRedo_Serialize src_type dst_type edge_type config
   | DeleteVertexType vertex_type \<Rightarrow> DeleteVertexTypeRedo_Serialize vertex_type
   | DeleteEdgeType src_type dst_type edge_type \<Rightarrow>
       DeleteEdgeTypeRedo_Serialize src_type dst_type edge_type
   | AddGraphEntry nm entry \<Rightarrow> AddGraphEntryRedo_Serialize nm entry
   | DropGraphEntry nm \<Rightarrow> DropGraphEntryRedo_Serialize nm
   | CreateIndex json \<Rightarrow> CreateIndexRedo_Serialize json
   | DropIndex nm \<Rightarrow> DropIndexRedo_Serialize nm
   | ActivateIndexes \<Rightarrow> ActivateIndexesRedo_Serialize
   | OptimizeIndexes names \<Rightarrow> OptimizeIndexesRedo_Serialize names)"

section \<open>Deserialize\<close>

definition CreateVertexTypeRedo_Deserialize :: "Redo reader" where
  "CreateVertexTypeRedo_Deserialize = rbind CreateVertexTypeParam_Deserialize (\<lambda>config. rret (CreateVertexType config))"
definition CreateEdgeTypeRedo_Deserialize :: "Redo reader" where
  "CreateEdgeTypeRedo_Deserialize = rbind CreateEdgeTypeParam_Deserialize (\<lambda>config.
      rret (CreateEdgeType config))"
definition InsertVertexRedo_Deserialize :: "Redo reader" where
  "InsertVertexRedo_Deserialize = rbind get_string (\<lambda>vertex_type.
      rbind get_Value (\<lambda>oid. rbind (get_vector32 get_Value) (\<lambda>props.
      rret (InsertVertex vertex_type oid props))))"
definition InsertEdgeRedo_Deserialize :: "Redo reader" where
  "InsertEdgeRedo_Deserialize = rbind get_string (\<lambda>src_type.
      rbind get_Value (\<lambda>src. rbind get_string (\<lambda>dst_type.
      rbind get_Value (\<lambda>dst. rbind get_string (\<lambda>edge_type.
      rbind (get_vector32 get_Value) (\<lambda>props.
      rret (InsertEdge src_type src dst_type dst edge_type props)))))))"
definition UpdateVertexPropRedo_Deserialize :: "Redo reader" where
  "UpdateVertexPropRedo_Deserialize = rbind get_string (\<lambda>vertex_type.
      rbind get_Value (\<lambda>oid. rbind get_u32 (\<lambda>prop_id.
      rbind get_Value (\<lambda>val. rret (UpdateVertexProp vertex_type oid prop_id val)))))"
definition UpdateEdgePropRedo_Deserialize :: "Redo reader" where
  "UpdateEdgePropRedo_Deserialize = rbind get_string (\<lambda>src_type.
      rbind get_Value (\<lambda>src. rbind get_string (\<lambda>dst_type.
      rbind get_Value (\<lambda>dst. rbind get_string (\<lambda>edge_type.
      rbind get_u32 (\<lambda>oe_offset. rbind get_u32 (\<lambda>ie_offset.
      rbind get_u32 (\<lambda>prop_id. rbind get_Value (\<lambda>val.
      rret (UpdateEdgeProp src_type src dst_type dst edge_type oe_offset ie_offset prop_id val))))))))))"
definition RemoveVertexRedo_Deserialize :: "Redo reader" where
  "RemoveVertexRedo_Deserialize = rbind get_string (\<lambda>vertex_type.
      rbind get_Value (\<lambda>oid. rret (RemoveVertex vertex_type oid)))"
definition RemoveEdgeRedo_Deserialize :: "Redo reader" where
  "RemoveEdgeRedo_Deserialize = rbind get_string (\<lambda>src_type.
      rbind get_Value (\<lambda>src. rbind get_string (\<lambda>dst_type.
      rbind get_Value (\<lambda>dst. rbind get_string (\<lambda>edge_type.
      rbind get_u32 (\<lambda>oe_offset. rbind get_u32 (\<lambda>ie_offset.
      rret (RemoveEdge src_type src dst_type dst edge_type oe_offset ie_offset))))))))"
definition AddVertexPropertiesRedo_Deserialize :: "Redo reader" where
  "AddVertexPropertiesRedo_Deserialize = rbind get_string (\<lambda>vertex_type.
      rbind AddVertexPropertiesParam_Deserialize (\<lambda>config.
      rret (AddVertexProp vertex_type config)))"
definition AddEdgePropertiesRedo_Deserialize :: "Redo reader" where
  "AddEdgePropertiesRedo_Deserialize = rbind get_string (\<lambda>src_type.
      rbind get_string (\<lambda>dst_type. rbind get_string (\<lambda>edge_type.
      rbind AddEdgePropertiesParam_Deserialize (\<lambda>config.
      rret (AddEdgeProp src_type dst_type edge_type config)))))"
definition RenameVertexPropertiesRedo_Deserialize :: "Redo reader" where
  "RenameVertexPropertiesRedo_Deserialize = rbind get_string (\<lambda>vertex_type.
      rbind RenameVertexPropertiesParam_Deserialize (\<lambda>config.
      rret (RenameVertexProp vertex_type config)))"
definition RenameEdgePropertiesRedo_Deserialize :: "Redo reader" where
  "RenameEdgePropertiesRedo_Deserialize = rbind get_string (\<lambda>src_type.
      rbind get_string (\<lambda>dst_type. rbind get_string (\<lambda>edge_type.
      rbind RenameEdgePropertiesParam_Deserialize (\<lambda>config.
      rret (RenameEdgeProp src_type dst_type edge_type config)))))"
definition DeleteVertexPropertiesRedo_Deserialize :: "Redo reader" where
  "DeleteVertexPropertiesRedo_Deserialize = rbind get_string (\<lambda>vertex_type.
      rbind DeleteVertexPropertiesParam_Deserialize (\<lambda>config.
      rret (DeleteVertexProp vertex_type config)))"
definition DeleteEdgePropertiesRedo_Deserialize :: "Redo reader" where
  "DeleteEdgePropertiesRedo_Deserialize = rbind get_string (\<lambda>src_type.
      rbind get_string (\<lambda>dst_type. rbind get_string (\<lambda>edge_type.
      rbind DeleteEdgePropertiesParam_Deserialize (\<lambda>config.
      rret (DeleteEdgeProp src_type dst_type edge_type config)))))"
definition DeleteVertexTypeRedo_Deserialize :: "Redo reader" where
  "DeleteVertexTypeRedo_Deserialize = rbind get_string (\<lambda>vertex_type.
      rret (DeleteVertexType vertex_type))"
definition DeleteEdgeTypeRedo_Deserialize :: "Redo reader" where
  "DeleteEdgeTypeRedo_Deserialize = rbind get_string (\<lambda>src_type.
      rbind get_string (\<lambda>dst_type. rbind get_string (\<lambda>edge_type.
      rret (DeleteEdgeType src_type dst_type edge_type))))"
definition AddGraphEntryRedo_Deserialize :: "Redo reader" where
  "AddGraphEntryRedo_Deserialize = rbind get_string (\<lambda>nm.
      rbind get_ProjectedGraphEntry (\<lambda>entry. rret (AddGraphEntry nm entry)))"
definition DropGraphEntryRedo_Deserialize :: "Redo reader" where
  "DropGraphEntryRedo_Deserialize = rbind get_string (\<lambda>nm. rret (DropGraphEntry nm))"
definition CreateIndexRedo_Deserialize :: "Redo reader" where
  "CreateIndexRedo_Deserialize = rbind get_string (\<lambda>json. rret (CreateIndex json))"
definition DropIndexRedo_Deserialize :: "Redo reader" where
  "DropIndexRedo_Deserialize = rbind get_string (\<lambda>nm. rret (DropIndex nm))"
definition OptimizeIndexesRedo_Deserialize :: "Redo reader" where
  "OptimizeIndexesRedo_Deserialize = rbind (get_vector32 get_string) (\<lambda>names.
      rret (OptimizeIndexes names))"

definition get_Redo :: "Redo reader" where
  "get_Redo = rbind get_u8 (\<lambda>op_type.
     if op_type = 0 then CreateVertexTypeRedo_Deserialize
     else if op_type = 1 then CreateEdgeTypeRedo_Deserialize
     else if op_type = 2 then InsertVertexRedo_Deserialize
     else if op_type = 3 then InsertEdgeRedo_Deserialize
     else if op_type = 4 then UpdateVertexPropRedo_Deserialize
     else if op_type = 5 then UpdateEdgePropRedo_Deserialize
     else if op_type = 6 then RemoveVertexRedo_Deserialize
     else if op_type = 7 then RemoveEdgeRedo_Deserialize
     else if op_type = 8 then AddVertexPropertiesRedo_Deserialize
     else if op_type = 9 then AddEdgePropertiesRedo_Deserialize
     else if op_type = 10 then RenameVertexPropertiesRedo_Deserialize
     else if op_type = 11 then RenameEdgePropertiesRedo_Deserialize
     else if op_type = 12 then DeleteVertexPropertiesRedo_Deserialize
     else if op_type = 13 then DeleteEdgePropertiesRedo_Deserialize
     else if op_type = 14 then DeleteVertexTypeRedo_Deserialize
     else if op_type = 15 then DeleteEdgeTypeRedo_Deserialize
     else if op_type = 16 then AddGraphEntryRedo_Deserialize
     else if op_type = 17 then DropGraphEntryRedo_Deserialize
     else if op_type = 18 then CreateIndexRedo_Deserialize
     else if op_type = 19 then DropIndexRedo_Deserialize
     else if op_type = 20 then rret ActivateIndexes
     else if op_type = 21 then OptimizeIndexesRedo_Deserialize
     else rfail NotSupported)"

section \<open>Reading back\<close>

definition wf_Redo :: "Redo \<Rightarrow> bool" where
  "wf_Redo r = (case r of
     CreateVertexType config \<Rightarrow> wf_vertex_param config
   | CreateEdgeType config \<Rightarrow> wf_edge_param config
   | InsertVertex vertex_type oid props \<Rightarrow> wf_string vertex_type \<and>
       wf_Value oid \<and> small wf_Value props
   | InsertEdge src_type src dst_type dst edge_type props \<Rightarrow> wf_string src_type \<and>
       wf_Value src \<and> wf_string dst_type \<and> wf_Value dst \<and>
       wf_string edge_type \<and> small wf_Value props
   | UpdateVertexProp vertex_type oid prop_id val \<Rightarrow> wf_string vertex_type \<and>
       wf_Value oid \<and> wf_Value val
   | UpdateEdgeProp src_type src dst_type dst edge_type oe_offset ie_offset prop_id val \<Rightarrow> wf_string src_type \<and> wf_Value src \<and> wf_string dst_type \<and> wf_Value dst \<and> wf_string edge_type \<and> wf_Value val
   | RemoveVertex vertex_type oid \<Rightarrow> wf_string vertex_type \<and> wf_Value oid
   | RemoveEdge src_type src dst_type dst edge_type oe_offset ie_offset \<Rightarrow>
       wf_string src_type \<and> wf_Value src \<and> wf_string dst_type \<and>
       wf_Value dst \<and> wf_string edge_type
   | AddVertexProp vertex_type config \<Rightarrow> wf_string vertex_type \<and>
       small wf_property config
   | AddEdgeProp src_type dst_type edge_type config \<Rightarrow> wf_string src_type \<and>
       wf_string dst_type \<and> wf_string edge_type \<and> small wf_property config
   | RenameVertexProp vertex_type config \<Rightarrow> wf_string vertex_type \<and>
       small wf_names config
   | RenameEdgeProp src_type dst_type edge_type config \<Rightarrow> wf_string src_type \<and>
       wf_string dst_type \<and> wf_string edge_type \<and> small wf_names config
   | DeleteVertexProp vertex_type config \<Rightarrow> wf_string vertex_type \<and>
       small wf_string config
   | DeleteEdgeProp src_type dst_type edge_type config \<Rightarrow> wf_string src_type \<and>
       wf_string dst_type \<and> wf_string edge_type \<and> small wf_string config
   | DeleteVertexType vertex_type \<Rightarrow> wf_string vertex_type
   | DeleteEdgeType src_type dst_type edge_type \<Rightarrow> wf_string src_type \<and>
       wf_string dst_type \<and> wf_string edge_type
   | AddGraphEntry nm entry \<Rightarrow> wf_string nm \<and> wf_ProjectedGraphEntry entry
   | DropGraphEntry nm \<Rightarrow> wf_string nm
   | CreateIndex json \<Rightarrow> wf_string json
   | DropIndex nm \<Rightarrow> wf_string nm
   | ActivateIndexes \<Rightarrow> True
   | OptimizeIndexes names \<Rightarrow> small wf_string names)"

definition norm_Redo :: "Redo \<Rightarrow> Redo" where
  "norm_Redo r = (case r of
     CreateVertexType config \<Rightarrow> CreateVertexType (norm_vertex_param config)
   | CreateEdgeType config \<Rightarrow> CreateEdgeType (norm_edge_param config)
   | InsertVertex vertex_type oid props \<Rightarrow>
       InsertVertex vertex_type (norm_Value oid) (map norm_Value props)
   | InsertEdge src_type src dst_type dst edge_type props \<Rightarrow>
       InsertEdge src_type (norm_Value src) dst_type (norm_Value dst) edge_type (map norm_Value props)
   | UpdateVertexProp vertex_type oid prop_id val \<Rightarrow>
       UpdateVertexProp vertex_type (norm_Value oid) prop_id (norm_Value val)
   | UpdateEdgeProp src_type src dst_type dst edge_type oe_offset ie_offset prop_id val \<Rightarrow> UpdateEdgeProp src_type (norm_Value src) dst_type (norm_Value dst) edge_type oe_offset ie_offset prop_id (norm_Value val)
   | RemoveVertex vertex_type oid \<Rightarrow> RemoveVertex vertex_type (norm_Value oid)
   | RemoveEdge src_type src dst_type dst edge_type oe_offset ie_offset \<Rightarrow>
       RemoveEdge src_type (norm_Value src) dst_type (norm_Value dst) edge_type oe_offset ie_offset
   | AddVertexProp vertex_type config \<Rightarrow>
       AddVertexProp vertex_type (map norm_property config)
   | AddEdgeProp src_type dst_type edge_type config \<Rightarrow>
       AddEdgeProp src_type dst_type edge_type (map norm_property config)
   | RenameVertexProp vertex_type config \<Rightarrow> RenameVertexProp vertex_type config
   | RenameEdgeProp src_type dst_type edge_type config \<Rightarrow>
       RenameEdgeProp src_type dst_type edge_type config
   | DeleteVertexProp vertex_type config \<Rightarrow> DeleteVertexProp vertex_type config
   | DeleteEdgeProp src_type dst_type edge_type config \<Rightarrow>
       DeleteEdgeProp src_type dst_type edge_type config
   | DeleteVertexType vertex_type \<Rightarrow> DeleteVertexType vertex_type
   | DeleteEdgeType src_type dst_type edge_type \<Rightarrow>
       DeleteEdgeType src_type dst_type edge_type
   | AddGraphEntry nm entry \<Rightarrow> AddGraphEntry nm entry
   | DropGraphEntry nm \<Rightarrow> DropGraphEntry nm
   | CreateIndex json \<Rightarrow> CreateIndex json
   | DropIndex nm \<Rightarrow> DropIndex nm
   | ActivateIndexes \<Rightarrow> ActivateIndexes
   | OptimizeIndexes names \<Rightarrow> OptimizeIndexes names)"

lemmas Serialize_defs =
  CreateVertexTypeRedo_Serialize_def
  CreateEdgeTypeRedo_Serialize_def
  InsertVertexRedo_Serialize_def
  InsertEdgeRedo_Serialize_def
  UpdateVertexPropRedo_Serialize_def
  UpdateEdgePropRedo_Serialize_def
  RemoveVertexRedo_Serialize_def
  RemoveEdgeRedo_Serialize_def
  AddVertexPropertiesRedo_Serialize_def
  AddEdgePropertiesRedo_Serialize_def
  RenameVertexPropertiesRedo_Serialize_def
  RenameEdgePropertiesRedo_Serialize_def
  DeleteVertexPropertiesRedo_Serialize_def
  DeleteEdgePropertiesRedo_Serialize_def
  DeleteVertexTypeRedo_Serialize_def
  DeleteEdgeTypeRedo_Serialize_def
  AddGraphEntryRedo_Serialize_def
  DropGraphEntryRedo_Serialize_def
  CreateIndexRedo_Serialize_def
  DropIndexRedo_Serialize_def
  ActivateIndexesRedo_Serialize_def
  OptimizeIndexesRedo_Serialize_def

lemmas Deserialize_defs =
  CreateVertexTypeRedo_Deserialize_def
  CreateEdgeTypeRedo_Deserialize_def
  InsertVertexRedo_Deserialize_def
  InsertEdgeRedo_Deserialize_def
  UpdateVertexPropRedo_Deserialize_def
  UpdateEdgePropRedo_Deserialize_def
  RemoveVertexRedo_Deserialize_def
  RemoveEdgeRedo_Deserialize_def
  AddVertexPropertiesRedo_Deserialize_def
  AddEdgePropertiesRedo_Deserialize_def
  RenameVertexPropertiesRedo_Deserialize_def
  RenameEdgePropertiesRedo_Deserialize_def
  DeleteVertexPropertiesRedo_Deserialize_def
  DeleteEdgePropertiesRedo_Deserialize_def
  DeleteVertexTypeRedo_Deserialize_def
  DeleteEdgeTypeRedo_Deserialize_def
  AddGraphEntryRedo_Deserialize_def
  DropGraphEntryRedo_Deserialize_def
  CreateIndexRedo_Deserialize_def
  DropIndexRedo_Deserialize_def
  OptimizeIndexesRedo_Deserialize_def

lemmas param_defs =
  AddVertexPropertiesParam_Serialize_def AddVertexPropertiesParam_Deserialize_def
  AddEdgePropertiesParam_Serialize_def AddEdgePropertiesParam_Deserialize_def
  RenameVertexPropertiesParam_Serialize_def RenameVertexPropertiesParam_Deserialize_def
  RenameEdgePropertiesParam_Serialize_def RenameEdgePropertiesParam_Deserialize_def
  DeleteVertexPropertiesParam_Serialize_def DeleteVertexPropertiesParam_Deserialize_def
  DeleteEdgePropertiesParam_Serialize_def DeleteEdgePropertiesParam_Deserialize_def

interpretation redo_codec: codec put_Redo get_Redo wf_Redo norm_Redo
proof
  fix r b rest assume a: "wf_Redo r" "put_Redo r = (b, None)"
  show "get_Redo (b @ rest) = Inr (norm_Redo r, rest)"
    using a by (cases r)
      (auto simp: put_Redo_def get_Redo_def wf_Redo_def norm_Redo_def Serialize_defs Deserialize_defs param_defs
        value_codec.dec_enc entry_codec.dec_enc vertex_param_codec.dec_enc edge_param_codec.dec_enc)
qed

end
