(* ===== verification/Wal_Builder.thy ===== *)
theory Wal_Builder
  imports Wal_Redo
begin

text \<open>
  \<open>WalHeader\<close> (\<open>include/neug/transaction/wal/wal.h\<close>), the record builder of update transactions
  (\<open>src/transaction/wal/wal_builder.cc\<close>) and the loop that reads the operations of a record
  back. The header is two 32-bit words: the timestamp, and one bit of record type below 31
  bits of signed length, as the Itanium ABI lays the bit-fields out.
\<close>

section \<open>The record header\<close>

record WalHeader =
  timestamp :: u32
  update_type :: bool
  rec_length :: int

abbreviation header_size :: nat where "header_size \<equiv> 8"

text \<open>Storing into \<open>int32_t length : 31\<close> keeps the low 31 bits; reading sign-extends them.\<close>

definition put_WalHeader :: "WalHeader \<Rightarrow> bytes" where
  "put_WalHeader h = le_bytes 4 (unat (timestamp h)) @
     le_bytes 4 (of_bool (update_type h) + 2 * nat (rec_length h mod 2 ^ 31))"

definition signed31 :: "nat \<Rightarrow> int" where
  "signed31 v = (if v < 2 ^ 30 then int v else int v - 2 ^ 31)"

definition get_WalHeader :: "bytes \<Rightarrow> WalHeader" where
  "get_WalHeader bs = (let w = le_val (take 4 (drop 4 bs)) in
     \<lparr> timestamp = of_nat (le_val (take 4 bs)), update_type = odd w, rec_length = signed31 (w div 2) \<rparr>)"

section \<open>The builder\<close>

record WalBuilder =
  arc :: bytes
  op_num :: nat
  schema_changed :: bool

definition WalBuilder_init :: WalBuilder where
  "WalBuilder_init = \<lparr> arc = replicate header_size 0, op_num = 0, schema_changed = False \<rparr>"

text \<open>Which operations change the schema: the data operations and the index optimisation do not.\<close>

fun is_ddl :: "Redo \<Rightarrow> bool" where
  "is_ddl (InsertVertex _ _ _) = False"
| "is_ddl (InsertEdge _ _ _ _ _ _) = False"
| "is_ddl (UpdateVertexProp _ _ _ _) = False"
| "is_ddl (UpdateEdgeProp _ _ _ _ _ _ _ _ _) = False"
| "is_ddl (RemoveVertex _ _) = False"
| "is_ddl (RemoveEdge _ _ _ _ _ _ _) = False"
| "is_ddl (OptimizeIndexes _) = False"
| "is_ddl _ = True"

text \<open>The \<open>LogXxx\<close> methods: serialize, count, and note a schema change. An exception leaves the
  bytes written so far in the archive.\<close>

definition Log :: "Redo \<Rightarrow> WalBuilder \<Rightarrow> neug_error option \<times> WalBuilder" where
  "Log r b = (case put_Redo r of
     (bs, Some e) \<Rightarrow> (Some e, b \<lparr> arc := arc b @ bs \<rparr>)
   | (bs, None) \<Rightarrow> (None, b \<lparr> arc := arc b @ bs, op_num := op_num b + 1,
       schema_changed := schema_changed b \<or> is_ddl r \<rparr>))"

definition content_size :: "WalBuilder \<Rightarrow> nat" where "content_size b = length (arc b) - header_size"

definition finalize :: "u32 \<Rightarrow> WalBuilder \<Rightarrow> WalBuilder res" where
  "finalize ts b = (if length (arc b) < header_size then Inl UndefinedBehaviour
     else Inr (b \<lparr> arc := put_WalHeader \<lparr> timestamp = ts, update_type = True,
                            rec_length = int (length (arc b) - header_size) \<rparr> @ drop header_size (arc b) \<rparr>))"

definition builder_clear :: "WalBuilder \<Rightarrow> WalBuilder" where
  "builder_clear b = b \<lparr> arc := [], op_num := 0, schema_changed := False \<rparr>"

fun Log_all :: "Redo list \<Rightarrow> WalBuilder \<Rightarrow> neug_error option \<times> WalBuilder" where
  "Log_all [] b = (None, b)"
| "Log_all (r # rs) b = (case Log r b of (Some e, b') \<Rightarrow> (Some e, b') | (None, b') \<Rightarrow> Log_all rs b')"

section \<open>Reading the operations of a record\<close>

text \<open>The loop \<open>while (!arc.Empty())\<close> of the replay: decode one operation and apply it. Every
  round reads at least the tag, so the number of bytes is enough fuel.\<close>

fun replay_loop :: "Redo reader \<Rightarrow> (Redo \<Rightarrow> 'g \<Rightarrow> 'g res) \<Rightarrow> nat \<Rightarrow> bytes \<Rightarrow> 'g \<Rightarrow> 'g res" where
  "replay_loop get app k [] g = Inr g"
| "replay_loop get app 0 (x # bs) g = Inl UndefinedBehaviour"
| "replay_loop get app (Suc k) (x # bs) g =
     res_bind (get (x # bs)) (\<lambda>(r, rest). res_bind (app r g) (replay_loop get app k rest))"

fun fold_res :: "('a \<Rightarrow> 'g \<Rightarrow> 'g res) \<Rightarrow> 'a list \<Rightarrow> 'g \<Rightarrow> 'g res" where
  "fold_res f [] g = Inr g"
| "fold_res f (x # xs) g = res_bind (f x g) (fold_res f xs)"

lemma fold_res_append: "fold_res f (xs @ ys) g = res_bind (fold_res f xs g) (fold_res f ys)"
proof (induction xs arbitrary: g)
  case (Cons x xs) then show ?case by (cases "f x g") simp_all
qed simp

definition replay_ops :: "(Redo \<Rightarrow> 'g \<Rightarrow> 'g res) \<Rightarrow> bytes \<Rightarrow> 'g \<Rightarrow> 'g res" where
  "replay_ops app bs = replay_loop get_Redo app (length bs) bs"

section \<open>Headers\<close>

lemma put_WalHeader_length [simp]: "length (put_WalHeader h) = header_size"
  by (simp add: put_WalHeader_def)

lemma get_WalHeader_append: "length hb = header_size \<Longrightarrow> get_WalHeader (hb @ rest) = get_WalHeader hb"
  by (simp add: get_WalHeader_def)

lemma le_val_u32 [simp]: "(of_nat (le_val (le_bytes 4 (unat w))) :: u32) = w"
proof -
  have "unat w < 256 ^ 4" using unsigned_less [of w, where ?'a = nat] by simp
  then show ?thesis by (simp add: le_val_le_bytes del: le_bytes.simps)
qed

lemma get_put_WalHeader:
  "get_WalHeader (put_WalHeader h) = h \<lparr> rec_length := signed31 (nat (rec_length h mod 2 ^ 31)) \<rparr>"
proof -
  let ?v = "of_bool (update_type h) + 2 * nat (rec_length h mod 2 ^ 31)"
  have "nat (rec_length h mod 2 ^ 31) < 2 ^ 31" by (simp add: nat_less_iff)
  then have "?v < 256 ^ 4" by (cases "update_type h") simp_all
  then have "le_val (le_bytes 4 ?v) = ?v" by (simp only: le_val_le_bytes mod_less)
  moreover have "odd ?v = update_type h" "?v div 2 = nat (rec_length h mod 2 ^ 31)" by simp_all
  ultimately show ?thesis by (simp add: get_WalHeader_def put_WalHeader_def del: le_bytes.simps)
qed

lemma signed31_small: "l < 2 ^ 30 \<Longrightarrow> signed31 (nat (int l mod 2 ^ 31)) = int l"
  by (simp add: signed31_def)

lemma signed31_large: "2 ^ 30 \<le> l \<Longrightarrow> l < 2 ^ 31 \<Longrightarrow> signed31 (nat (int l mod 2 ^ 31)) = int l - 2 ^ 31"
  by (simp add: signed31_def)

section \<open>Reading back what was logged\<close>

lemma strict_after_tag:
  assumes "\<And>x. shrinks (f x)" "rbind get_u8 f bs = Inr (r, rest)"
  shows "length rest < length bs"
proof -
  from assms(2) obtain w mid where m: "get_u8 bs = Inr (w, mid)" "f w mid = Inr (r, rest)"
    by (auto simp: rbind_def)
  have "length mid < length bs"
    using m(1) by (auto simp: get_u8_def GetBytes_def rbind_def rret_def split: if_splits)
  then show ?thesis using assms(1) [of w] m(2) by (auto simp: shrinks_def dest!: spec)
qed

lemma put_Redo_nonempty: "put_Redo r = (b, None) \<Longrightarrow> b \<noteq> []"
  by (cases r) (auto simp: put_Redo_def Serialize_defs dest: put_lengths(1))

lemma replay_loop_put:
  "list_all wf_Redo rs \<Longrightarrow> wcat (map put_Redo rs) = (b, None) \<Longrightarrow> length b \<le> k \<Longrightarrow>
     replay_loop get_Redo app k b g = fold_res app (map norm_Redo rs) g"
proof (induction rs arbitrary: b k g)
  case (Cons r rs)
  from Cons.prems(2) obtain b1 b2 where b: "put_Redo r = (b1, None)" "wcat (map put_Redo rs) = (b2, None)" "b = b1 @ b2"
    by auto
  obtain x xs where x: "b1 = x # xs" using put_Redo_nonempty [OF b(1)] by (cases b1) auto
  obtain j where k: "k = Suc j" "length b2 \<le> j" using Cons.prems(3) b(3) x by (cases k) auto
  have "get_Redo (b1 @ b2) = Inr (norm_Redo r, b2)" using redo_codec.dec_enc [OF _ b(1)] Cons.prems(1) by simp
  moreover have "replay_loop get_Redo app j b2 h = fold_res app (map norm_Redo rs) h" for h
    using Cons.IH [OF _ b(2) k(2)] Cons.prems(1) by simp
  ultimately show ?case using b(3) x k(1) by (cases "app (norm_Redo r) g") simp_all
qed simp

lemma Log_all_ok:
  "Log_all rs b = (None, b') \<Longrightarrow>
     \<exists>bs. wcat (map put_Redo rs) = (bs, None) \<and> arc b' = arc b @ bs \<and> op_num b' = op_num b + length rs \<and>
       schema_changed b' = (schema_changed b \<or> list_ex is_ddl rs)"
proof (induction rs arbitrary: b)
  case (Cons r rs)
  obtain bs e where p: "put_Redo r = (bs, e)" by (cases "put_Redo r")
  have e: "e = None" using Cons.prems p by (cases e) (auto simp: Log_def)
  then have "Log_all rs (snd (Log r b)) = (None, b')" using Cons.prems p by (simp add: Log_def)
  from Cons.IH [OF this] show ?case using p e by (auto simp: Log_def)
qed simp

section \<open>Properties\<close>




text \<open>
  \<open>clear\<close> empties the buffer without making room for the next header: a cleared builder that is
  finalized writes its header outside the buffer, and one that logs first loses the first eight
  bytes of its first operation.
\<close>
theorem cleared_builder_has_no_header:
  "finalize ts (builder_clear b) = Inl UndefinedBehaviour \<and>
   (\<forall>r bs. put_Redo r = (bs, None) \<and> header_size \<le> length bs \<longrightarrow>
      (\<exists>b'. finalize ts (snd (Log r (builder_clear b))) = Inr b' \<and> drop header_size (arc b') = drop header_size bs))"
  by (auto simp: finalize_def builder_clear_def Log_def)


end
