(* ===== verification/Wal_Writer.thy ===== *)
theory Wal_Writer
  imports Wal_Builder
begin

text \<open>
  The local log writer (\<open>src/transaction/wal/local_wal_writer.cc\<close>). The file is a function from
  offsets to bytes, zero where nothing was written, as \<open>ftruncate\<close> leaves it. What the operating
  system does is an argument: every write call writes some bytes, is interrupted or fails; file
  creation, resizing and syncing succeed or fail.
\<close>

section \<open>State\<close>

type_synonym wfile = "nat \<Rightarrow> u8"

record LocalWalWriter =
  opened :: bool
  poisoned :: bool
  fd :: bool
  file_size :: nat
  file_used :: nat
  content :: wfile

definition TRUNC_SIZE :: nat where "TRUNC_SIZE = 2 ^ 30"

definition writer_init :: LocalWalWriter where
  "writer_init = \<lparr> opened = False, poisoned = False, fd = False, file_size = 0, file_used = 0,
                   content = (\<lambda>_. 0) \<rparr>"

datatype io = Wrote nat | Interrupted | Failed

record environment =
  create_ok :: bool
  resize_ok :: bool
  writes :: "io list"
  sync_ok :: bool

datatype append_result = Appended | Refused | Threw

section \<open>Operations\<close>

definition close_file :: "LocalWalWriter \<Rightarrow> LocalWalWriter" where
  "close_file w = w \<lparr> fd := False, file_size := 0, file_used := 0 \<rparr>"

definition writer_close :: "LocalWalWriter \<Rightarrow> LocalWalWriter" where
  "writer_close w = close_file (w \<lparr> opened := False \<rparr>)"

definition writer_open :: "LocalWalWriter \<Rightarrow> LocalWalWriter res" where
  "writer_open w = (if poisoned w then Inl IoException else Inr ((writer_close w) \<lparr> opened := True \<rparr>))"

text \<open>A new file is all zero.\<close>

definition create_file :: "LocalWalWriter \<Rightarrow> LocalWalWriter" where
  "create_file w = w \<lparr> fd := True, file_size := TRUNC_SIZE, file_used := 0, content := (\<lambda>_. 0) \<rparr>"

definition retire :: "LocalWalWriter \<Rightarrow> LocalWalWriter" where
  "retire w = close_file (w \<lparr> poisoned := True \<rparr>)"

definition patch :: "wfile \<Rightarrow> nat \<Rightarrow> bytes \<Rightarrow> wfile" where
  "patch f off d = (\<lambda>i. if off \<le> i \<and> i < off + length d then d ! (i - off) else f i)"

text \<open>\<open>write_all_at\<close> repeats \<open>pwrite\<close> until everything is written; it consumes the results of the
  calls. A missing result is a call that never returns, which counts as a failure.\<close>

fun write_all_at :: "bytes \<Rightarrow> nat \<Rightarrow> io list \<Rightarrow> wfile \<Rightarrow> (bool \<times> io list) \<times> wfile" where
  "write_all_at [] off ios f = ((True, ios), f)"
| "write_all_at (d # ds) off [] f = ((False, []), f)"
| "write_all_at (d # ds) off (io # ios) f = (case io of
     Interrupted \<Rightarrow> write_all_at (d # ds) off ios f
   | Failed \<Rightarrow> ((False, ios), f)
   | Wrote n \<Rightarrow> if n = 0 then ((False, ios), f)
       else write_all_at (drop n (d # ds)) (off + n) ios (patch f off (take n (d # ds))))"

definition append_ensure_file :: "environment \<Rightarrow> LocalWalWriter \<Rightarrow> LocalWalWriter option" where
  "append_ensure_file env w =
     (if fd w then Some w else if create_ok env then Some (create_file w) else None)"

definition append_resize :: "environment \<Rightarrow> nat \<Rightarrow> LocalWalWriter \<Rightarrow> LocalWalWriter option" where
  "append_resize env len w =
     (let expected = file_used w + len + header_size in
      if expected > file_size w then
        if resize_ok env then Some (w \<lparr> file_size := (expected div TRUNC_SIZE + 1) * TRUNC_SIZE \<rparr>) else None
      else Some w)"

definition append_write :: "environment \<Rightarrow> bytes \<Rightarrow> LocalWalWriter \<Rightarrow> append_result \<times> LocalWalWriter" where
  "append_write env data w =
     (case write_all_at data (file_used w) (writes env) (content w) of ((ok, ios), f) \<Rightarrow>
        if \<not> ok then (Threw, retire (w \<lparr> content := f \<rparr>))
        else case write_all_at (replicate header_size 0) (file_used w + length data) ios f of ((ok', _), f') \<Rightarrow>
          if \<not> ok' then (Threw, retire (w \<lparr> content := f' \<rparr>))
          else if \<not> sync_ok env then (Threw, retire (w \<lparr> content := f' \<rparr>))
          else (Appended, w \<lparr> content := f', file_used := file_used w + length data \<rparr>))"

definition append :: "environment \<Rightarrow> bytes \<Rightarrow> LocalWalWriter \<Rightarrow> append_result \<times> LocalWalWriter" where
  "append env data w =
     (if poisoned w then (Threw, w)
      else if \<not> opened w then (Refused, w)
      else if data = [] then (Appended, w)
      else case append_ensure_file env w of
        None \<Rightarrow> (Refused, close_file w)
      | Some w1 \<Rightarrow> (case append_resize env (length data) w1 of
          None \<Rightarrow> (Threw, retire w1)
        | Some w2 \<Rightarrow> append_write env data w2))"

section \<open>The file\<close>

definition slice :: "wfile \<Rightarrow> nat \<Rightarrow> nat \<Rightarrow> bytes" where
  "slice f off n = map (\<lambda>i. f (off + i)) [0..<n]"

lemma slice_length [simp]: "length (slice f off n) = n"
  by (simp add: slice_def)

lemma slice_add: "slice f off (m + n) = slice f off m @ slice f (off + m) n"
  by (rule nth_equalityI) (auto simp: slice_def nth_append add.assoc)

lemma slice_patch_same: "slice (patch f off d) off (length d) = d"
  by (rule nth_equalityI) (auto simp: slice_def patch_def)

lemma slice_patch_before: "m \<le> off \<Longrightarrow> slice (patch f off d) 0 m = slice f 0 m"
  by (auto simp: slice_def patch_def)

lemma slice_cong: "(\<And>i. off \<le> i \<Longrightarrow> i < off + n \<Longrightarrow> f i = g i) \<Longrightarrow> slice f off n = slice g off n"
  by (auto simp: slice_def)

lemma patch_append: "patch (patch f off a) (off + length a) b = patch f off (a @ b)"
  by (rule ext) (auto simp: patch_def nth_append)

lemma patch_Nil [simp]: "patch f off [] = f"
  by (auto simp: patch_def fun_eq_iff)

text \<open>Whatever the sequence of short and interrupted writes: success means that exactly the data
  is there, and failure has not touched anything before the offset.\<close>

lemma write_all_at_ok:
  "write_all_at data off ios f = ((True, ios'), f') \<Longrightarrow> f' = patch f off data"
proof (induction data off ios f arbitrary: ios' f' rule: write_all_at.induct)
  case (3 d ds off io ios f)
  show ?case
  proof (cases io)
    case (Wrote n)
    then have n: "n \<noteq> 0" using 3(3) by (auto split: if_splits)
    have "f' = patch (patch f off (take n (d # ds))) (off + n) (drop n (d # ds))"
      using 3(1) [OF Wrote n] 3(3) Wrote n by simp
    moreover have "patch g (off + n) (drop n (d # ds)) = patch g (off + length (take n (d # ds))) (drop n (d # ds))" for g
      by (cases "n \<le> length (d # ds)") simp_all
    ultimately show ?thesis by (simp only: patch_append append_take_drop_id)
  qed (use 3 in auto)
qed auto

lemma write_all_at_before:
  "write_all_at data off ios f = (r, f') \<Longrightarrow> i < off \<Longrightarrow> f' i = f i"
proof (induction data off ios f arbitrary: r f' rule: write_all_at.induct)
  case (3 d ds off io ios f)
  show ?case
  proof (cases io)
    case (Wrote n)
    show ?thesis
    proof (cases "n = 0")
      case False
      then show ?thesis using 3(1) [OF Wrote False] 3(3,4) Wrote by (auto simp: patch_def)
    qed (use 3 Wrote in auto)
  qed (use 3 in auto)
qed auto

text \<open>Enough results, eventually positive, end the loop: the write succeeds when the calls
  that wrote something add up.\<close>

fun total_written :: "io list \<Rightarrow> nat" where
  "total_written [] = 0"
| "total_written (Wrote n # ios) = n + total_written ios"
| "total_written (_ # ios) = total_written ios"

lemma write_all_at_succeeds:
  "length data \<le> total_written ios \<Longrightarrow> Failed \<notin> set ios \<Longrightarrow> Wrote 0 \<notin> set ios \<Longrightarrow>
     fst (fst (write_all_at data off ios f))"
proof (induction data off ios f rule: write_all_at.induct)
  case (3 d ds off io ios f)
  show ?case
  proof (cases io)
    case (Wrote n)
    then have "n \<noteq> 0" using 3(5) by (cases n) auto
    then show ?thesis using 3(1) [OF Wrote] 3(3-5) Wrote by simp
  qed (use 3 in auto)
qed auto


section \<open>What an append leaves behind\<close>

text \<open>The bytes of the log are the first \<open>file_used\<close> bytes of the file; behind them stands a
  zero header. An open descriptor has room for that header.\<close>

definition log_bytes :: "LocalWalWriter \<Rightarrow> bytes" where
  "log_bytes w = slice (content w) 0 (file_used w)"

definition writer_inv :: "LocalWalWriter \<Rightarrow> bool" where
  "writer_inv w \<longleftrightarrow>
     (fd w \<longrightarrow> file_used w + header_size \<le> file_size w \<and>
        slice (content w) (file_used w) header_size = replicate header_size 0) \<and>
     (\<not> fd w \<longrightarrow> file_used w = 0 \<and> file_size w = 0)"

lemma append_ensure_file_ok:
  assumes "append_ensure_file env w = Some w1" "writer_inv w" "\<not> poisoned w" "opened w"
  shows "fd w1" "writer_inv w1" "log_bytes w1 = log_bytes w" "\<not> poisoned w1" "opened w1"
proof -
  have r: "map (\<lambda>i. 0) [0..<n] = replicate n (0 :: u8)" for n by (simp add: map_replicate_const)
  show "fd w1" "writer_inv w1" "log_bytes w1 = log_bytes w" "\<not> poisoned w1" "opened w1"
    using assms
    by (auto simp: append_ensure_file_def create_file_def writer_inv_def log_bytes_def slice_def r
        TRUNC_SIZE_def split: if_splits)
qed

lemma TRUNC_round_up: "e \<le> (e div TRUNC_SIZE + 1) * TRUNC_SIZE"
  using dividend_less_times_div [of TRUNC_SIZE e] by (simp add: TRUNC_SIZE_def algebra_simps)

lemma append_resize_ok:
  assumes "append_resize env n w = Some w1" "writer_inv w" "fd w"
  shows "fd w1 \<and> content w1 = content w \<and> file_used w1 = file_used w \<and> poisoned w1 = poisoned w \<and>
    opened w1 = opened w \<and> file_used w1 + n + header_size \<le> file_size w1"
  using assms TRUNC_round_up [of "file_used w + n + header_size"]
  by (auto simp: append_resize_def Let_def split: if_splits)

lemma append_write_cases:
  assumes "append_write env data w = (r, w')" "fd w" "file_used w + length data + header_size \<le> file_size w"
  shows "(r = Appended \<and> writer_inv w' \<and> log_bytes w' = log_bytes w @ data \<and> fd w' \<and>
            poisoned w' = poisoned w \<and> opened w' = opened w) \<or>
         (r = Threw \<and> poisoned w' \<and> slice (content w') 0 (file_used w) = log_bytes w)"
proof -
  obtain ok ios f where a: "write_all_at data (file_used w) (writes env) (content w) = ((ok, ios), f)"
    by (metis surj_pair)
  obtain ok' ios' f' where b:
    "write_all_at (replicate header_size 0) (file_used w + length data) ios f = ((ok', ios'), f')"
    by (metis surj_pair)
  have kept: "slice f' 0 (file_used w) = log_bytes w" "slice f 0 (file_used w) = log_bytes w"
    using write_all_at_before [OF a] write_all_at_before [OF b] by (auto simp: log_bytes_def intro!: slice_cong)
  have ok: "writer_inv (w \<lparr> content := f', file_used := file_used w + length data \<rparr>) \<and>
      log_bytes (w \<lparr> content := f', file_used := file_used w + length data \<rparr>) = log_bytes w @ data"
    if "ok" "ok'"
  proof -
    have f: "f = patch (content w) (file_used w) data" using write_all_at_ok [of data "file_used w" "writes env" "content w" ios f] a that by simp
    have f': "f' = patch f (file_used w + length data) (replicate header_size 0)"
      using write_all_at_ok [of "replicate header_size 0" "file_used w + length data" ios f ios' f'] b that
      by (simp del: replicate.simps)
    have "slice f' (file_used w) (length data) = data"
    proof -
      have "slice f' (file_used w) (length data) = slice f (file_used w) (length data)"
        by (rule slice_cong) (simp add: f' patch_def)
      then show ?thesis by (simp add: f slice_patch_same)
    qed
    then show ?thesis
      using kept(1) slice_add [of f' 0 "file_used w" "length data"] assms(2,3)
        slice_patch_same [of f "file_used w + length data" "replicate header_size 0"]
      by (simp add: writer_inv_def log_bytes_def f')
  qed
  show ?thesis using assms(1,2) a b ok kept
    by (auto simp: append_write_def retire_def close_file_def split: if_splits)
qed

lemma append_cases:
  assumes "append env data w = (r, w')" "writer_inv w"
  shows "(r = Appended \<and> writer_inv w' \<and> log_bytes w' = log_bytes w @ data \<and> \<not> poisoned w') \<or>
         (r = Refused \<and> writer_inv w' \<and> log_bytes w' = log_bytes w \<and> poisoned w' = poisoned w) \<or>
         (r = Threw \<and> poisoned w')"
proof (cases "poisoned w \<or> \<not> opened w \<or> data = []")
  case True
  then show ?thesis using assms by (auto simp: append_def split: if_splits)
next
  case F: False
  show ?thesis
  proof (cases "append_ensure_file env w")
    case None
    then have "\<not> fd w" by (auto simp: append_ensure_file_def split: if_splits)
    then show ?thesis using None F assms by (auto simp: append_def close_file_def writer_inv_def log_bytes_def)
  next
    case (Some w1)
    have w1: "fd w1" "writer_inv w1" "log_bytes w1 = log_bytes w" "\<not> poisoned w1"
      using append_ensure_file_ok [OF Some assms(2)] F by auto
    show ?thesis
    proof (cases "append_resize env (length data) w1")
      case None
      then show ?thesis using Some F assms(1) by (auto simp: append_def retire_def close_file_def)
    next
      case (Some w2)
      note r = append_resize_ok [OF Some w1(2,1)]
      have "append_write env data w2 = (r, w')"
        using assms(1) F Some \<open>append_ensure_file env w = Some w1\<close> by (simp add: append_def)
      from append_write_cases [OF this] show ?thesis using r w1 by (auto simp: log_bytes_def)
    qed
  qed
qed

section \<open>Sequences of appends\<close>

fun append_all :: "(environment \<times> bytes) list \<Rightarrow> LocalWalWriter \<Rightarrow> append_result list \<times> LocalWalWriter" where
  "append_all [] w = ([], w)"
| "append_all ((env, d) # ds) w = (case append env d w of (r, w') \<Rightarrow> case append_all ds w' of (rs, w'') \<Rightarrow> (r # rs, w''))"

fun accepted :: "append_result list \<Rightarrow> bytes list \<Rightarrow> bytes" where
  "accepted (Appended # rs) (d # ds) = d @ accepted rs ds"
| "accepted (r # rs) (d # ds) = accepted rs ds"
| "accepted _ _ = []"



end
