(* ===== verification/Write_Transactions.thy ===== *)
theory Write_Transactions
  imports Timestamp_Lease Wal_Writer
begin

text \<open>
  The write transactions (\<open>src/transaction\<close>): \<open>SnapshotCowWriteTransaction\<close>, \<open>CurrentCowWriteTransaction\<close>
  with its \<open>CurrentGraphWriteGuard\<close>, \<open>MvccInsertTransaction\<close> and \<open>InPlaceCompactionTransaction\<close>, and the
  state of \<open>CowGraphWorkspace\<close>. A transaction composes the timestamp lease, the snapshot store, the log
  writer and the graph; the calls it makes to them are recorded in order, and what they answer is the
  environment of a commit. An operation ends with a return value, with an exception, which leaves the
  transaction to its destructor, or with the end of the process (\<open>LOG(FATAL)\<close> and failed checks).
\<close>

section \<open>Calls and results\<close>

datatype txn_call =
    VM vm_request
  | PrepareSnapshot u64
  | DiscardPrepared
  | PublishPrepared nat
  | ReplaceCurrent u64
  | AppendLog bytes append_result
  | IngestRecord bytes
  | IngestFailed bytes
  | CompactGraph
  | CompactFailed
  | Unpin
  | ReleaseInsert nat
  | ReleaseCompact nat
  | RevertCompact nat

datatype 's txn_result = Returned 's bool | Raised 's | Terminated | Undefined

type_synonym 's traced = "txn_call list \<times> 's txn_result"

definition emit :: "txn_call list \<Rightarrow> 's traced \<Rightarrow> 's traced" where "emit cs r = (cs @ fst r, snd r)"

text \<open>A call on the lease: a failed check ends the process.\<close>

definition lease_do :: "lease_result \<Rightarrow> (UpdateTimestampLease \<Rightarrow> 's traced) \<Rightarrow> 's traced" where
  "lease_do r k = (case r of Inl e \<Rightarrow> ([], Terminated) | Inr (l, reqs) \<Rightarrow> emit (map VM reqs) (k l))"

definition then_do :: "'s traced \<Rightarrow> ('s \<Rightarrow> bool \<Rightarrow> 's traced) \<Rightarrow> 's traced" where
  "then_do r k = (case snd r of Returned t b \<Rightarrow> emit (fst r) (k t b) | _ \<Rightarrow> r)"

text \<open>An operation followed by the destructor: its calls, and how the operation ended.\<close>

definition with_destructor :: "('s \<Rightarrow> 's traced) \<Rightarrow> 's traced \<Rightarrow> 's traced" where
  "with_destructor d r = (case snd r of
     Returned t b \<Rightarrow> emit (fst r) (fst (d t), Returned t b)
   | Raised t \<Rightarrow> emit (fst r) (fst (d t), Raised t)
   | _ \<Rightarrow> r)"

definition lease_active :: "UpdateTimestampLease \<Rightarrow> bool" where
  "lease_active l \<longleftrightarrow> UpdateTimestampLease.timestamp l \<noteq> kInactiveTimestamp"

section \<open>The workspace\<close>

record CowGraphWorkspace =
  cow_graph :: "nat option"
  base_planning_generation :: u64
  logical_redo :: WalBuilder
  bulk_mutation_changed :: bool
  transient_mutation_changed :: bool
  bulk_vertex_tables :: "nat list"
  bulk_edge_tables :: "nat list"

definition workspace_new :: "nat \<Rightarrow> u64 \<Rightarrow> CowGraphWorkspace" where
  "workspace_new g pg = \<lparr> cow_graph = Some g, base_planning_generation = pg, logical_redo = WalBuilder_init,
     bulk_mutation_changed = False, transient_mutation_changed = False, bulk_vertex_tables = [], bulk_edge_tables = [] \<rparr>"

definition MarkBulkVertexTableForCheckpoint :: "nat \<Rightarrow> CowGraphWorkspace \<Rightarrow> CowGraphWorkspace" where
  "MarkBulkVertexTableForCheckpoint l w =
     w \<lparr> bulk_mutation_changed := True,
         bulk_vertex_tables := (if l \<in> set (bulk_vertex_tables w) then bulk_vertex_tables w else bulk_vertex_tables w @ [l]) \<rparr>"

definition MarkBulkEdgeTableForCheckpoint :: "nat \<Rightarrow> CowGraphWorkspace \<Rightarrow> CowGraphWorkspace" where
  "MarkBulkEdgeTableForCheckpoint e w =
     w \<lparr> bulk_mutation_changed := True,
         bulk_edge_tables := (if e \<in> set (bulk_edge_tables w) then bulk_edge_tables w else bulk_edge_tables w @ [e]) \<rparr>"

definition RemoveBulkVertexFinalizationTarget :: "nat \<Rightarrow> CowGraphWorkspace \<Rightarrow> CowGraphWorkspace" where
  "RemoveBulkVertexFinalizationTarget l w = w \<lparr> bulk_vertex_tables := filter (\<lambda>x. x \<noteq> l) (bulk_vertex_tables w) \<rparr>"

definition RemoveBulkEdgeFinalizationTarget :: "nat \<Rightarrow> CowGraphWorkspace \<Rightarrow> CowGraphWorkspace" where
  "RemoveBulkEdgeFinalizationTarget e w = w \<lparr> bulk_edge_tables := filter (\<lambda>x. x \<noteq> e) (bulk_edge_tables w) \<rparr>"

definition HasDurableMutation :: "CowGraphWorkspace \<Rightarrow> bool" where
  "HasDurableMutation w \<longleftrightarrow> bulk_mutation_changed w \<or> op_num (logical_redo w) \<noteq> 0 \<or> content_size (logical_redo w) \<noteq> 0"

definition PlanningChanged :: "CowGraphWorkspace \<Rightarrow> bool" where
  "PlanningChanged w \<longleftrightarrow> schema_changed (logical_redo w) \<or> bulk_mutation_changed w \<or> transient_mutation_changed w"

definition workspace_Reset :: "CowGraphWorkspace \<Rightarrow> CowGraphWorkspace" where
  "workspace_Reset w = w \<lparr> logical_redo := builder_clear (logical_redo w), bulk_mutation_changed := False,
     transient_mutation_changed := False, bulk_vertex_tables := [], bulk_edge_tables := [], cow_graph := None \<rparr>"

text \<open>The planning generation a commit installs; \<open>None\<close> when the generations are used up.\<close>

definition committed_generation :: "CowGraphWorkspace \<Rightarrow> u64 option" where
  "committed_generation w =
     (if PlanningChanged w \<and> base_planning_generation w = - 1 then None
      else Some (base_planning_generation w + (if PlanningChanged w then 1 else 0)))"

section \<open>SnapshotCowWriteTransaction\<close>

datatype prepare_result = PreparedSlot nat | PrepareFails | PrepareThrows

record SnapshotCowWriteTransaction =
  s_workspace :: CowGraphWorkspace
  s_lease :: UpdateTimestampLease
  prepared_snapshot :: "nat option"

definition s_release :: "nat option \<Rightarrow> bool \<Rightarrow> SnapshotCowWriteTransaction \<Rightarrow> SnapshotCowWriteTransaction traced" where
  "s_release installed b t = lease_do (Finish installed (s_lease t))
     (\<lambda>l. ([], Returned (t \<lparr> s_workspace := workspace_Reset (s_workspace t), s_lease := l \<rparr>) b))"

definition s_Abort :: "bool \<Rightarrow> SnapshotCowWriteTransaction \<Rightarrow> SnapshotCowWriteTransaction traced" where
  "s_Abort b t = emit (if prepared_snapshot t = None then [] else [DiscardPrepared])
     (let t' = t \<lparr> prepared_snapshot := None \<rparr> in
      if lease_active (s_lease t') then s_release None b t' else ([], Returned t' b))"

definition s_PrepareCommit :: "prepare_result \<Rightarrow> SnapshotCowWriteTransaction \<Rightarrow> SnapshotCowWriteTransaction traced" where
  "s_PrepareCommit prep t =
     (let redo = logical_redo (s_workspace t) in
      if \<not> lease_active (s_lease t) then ([], Returned t True)
      else if op_num redo = 0 \<and> content_size redo = 0 then s_release None True t
      else case committed_generation (s_workspace t) of None \<Rightarrow> s_Abort False t
      | Some pg \<Rightarrow> (case prep of
          PrepareFails \<Rightarrow> s_Abort False t
        | PrepareThrows \<Rightarrow> ([], Raised t)
        | PreparedSlot gen \<Rightarrow> emit [PrepareSnapshot pg]
            (case finalize (of_nat (UpdateTimestampLease.timestamp (s_lease t))) redo of Inl e \<Rightarrow> ([], Undefined)
             | Inr redo' \<Rightarrow> ([], Returned (t \<lparr> s_workspace := (s_workspace t) \<lparr> logical_redo := redo' \<rparr>, prepared_snapshot := Some gen \<rparr>) True))))"

definition s_CommitPrepared :: "append_result \<Rightarrow> SnapshotCowWriteTransaction \<Rightarrow> SnapshotCowWriteTransaction traced" where
  "s_CommitPrepared app t =
     (if \<not> lease_active (s_lease t) then ([], Returned t True)
      else case prepared_snapshot t of None \<Rightarrow> s_Abort False t
      | Some gen \<Rightarrow> emit [AppendLog (arc (logical_redo (s_workspace t))) app] (case app of
          Refused \<Rightarrow> s_Abort False t
        | Threw \<Rightarrow> ([], Terminated)
        | Appended \<Rightarrow> lease_do (BeginCommit (s_lease t)) (\<lambda>l.
            emit [PublishPrepared gen] (s_release (Some gen) True (t \<lparr> s_lease := l, prepared_snapshot := None \<rparr>)))))"

definition s_Commit :: "prepare_result \<Rightarrow> append_result \<Rightarrow> SnapshotCowWriteTransaction \<Rightarrow> SnapshotCowWriteTransaction traced" where
  "s_Commit prep app t = then_do (s_PrepareCommit prep t)
     (\<lambda>t' ok. if \<not> ok then ([], Returned t' False) else s_CommitPrepared app t')"

section \<open>CurrentGraphWriteGuard and CurrentCowWriteTransaction\<close>

record CurrentGraphWriteGuard =
  g_lease :: UpdateTimestampLease
  g_snapshot :: "nat option"

text \<open>\<open>acquired\<close> is the timestamp and \<open>gen\<close> the generation of the slot that the pin returned.\<close>

definition guard_Acquire :: "nat \<Rightarrow> nat \<Rightarrow> (txn_call list \<times> CurrentGraphWriteGuard) res" where
  "guard_Acquire acquired gen = res_bind (lease_acquire acquired) (\<lambda>l.
     res_bind (MakeUpdateExclusive l) (\<lambda>(l', reqs). Inr (map VM reqs, \<lparr> g_lease = l', g_snapshot = Some gen \<rparr>)))"

definition cguard_release :: "nat option \<Rightarrow> CurrentGraphWriteGuard \<Rightarrow> (CurrentGraphWriteGuard \<Rightarrow> 's traced) \<Rightarrow> 's traced" where
  "cguard_release installed g k =
     (if \<not> lease_active (g_lease g) then k g
      else emit (if g_snapshot g = None then [] else [Unpin])
        (lease_do (Finish installed (g_lease g)) (\<lambda>l. k \<lparr> g_lease = l, g_snapshot = None \<rparr>)))"

record CurrentCowWriteTransaction =
  c_guard :: CurrentGraphWriteGuard
  c_workspace :: CowGraphWorkspace

definition current_Begin :: "nat \<Rightarrow> u64 \<Rightarrow> CurrentGraphWriteGuard \<Rightarrow> CurrentCowWriteTransaction" where
  "current_Begin clone pg g = \<lparr> c_guard = g, c_workspace = workspace_new clone pg \<rparr>"

definition c_release :: "bool \<Rightarrow> bool \<Rightarrow> CurrentCowWriteTransaction \<Rightarrow> CurrentCowWriteTransaction traced" where
  "c_release committed b t =
     (if committed \<and> g_snapshot (c_guard t) = None then ([], Undefined)
      else cguard_release (if committed then g_snapshot (c_guard t) else None) (c_guard t)
        (\<lambda>g. ([], Returned \<lparr> c_guard = g, c_workspace = workspace_Reset (c_workspace t) \<rparr> b)))"

definition c_Abort :: "bool \<Rightarrow> CurrentCowWriteTransaction \<Rightarrow> CurrentCowWriteTransaction traced" where
  "c_Abort b t = (if lease_active (g_lease (c_guard t)) then c_release False b t else ([], Returned t b))"

definition c_PrepareCommit :: "bool \<Rightarrow> CurrentCowWriteTransaction \<Rightarrow> u64 option" where
  "c_PrepareCommit rebuilt t = (case committed_generation (c_workspace t) of None \<Rightarrow> None
     | Some pg \<Rightarrow> if rebuilt then Some pg else None)"

definition CommitTransient :: "bool \<Rightarrow> CurrentCowWriteTransaction \<Rightarrow> CurrentCowWriteTransaction traced" where
  "CommitTransient rebuilt t =
     (if \<not> lease_active (g_lease (c_guard t)) then ([], Returned t True)
      else if \<not> transient_mutation_changed (c_workspace t) then c_Abort False t
      else if HasDurableMutation (c_workspace t) then c_Abort False t
      else case c_PrepareCommit rebuilt t of None \<Rightarrow> c_Abort False t
      | Some pg \<Rightarrow> emit [ReplaceCurrent pg] (c_release True True t))"

definition c_Commit :: "bool \<Rightarrow> append_result \<Rightarrow> CurrentCowWriteTransaction \<Rightarrow> CurrentCowWriteTransaction traced" where
  "c_Commit rebuilt app t =
     (let redo = logical_redo (c_workspace t) in
      if \<not> lease_active (g_lease (c_guard t)) then ([], Returned t True)
      else if bulk_mutation_changed (c_workspace t) then c_Abort False t
      else if op_num redo = 0
        then if transient_mutation_changed (c_workspace t) then CommitTransient rebuilt t else c_release False True t
      else case c_PrepareCommit rebuilt t of None \<Rightarrow> c_Abort False t
      | Some pg \<Rightarrow> (case finalize (of_nat (UpdateTimestampLease.timestamp (g_lease (c_guard t)))) redo of Inl e \<Rightarrow> ([], Undefined)
        | Inr redo' \<Rightarrow>
            let t' = t \<lparr> c_workspace := (c_workspace t) \<lparr> logical_redo := redo' \<rparr> \<rparr> in
            emit [AppendLog (arc redo') app] (case app of
              Refused \<Rightarrow> c_Abort False t'
            | Threw \<Rightarrow> ([], Terminated)
            | Appended \<Rightarrow> emit [ReplaceCurrent pg] (c_release True True t'))))"

section \<open>MvccInsertTransaction\<close>

record MvccInsertTransaction =
  i_pinned :: bool
  i_ts :: nat
  i_arc :: bytes

datatype ingest_result = Ingested | IngestThrows | IngestAborts

definition unpin_if :: "bool \<Rightarrow> txn_call list" where "unpin_if p = (if p then [Unpin] else [])"

definition insert_new :: "nat \<Rightarrow> MvccInsertTransaction" where
  "insert_new ts = \<lparr> i_pinned = True, i_ts = ts, i_arc = replicate header_size 0 \<rparr>"

definition i_finish :: "bool \<Rightarrow> MvccInsertTransaction \<Rightarrow> MvccInsertTransaction traced" where
  "i_finish b t = (unpin_if (i_pinned t) @ [ReleaseInsert (i_ts t)],
     Returned \<lparr> i_pinned = False, i_ts = kInactiveTimestamp, i_arc = [] \<rparr> b)"

definition i_Abort :: "bool \<Rightarrow> MvccInsertTransaction \<Rightarrow> MvccInsertTransaction traced" where
  "i_Abort b t = (if i_ts t \<noteq> kInactiveTimestamp then i_finish b t else ([], Returned t b))"

definition insert_record :: "MvccInsertTransaction \<Rightarrow> bytes" where
  "insert_record t = put_WalHeader \<lparr> WalHeader.timestamp = of_nat (i_ts t), update_type = False,
     rec_length = int (length (i_arc t) - header_size) \<rparr> @ drop header_size (i_arc t)"

definition i_Commit :: "append_result \<Rightarrow> ingest_result \<Rightarrow> MvccInsertTransaction \<Rightarrow> MvccInsertTransaction traced" where
  "i_Commit app ing t =
     (if i_ts t = kInactiveTimestamp then ([], Returned t True)
      else if length (i_arc t) = header_size then i_finish True t
      else if length (i_arc t) < header_size then ([], Undefined)
      else let t' = t \<lparr> i_arc := insert_record t \<rparr> in
        emit [AppendLog (i_arc t') app] (case app of
          Refused \<Rightarrow> i_Abort False t'
        | Threw \<Rightarrow> ([], Terminated)
        | Appended \<Rightarrow> (case ing of
            Ingested \<Rightarrow> emit [IngestRecord (drop header_size (i_arc t'))] (i_finish True t')
          | IngestThrows \<Rightarrow> ([IngestFailed (drop header_size (i_arc t'))], Raised t')
          | IngestAborts \<Rightarrow> ([IngestFailed (drop header_size (i_arc t'))], Terminated))))"

section \<open>InPlaceCompactionTransaction\<close>

record InPlaceCompactionTransaction =
  k_pinned :: bool
  k_ts :: nat

definition compaction_record :: "nat \<Rightarrow> bytes" where
  "compaction_record ts = put_WalHeader \<lparr> WalHeader.timestamp = of_nat ts, update_type = True, rec_length = 0 \<rparr>"

definition k_Abort :: "bool \<Rightarrow> InPlaceCompactionTransaction \<Rightarrow> InPlaceCompactionTransaction traced" where
  "k_Abort b t = (unpin_if (k_pinned t) @ (if k_ts t \<noteq> kInactiveTimestamp then [RevertCompact (k_ts t)] else []),
     Returned \<lparr> k_pinned = False, k_ts = kInactiveTimestamp \<rparr> b)"

definition k_Commit :: "append_result \<Rightarrow> bool \<Rightarrow> InPlaceCompactionTransaction \<Rightarrow> InPlaceCompactionTransaction traced" where
  "k_Commit app compacts t =
     (if k_ts t = kInactiveTimestamp then (unpin_if (k_pinned t), Returned (t \<lparr> k_pinned := False \<rparr>) True)
      else emit [AppendLog (compaction_record (k_ts t)) app] (case app of
          Refused \<Rightarrow> k_Abort False t
        | Threw \<Rightarrow> ([], Terminated)
        | Appended \<Rightarrow> if compacts
            then ([CompactGraph] @ unpin_if (k_pinned t) @ [ReleaseCompact (k_ts t)],
                  Returned \<lparr> k_pinned = False, k_ts = kInactiveTimestamp \<rparr> True)
            else ([CompactFailed], Raised t)))"

section \<open>What the calls must satisfy\<close>

text \<open>Calls that make changes visible or start to, and calls that end a timestamp.\<close>

fun changes_graph :: "txn_call \<Rightarrow> bool" where
  "changes_graph (PublishPrepared _) = True"
| "changes_graph (ReplaceCurrent _) = True"
| "changes_graph (IngestRecord _) = True"
| "changes_graph (IngestFailed _) = True"
| "changes_graph CompactGraph = True"
| "changes_graph CompactFailed = True"
| "changes_graph _ = False"

fun ends_timestamp :: "nat \<Rightarrow> txn_call \<Rightarrow> bool" where
  "ends_timestamp ts (VM (FinishReq t _)) \<longleftrightarrow> t = ts"
| "ends_timestamp ts (ReleaseInsert t) \<longleftrightarrow> t = ts"
| "ends_timestamp ts (ReleaseCompact t) \<longleftrightarrow> t = ts"
| "ends_timestamp ts (RevertCompact t) \<longleftrightarrow> t = ts"
| "ends_timestamp ts _ = False"

text \<open>A change of the graph comes after a record of the transaction's timestamp was appended.\<close>

fun logged_before :: "nat \<Rightarrow> bool \<Rightarrow> txn_call list \<Rightarrow> bool" where
  "logged_before ts logged [] = True"
| "logged_before ts logged (AppendLog r Appended # cs) = logged_before ts (logged \<or> WalHeader.timestamp (get_WalHeader r) = of_nat ts) cs"
| "logged_before ts logged (c # cs) = ((changes_graph c \<longrightarrow> logged) \<and> logged_before ts logged cs)"

text \<open>
  The timestamp is ended exactly once, by the last call and after every pin is given back, unless the process
  ended; then it is not ended, and nothing was published.
\<close>

definition ends_once :: "nat \<Rightarrow> 's traced \<Rightarrow> bool" where
  "ends_once ts r = (case snd r of
     Undefined \<Rightarrow> False
   | Terminated \<Rightarrow> \<not> list_ex (ends_timestamp ts) (fst r)
   | _ \<Rightarrow> fst r \<noteq> [] \<and> ends_timestamp ts (last (fst r)) \<and> \<not> list_ex (ends_timestamp ts) (butlast (fst r)))"

fun record_accepted :: "txn_call \<Rightarrow> bool" where
  "record_accepted (AppendLog r Appended) = True"
| "record_accepted _ = False"

section \<open>Lemmas\<close>

lemma header_timestamp:
  "WalHeader.timestamp (get_WalHeader (put_WalHeader \<lparr> WalHeader.timestamp = w, update_type = u, rec_length = n \<rparr> @ rest)) = w"
  by (simp add: get_WalHeader_append get_put_WalHeader)

lemma header_timestamp_alone:
  "WalHeader.timestamp (get_WalHeader (put_WalHeader \<lparr> WalHeader.timestamp = w, update_type = u, rec_length = n \<rparr>)) = w"
  by (simp add: get_put_WalHeader)

definition fresh_snapshot :: "nat \<Rightarrow> SnapshotCowWriteTransaction \<Rightarrow> bool" where
  "fresh_snapshot ts t \<longleftrightarrow> ts \<noteq> kInactiveTimestamp \<and>
     s_lease t = \<lparr> UpdateTimestampLease.timestamp = ts, commit_started = False \<rparr> \<and> prepared_snapshot t = None \<and>
     header_size \<le> length (arc (logical_redo (s_workspace t)))"

definition fresh_current :: "nat \<Rightarrow> CurrentCowWriteTransaction \<Rightarrow> bool" where
  "fresh_current ts t \<longleftrightarrow> ts \<noteq> kInactiveTimestamp \<and>
     g_lease (c_guard t) = \<lparr> UpdateTimestampLease.timestamp = ts, commit_started = True \<rparr> \<and> g_snapshot (c_guard t) \<noteq> None \<and>
     header_size \<le> length (arc (logical_redo (c_workspace t)))"

text \<open>What a commit of each kind does, branch by branch.\<close>

lemma s_Commit_cases:
  assumes "fresh_snapshot ts t"
  shows "s_Commit prep app t =
    (let redo = logical_redo (s_workspace t) in
     if op_num redo = 0 \<and> content_size redo = 0 then s_release None True t
     else case committed_generation (s_workspace t) of None \<Rightarrow> s_release None False t
     | Some pg \<Rightarrow> (case prep of PrepareFails \<Rightarrow> s_release None False t | PrepareThrows \<Rightarrow> ([], Raised t)
       | PreparedSlot gen \<Rightarrow>
           let rec = put_WalHeader \<lparr> WalHeader.timestamp = of_nat ts, update_type = True, rec_length = int (content_size redo) \<rparr> @ drop header_size (arc redo);
               t' = t \<lparr> s_workspace := (s_workspace t) \<lparr> logical_redo := redo \<lparr> arc := rec \<rparr> \<rparr> \<rparr> in
           emit [PrepareSnapshot pg, AppendLog rec app] (case app of
             Refused \<Rightarrow> emit [DiscardPrepared] (s_release None False t')
           | Threw \<Rightarrow> ([], Terminated)
           | Appended \<Rightarrow> emit [VM (BeginCommitReq ts), PublishPrepared gen]
               (s_release (Some gen) True (t' \<lparr> s_lease := \<lparr> UpdateTimestampLease.timestamp = ts, commit_started = True \<rparr> \<rparr>)))))"
proof -
  have l: "lease_active (s_lease t)" "s_lease t = \<lparr> UpdateTimestampLease.timestamp = ts, commit_started = False \<rparr>" "ts \<noteq> kInactiveTimestamp"
    "prepared_snapshot t = None" "\<not> length (arc (logical_redo (s_workspace t))) < header_size"
    using assms by (auto simp: fresh_snapshot_def lease_active_def)
  have n: "t \<lparr> prepared_snapshot := None \<rparr> = t" using l(4) by simp
  have rel: "s_release None b t = ([VM (FinishReq ts None)], Returned (t \<lparr> s_workspace := workspace_Reset (s_workspace t),
      s_lease := \<lparr> UpdateTimestampLease.timestamp = kInactiveTimestamp, commit_started = False \<rparr> \<rparr>) b)" for b
    using l by (simp add: s_release_def lease_do_def Finish_def emit_def)
  have abort: "s_Abort b t = s_release None b t" for b using l by (simp add: s_Abort_def emit_def n Let_def)
  show ?thesis
  proof (cases "op_num (logical_redo (s_workspace t)) = 0 \<and> content_size (logical_redo (s_workspace t)) = 0")
    case True
    then show ?thesis using l by (simp add: s_Commit_def s_PrepareCommit_def rel then_do_def s_CommitPrepared_def lease_active_def emit_def)
  next
    case False
    then have p: "s_PrepareCommit prep t = (case committed_generation (s_workspace t) of None \<Rightarrow> s_release None False t
      | Some pg \<Rightarrow> (case prep of
          PrepareFails \<Rightarrow> s_release None False t
        | PrepareThrows \<Rightarrow> ([], Raised t)
        | PreparedSlot gen \<Rightarrow> emit [PrepareSnapshot pg]
            (case finalize (of_nat ts) (logical_redo (s_workspace t)) of Inl e \<Rightarrow> ([], Undefined)
             | Inr redo' \<Rightarrow> ([], Returned (t \<lparr> s_workspace := (s_workspace t) \<lparr> logical_redo := redo' \<rparr>, prepared_snapshot := Some gen \<rparr>) True))))"
      using l by (auto simp: s_PrepareCommit_def abort split: option.split prepare_result.split)
    show ?thesis unfolding s_Commit_def p if_not_P [OF False] Let_def
      using l by (auto simp: rel then_do_def emit_def finalize_def content_size_def s_CommitPrepared_def lease_active_def lease_do_def BeginCommit_def
        s_Abort_def s_release_def Finish_def split: option.split prepare_result.split append_result.split)
  qed
qed

lemma c_release_fresh:
  assumes "fresh_current ts t" "g_snapshot (c_guard t) = Some gen"
  shows "c_release committed b (t \<lparr> c_workspace := w \<rparr>) = ([Unpin, VM (FinishReq ts (if committed then Some gen else None))],
    Returned \<lparr> c_guard = \<lparr> g_lease = \<lparr> UpdateTimestampLease.timestamp = kInactiveTimestamp, commit_started = False \<rparr>, g_snapshot = None \<rparr>,
      c_workspace = workspace_Reset w \<rparr> b)"
  using assms by (simp add: fresh_current_def c_release_def cguard_release_def lease_active_def lease_do_def Finish_def emit_def)

lemma c_Commit_cases:
  assumes "fresh_current ts t"
  shows "c_Commit rebuilt app t =
    (let w = c_workspace t; redo = logical_redo w in
     if bulk_mutation_changed w then c_release False False t
     else if op_num redo = 0 then
       (if \<not> transient_mutation_changed w then c_release False True t
        else if content_size redo \<noteq> 0 then c_release False False t
        else case c_PrepareCommit rebuilt t of None \<Rightarrow> c_release False False t
        | Some pg \<Rightarrow> emit [ReplaceCurrent pg] (c_release True True t))
     else case c_PrepareCommit rebuilt t of None \<Rightarrow> c_release False False t
     | Some pg \<Rightarrow>
         let rec = put_WalHeader \<lparr> WalHeader.timestamp = of_nat ts, update_type = True, rec_length = int (content_size redo) \<rparr> @ drop header_size (arc redo);
             t' = t \<lparr> c_workspace := w \<lparr> logical_redo := redo \<lparr> arc := rec \<rparr> \<rparr> \<rparr> in
         emit [AppendLog rec app] (case app of
             Refused \<Rightarrow> c_release False False t'
           | Threw \<Rightarrow> ([], Terminated)
           | Appended \<Rightarrow> emit [ReplaceCurrent pg] (c_release True True t')))"
proof -
  have l: "lease_active (g_lease (c_guard t))" "g_lease (c_guard t) = \<lparr> UpdateTimestampLease.timestamp = ts, commit_started = True \<rparr>"
    "\<not> length (arc (logical_redo (c_workspace t))) < header_size"
    using assms by (auto simp: fresh_current_def lease_active_def)
  have abort: "c_Abort b t = c_release False b t" "c_Abort b (t \<lparr> c_workspace := w \<rparr>) = c_release False b (t \<lparr> c_workspace := w \<rparr>)" for b w
    using l(1) by (simp_all add: c_Abort_def)
  show ?thesis using l
    by (auto simp: c_Commit_def CommitTransient_def abort HasDurableMutation_def finalize_def content_size_def Let_def
      split: option.split append_result.split)
qed

lemma snapshot_write_ahead:
  assumes "fresh_snapshot ts t"
  shows "logged_before ts False (fst (with_destructor (s_Abort False) (s_Commit prep app t))) \<and>
    ends_once ts (with_destructor (s_Abort False) (s_Commit prep app t))"
  using assms unfolding s_Commit_cases [OF assms] fresh_snapshot_def
  by (auto simp: Let_def s_release_def s_Abort_def emit_def lease_do_def Finish_def with_destructor_def lease_active_def ends_once_def header_timestamp
    split: option.split prepare_result.split append_result.split)

lemma current_write_ahead:
  assumes "fresh_current ts t"
  shows "(op_num (logical_redo (c_workspace t)) \<noteq> 0 \<longrightarrow> logged_before ts False (fst (with_destructor (c_Abort False) (c_Commit rebuilt app t)))) \<and>
    ends_once ts (with_destructor (c_Abort False) (c_Commit rebuilt app t))"
proof -
  obtain gen where g: "g_snapshot (c_guard t) = Some gen" using assms by (auto simp: fresh_current_def)
  note rel = c_release_fresh [OF assms g] c_release_fresh [OF assms g, of _ _ "c_workspace t", simplified]
  show ?thesis unfolding c_Commit_cases [OF assms] using assms
    by (auto simp: Let_def rel c_Abort_def emit_def with_destructor_def lease_active_def ends_once_def header_timestamp fresh_current_def
      split: option.split append_result.split)
qed

lemma insert_write_ahead:
  assumes "ts \<noteq> kInactiveTimestamp" "header_size \<le> length bs"
  shows "let r = with_destructor (i_Abort False) (i_Commit app ing \<lparr> i_pinned = True, i_ts = ts, i_arc = bs \<rparr>) in
    logged_before ts False (fst r) \<and> ends_once ts r"
  using assms by (cases app; cases ing) (auto simp: i_Commit_def i_finish_def i_Abort_def unpin_if_def insert_record_def emit_def
    with_destructor_def ends_once_def header_timestamp Let_def)

lemma compaction_write_ahead:
  assumes "ts \<noteq> kInactiveTimestamp"
  shows "let r = with_destructor (k_Abort False) (k_Commit app compacts \<lparr> k_pinned = True, k_ts = ts \<rparr>) in
    logged_before ts False (fst r) \<and> ends_once ts r"
  using assms by (cases app; cases compacts) (auto simp: k_Commit_def k_Abort_def unpin_if_def compaction_record_def emit_def
    with_destructor_def ends_once_def header_timestamp_alone Let_def)

section \<open>Properties\<close>


definition sample_redo :: WalBuilder where
  "sample_redo = \<lparr> arc = replicate header_size 0 @ [7], op_num = 1, schema_changed = False \<rparr>"

definition sample_snapshot_txn :: SnapshotCowWriteTransaction where
  "sample_snapshot_txn = \<lparr> s_workspace = (workspace_new 0 3) \<lparr> logical_redo := sample_redo \<rparr>,
     s_lease = \<lparr> UpdateTimestampLease.timestamp = 5, commit_started = False \<rparr>, prepared_snapshot = None \<rparr>"

definition sample_current_txn :: CurrentCowWriteTransaction where
  "sample_current_txn = \<lparr> c_guard = \<lparr> g_lease = \<lparr> UpdateTimestampLease.timestamp = 5, commit_started = True \<rparr>, g_snapshot = Some 2 \<rparr>,
     c_workspace = (workspace_new 0 3) \<lparr> logical_redo := sample_redo \<rparr> \<rparr>"

lemma samples_fresh: "fresh_snapshot 5 sample_snapshot_txn" "fresh_current 5 sample_current_txn"
  by (simp_all add: fresh_snapshot_def fresh_current_def sample_snapshot_txn_def sample_current_txn_def sample_redo_def workspace_new_def kInactiveTimestamp_def)




end
