(* ===== verification/VM_Coupling.thy ===== *)
theory VM_Coupling
  imports Version_Manager Gate_Leases
begin

text \<open>
  How the methods of the version manager use the gate. \<open>vg\<close> gives the gate control points
  possible at each point of a method; every method step keeps it, makes only the gate calls
  the protocol allows, and changes the shared data in one of the ways of \<open>vm_effect\<close>.
\<close>

section \<open>Version-manager threads and their gate calls\<close>

text \<open>Where a thread's gate control point can be at each point of a method.\<close>

fun vg :: "vthread \<Rightarrow> gthread \<Rightarrow> bool" where
  "vg VIdle g = (g = Idle)"
| "vg RdAcquire g = (g = SharedHeld \<or> (\<exists>pc. pc \<noteq> SUndo \<and> g = AcqShared False pc))"
| "vg RdLoad g = (g = SharedHeld)"
| "vg (RdHeld view) g = (g = SharedHeld)"
| "vg RdRelease g = (g = Idle \<or> (\<exists>pc. g = RelShared pc))"
| "vg (Acquire Ins m st) g = (g = InserterHeld \<or> (\<exists>pc. g = AcqInserter pc))"
| "vg (Acquire Upd m AEnter) g =
     (g = Owned kInsertsBlocked False False \<or>
      (case m of Block \<Rightarrow> (\<exists>pc. g = Entering kInsertsBlocked pc)
       | Until \<Rightarrow> g = Idle \<or> (\<exists>pc. g = EnteringUntil kInsertsBlocked pc)
       | Try \<Rightarrow> g = Idle \<or> (\<exists>pc. g = TryEntering kInsertsBlocked pc)))"
| "vg (Acquire Upd m ADrain1) g =
     ((\<exists>ins. g = Owned kInsertsBlocked ins False) \<or> g = ProbeIns kInsertsBlocked False \<or>
      (\<exists>timed. g = WaitIns kInsertsBlocked False timed))"
| "vg (Acquire Upd m ADrain2) g = False"
| "vg (Acquire Com m AEnter) g =
     (g = Owned kAllBlocked False False \<or> (\<exists>pc. g = Entering kAllBlocked pc))"
| "vg (Acquire Com m ADrain1) g =
     (g = Owned kAllBlocked False True \<or> g = WaitRd kAllBlocked False False)"
| "vg (Acquire Com m ADrain2) g =
     (g = Owned kAllBlocked True True \<or> g = WaitIns kAllBlocked True False)"
| "vg (Reserve r pc) g = (case r of Ins \<Rightarrow> g = InserterHeld
     | Upd \<Rightarrow> g = Owned kInsertsBlocked True False | Com \<Rightarrow> g = Owned kAllBlocked True True)"
| "vg (GiveBack r e) g = (g = Idle \<or> (case r of Ins \<Rightarrow> (\<exists>pc. g = RelInserter pc)
     | Upd \<Rightarrow> (\<exists>ins pc. g = Transition kInsertsBlocked kOpen ins False pc) \<or>
              (\<exists>pc. g = Reopening kInsertsBlocked pc)
     | Com \<Rightarrow> (\<exists>pc. g = Transition kAllBlocked kOpen True True pc)))"
| "vg (Held r ts) g = (case r of Ins \<Rightarrow> g = InserterHeld
     | Upd \<Rightarrow> g = Owned kInsertsBlocked True False \<or>
              (\<exists>pc. g = Transition kInsertsBlocked kAllBlocked True False pc) \<or>
              (\<exists>rd. g = Owned kAllBlocked True rd) \<or> g = WaitRd kAllBlocked True False
     | Com \<Rightarrow> g = Owned kAllBlocked True True)"
| "vg (Complete r ts pc) g = (case r of Ins \<Rightarrow> g = InserterHeld
     | Upd \<Rightarrow> g = Owned kInsertsBlocked True False \<or> (\<exists>rd. g = Owned kAllBlocked True rd)
     | Com \<Rightarrow> g = Owned kAllBlocked True True)"
| "vg (Release r ts) g = (g = Idle \<or> (case r of Ins \<Rightarrow> (\<exists>pc. g = RelInserter pc)
     | Upd \<Rightarrow> (\<exists>ph pc. g = Reopening ph pc) \<or>
              (\<exists>pc. g = Transition kAllBlocked kOpen True True pc)
     | Com \<Rightarrow> (\<exists>pc. g = Transition kAllBlocked kOpen True True pc)))"
| "vg (VThrown e) g = True"

lemma run_inserter:
  "gate_run sp ex (AcqInserter c) w = (t', w') \<Longrightarrow>
     t' = InserterHeld \<or> t' = Failed RuntimeError \<or> (\<exists>c. t' = AcqInserter c)"
  "gate_run sp ex (RelInserter r) w = (t', w') \<Longrightarrow>
     t' = Idle \<or> t' = Failed InternalException \<or> (\<exists>r. t' = RelInserter r)"
  "gate_run sp ex InserterHeld w = (t', w') \<Longrightarrow> t' = InserterHeld"
proof -
  show "gate_run sp ex (AcqInserter c) w = (t', w') \<Longrightarrow>
     t' = InserterHeld \<or> t' = Failed RuntimeError \<or> (\<exists>c. t' = AcqInserter c)"
    by (cases c) (auto simp: gate_defs split: if_splits)
  show "gate_run sp ex (RelInserter r) w = (t', w') \<Longrightarrow>
     t' = Idle \<or> t' = Failed InternalException \<or> (\<exists>r. t' = RelInserter r)"
    by (cases r) (auto split: if_splits)
qed auto

lemma run_try_entering:
  "gate_run sp ex (TryEntering ph c) w = (t', w') \<Longrightarrow>
     t' = Owned ph False False \<or> t' = Idle \<or> (\<exists>c. t' = TryEntering ph c)"
  by (cases c) (auto simp: gate_defs split: if_splits)

lemma run_transition:
  "gate_run sp ex (Transition ph ph' ins rd c) w = (t', w') \<Longrightarrow>
     t' = (if ph' = kOpen then Idle else Owned ph' ins rd) \<or> t' = Failed InternalException \<or>
     (\<exists>c. t' = Transition ph ph' ins rd c)"
  by (cases c) (auto simp: gate_defs split: if_splits)

lemma run_probe: "gate_run sp ex (ProbeIns ph rd) w = (t', w') \<Longrightarrow> \<exists>ins. t' = Owned ph ins rd"
  by auto

lemma run_shared_untimed:
  assumes "gate_run sp ex (AcqShared False c) w = (t', w')" "c \<noteq> SUndo"
  shows "t' = SharedHeld \<or> t' = Failed RuntimeError \<or> (\<exists>c. c \<noteq> SUndo \<and> t' = AcqShared False c)"
  using assms by (cases c) (auto split: if_splits)

lemmas vg_run_dests = run_entering run_reopening run_entering_until run_waiting run_shared(2) run_stable
  run_inserter run_try_entering run_transition run_probe

lemma vg_gate_run:
  assumes "vg v g" "gate_run sp ex g w = (g', w')" "\<And>e. g' \<noteq> Failed e"
  shows "vg v g'"
  using assms
proof (cases v)
  case RdAcquire
  then show ?thesis using assms
    by (auto simp del: gate_run.simps dest!: run_shared_untimed vg_run_dests)
next
  case (Acquire r m st)
  then show ?thesis using assms
    by (cases r; cases m; cases st) (auto simp del: gate_run.simps dest!: vg_run_dests)
qed (auto simp del: gate_run.simps dest!: vg_run_dests split: wrole.splits)

lemmas vm_method_defs = acquire_read_operation_def release_read_operation_def
  acquire_insert_timestamp_def release_insert_timestamp_def reserve_update_timestamp_def
  acquire_update_timestamp_def acquire_update_timestamp_until_def try_acquire_update_timestamp_def
  begin_update_commit_def drain_readers_def finish_update_timestamp_def
  finish_update_and_reset_timeline_def acquire_compact_timestamp_def release_compact_timestamp_def
  revert_compact_timestamp_def

text \<open>What a method step does to the shared data.\<close>

fun quiet :: "vthread \<Rightarrow> bool" where
  "quiet (RdHeld _) = False"
| "quiet (Reserve _ _) = False"
| "quiet (Held _ _) = False"
| "quiet (Complete _ _ _) = False"
| "quiet (Release _ _) = False"
| "quiet _ = True"

fun thrown :: "vthread \<Rightarrow> neug_error option" where
  "thrown (VThrown e) = Some e"
| "thrown (GiveBack r e) = e"
| "thrown _ = None"

fun reserve_result :: "wrole \<Rightarrow> reservation \<Rightarrow> vthread" where
  "reserve_result r (RGo pc) = Reserve r pc"
| "reserve_result r (kReservedTs ts) = Held r ts"
| "reserve_result r (RThrow e) = VThrown e"
| "reserve_result r kWindowFull = GiveBack r (if r = Ins then None else Some InternalException)"
| "reserve_result r kExhausted = GiveBack r (Some RuntimeError)"

inductive vm_effect :: "nat \<Rightarrow> vthread \<Rightarrow> gthread \<Rightarrow> vmdata \<Rightarrow> vthread \<Rightarrow> vmdata \<Rightarrow> bool" for me where
  eff_quiet: "quiet v \<or> (\<exists>view. v = RdHeld view) \<or> (\<exists>r ts. v = Release r ts) \<Longrightarrow> quiet v'
              \<Longrightarrow> thrown v' = None \<or> thrown v' = Some TransactionTimeout \<or> thrown v' = thrown v
              \<Longrightarrow> vm_effect me v g d v' d"
| eff_stay: "vm_effect me v g d v d"
| eff_load: "vm_effect me RdLoad g d (RdHeld (published d)) d"
| eff_start: "quiet v \<Longrightarrow> vm_effect me v g d (Reserve r RvLoad) d"
| eff_reserve: "ReserveWriteTimestamp_step sp pc d = (res, d')
              \<Longrightarrow> vm_effect me (Reserve r pc) g d (reserve_result r res) d'"
| eff_begin: "d' = d \<or> r = Upd \<and> (\<exists>gen. d' = d \<lparr> generation := gen \<rparr>)
              \<Longrightarrow> vm_effect me (Held r ts) g d (Complete r ts CoMark) d'"
| eff_complete: "complete_write_timestamp_step me ts pc d = (Some pc', d')
              \<Longrightarrow> vm_effect me (Complete r ts pc) g d (Complete r ts pc') d'"
| eff_done: "complete_write_timestamp_step me ts pc d = (None, d')
              \<Longrightarrow> vm_effect me (Complete r ts pc) g d (Release r ts) d'"
| eff_reset: "g = Owned kAllBlocked True True \<Longrightarrow> write_ts d = u32_succ ts
              \<Longrightarrow> vm_effect me (Held Upd ts) g d (Release Upd ts)
                    (d \<lparr> write_ts := 1, read_ts := 0, window := window_init,
                         published := (0, generation d) \<rparr>)"
| eff_check: "g = Owned kAllBlocked True True \<Longrightarrow> write_ts d \<noteq> u32_succ ts
              \<Longrightarrow> vm_effect me (Held Upd ts) g d (VThrown CheckFailed) d"

lemma vm_next_disj:
  assumes "vm_next me w v g d r"
  obtains "acquire_read_operation v g d = Some r" | "release_read_operation v g d = Some r"
  | sp where "acquire_insert_timestamp sp v g d = Some r" | "release_insert_timestamp me v g d = Some r"
  | sp where "reserve_update_timestamp sp v g d = Some r" | "acquire_update_timestamp v g d = Some r"
  | ex where "acquire_update_timestamp_until ex v g d = Some r"
  | "try_acquire_update_timestamp v g d = Some r" | "begin_update_commit v g d = Some r"
  | "drain_readers w v g d = Some r" | gen where "finish_update_timestamp me gen v g d = Some r"
  | "finish_update_and_reset_timeline w v g d = Some r"
  | sp where "acquire_compact_timestamp sp v g d = Some r"
  | "release_compact_timestamp me w v g d = Some r"
  using assms unfolding vm_next_def revert_compact_timestamp_def by blast

definition ok_step :: "nat \<Rightarrow> vthread \<Rightarrow> gthread \<Rightarrow> vmdata \<Rightarrow> vm_local \<Rightarrow> bool" where
  "ok_step me v g d r \<longleftrightarrow> (case r of (v', g', d') \<Rightarrow>
     vg v' g' \<and> (g' = g \<or> gate_start g g') \<and> vm_effect me v g d v' d')"

lemma ok_stepI:
  "vg v' g' \<Longrightarrow> g' = g \<or> gate_start g g' \<Longrightarrow> vm_effect me v g d v' d' \<Longrightarrow> ok_step me v g d (v', g', d')"
  by (simp add: ok_step_def)

lemma ok_reserve:
  assumes "ReserveWriteTimestamp_step sp pc d = (res, d')" "v' = reserve_result r res"
    "vg v' g'" "g' = g \<or> gate_start g g'"
  shows "ok_step me (Reserve r pc) g d (v', g', d')"
  using assms by (auto intro: ok_stepI eff_reserve)

lemma ok_read:
  assumes "vg v g" "acquire_read_operation v g d = Some r \<or> release_read_operation v g d = Some r"
  shows "ok_step me v g d r"
  using assms
  by (cases v) (auto simp: acquire_read_operation_def release_read_operation_def
      intro!: ok_stepI intro: gate_start.intros vm_effect.intros split: if_splits)

lemma ok_insert:
  assumes "vg v g" "acquire_insert_timestamp sp v g d = Some r"
  shows "ok_step me v g d r"
proof (cases v)
  case (Reserve ro pc)
  obtain res d' where st: "ReserveWriteTimestamp_step sp pc d = (res, d')" by fastforce
  then show ?thesis using assms Reserve
    by (cases res; cases ro) (auto simp: acquire_insert_timestamp_def intro!: ok_reserve [OF st]
       intro: gate_start.intros)
next
  case (Acquire ro m a)
  then show ?thesis using assms
    by (cases ro) (auto simp: acquire_insert_timestamp_def intro!: ok_stepI
      intro: gate_start.intros vm_effect.intros split: if_splits)
next
  case (GiveBack ro e)
  then show ?thesis using assms
    by (cases ro; cases e) (auto simp: acquire_insert_timestamp_def intro!: ok_stepI
      intro: gate_start.intros vm_effect.intros split: if_splits)
qed (use assms in \<open>auto simp: acquire_insert_timestamp_def intro!: ok_stepI
      intro: gate_start.intros vm_effect.intros split: if_splits\<close>)

lemma ok_complete:
  assumes "vg (Complete r ts pc) g" "complete_write_timestamp_step me ts pc d = (c, d')"
    "c = None \<Longrightarrow> vg (Release r ts) g' \<and> gate_start g g'" "\<And>pc'. c = Some pc' \<Longrightarrow> g' = g"
    "v' = (case c of None \<Rightarrow> Release r ts | Some pc' \<Rightarrow> Complete r ts pc')"
  shows "ok_step me (Complete r ts pc) g d (v', g', d')"
  using assms by (cases c) (auto intro!: ok_stepI intro: eff_complete eff_done)

lemma ok_release_insert:
  assumes "vg v g" "release_insert_timestamp me v g d = Some r"
  shows "ok_step me v g d r"
proof (cases v)
  case (Complete ro ts pc)
  obtain c d' where st: "complete_write_timestamp_step me ts pc d = (c, d')" by fastforce
  then show ?thesis using assms Complete
    by (cases c; cases ro) (auto simp: release_insert_timestamp_def intro!: ok_complete [OF _ st]
       intro: gate_start.intros)
next
  case (Held ro ts)
  then show ?thesis using assms
    by (cases ro) (auto simp: release_insert_timestamp_def intro!: ok_stepI
      intro: gate_start.intros vm_effect.intros split: if_splits)
next
  case (Release ro ts)
  then show ?thesis using assms
    by (cases ro) (auto simp: release_insert_timestamp_def intro!: ok_stepI
      intro: gate_start.intros vm_effect.intros split: if_splits)
qed (use assms in \<open>auto simp: release_insert_timestamp_def\<close>)

lemma ok_reserve_update:
  assumes "vg v g" "reserve_update_timestamp sp v g d = Some r"
  shows "ok_step me v g d r"
proof (cases v)
  case (Reserve ro pc)
  obtain res d' where st: "ReserveWriteTimestamp_step sp pc d = (res, d')" by fastforce
  then show ?thesis using assms Reserve
    by (cases res; cases ro) (auto simp: reserve_update_timestamp_def intro!: ok_reserve [OF st]
       intro: gate_start.intros)
next
  case (GiveBack ro e)
  then show ?thesis using assms
    by (cases ro; cases e) (auto simp: reserve_update_timestamp_def intro!: ok_stepI
      intro: gate_start.intros vm_effect.intros split: if_splits)
qed (use assms in \<open>auto simp: reserve_update_timestamp_def\<close>)

lemma ok_acquire_update:
  assumes "vg v g"
    "acquire_update_timestamp v g d = Some r \<or> acquire_update_timestamp_until ex v g d = Some r \<or>
     try_acquire_update_timestamp v g d = Some r"
  shows "ok_step me v g d r"
proof (cases v)
  case (Acquire ro m a)
  then show ?thesis using assms
    by (cases ro; cases m; cases a) (auto simp: acquire_update_timestamp_def acquire_update_timestamp_until_def
       try_acquire_update_timestamp_def intro!: ok_stepI intro: gate_start.intros vm_effect.intros split: if_splits)
next
  case (GiveBack ro e)
  then show ?thesis using assms
    by (cases ro; cases e) (auto simp: acquire_update_timestamp_def acquire_update_timestamp_until_def
       try_acquire_update_timestamp_def intro!: ok_stepI intro: gate_start.intros vm_effect.intros split: if_splits)
qed (use assms in \<open>auto simp: acquire_update_timestamp_def acquire_update_timestamp_until_def
       try_acquire_update_timestamp_def intro!: ok_stepI intro: gate_start.intros vm_effect.intros split: if_splits\<close>)

lemma ok_commit:
  assumes "vg v g" "begin_update_commit v g d = Some r \<or> drain_readers w v g d = Some r"
    and ph: "\<And>q. own g = Some q \<Longrightarrow> phase w = q"
  shows "ok_step me v g d r"
proof (cases v)
  case (Held ro ts)
  then show ?thesis using assms
    by (cases ro) (auto simp: begin_update_commit_def drain_readers_def intro!: ok_stepI
       intro: gate_start.intros eff_stay split: if_splits)
qed (use assms in \<open>auto simp: begin_update_commit_def drain_readers_def\<close>)

lemma ok_finish_update:
  assumes "vg v g" "finish_update_timestamp me gen v g d = Some r"
  shows "ok_step me v g d r"
proof (cases v)
  case (Complete ro ts pc)
  obtain c d' where st: "complete_write_timestamp_step me ts pc d = (c, d')" by fastforce
  then show ?thesis using assms Complete
    by (cases c; cases ro) (auto simp: finish_update_timestamp_def intro!: ok_complete [OF _ st]
       intro: gate_start.intros)
next
  case (Held ro ts)
  then show ?thesis using assms
    by (cases ro; cases gen) (auto simp: finish_update_timestamp_def intro!: ok_stepI eff_begin split: if_splits)
next
  case (Release ro ts)
  then show ?thesis using assms
    by (cases ro) (auto simp: finish_update_timestamp_def intro!: ok_stepI
      intro: gate_start.intros vm_effect.intros split: if_splits)
qed (use assms in \<open>auto simp: finish_update_timestamp_def\<close>)

lemma ok_reset:
  assumes "vg v g" "finish_update_and_reset_timeline w v g d = Some r"
    and ph: "\<And>q. own g = Some q \<Longrightarrow> phase w = q" and ins: "ins_drained g \<Longrightarrow> inserters w = 0"
  shows "ok_step me v g d r"
proof (cases v)
  case (Held ro ts)
  then show ?thesis using assms
    by (cases ro) (auto simp: finish_update_and_reset_timeline_def intro!: ok_stepI
       intro: gate_start.intros eff_reset [simplified] eff_check [simplified] split: if_splits)
qed (use assms in \<open>auto simp: finish_update_and_reset_timeline_def\<close>)

lemma ok_acquire_compact:
  assumes "vg v g" "acquire_compact_timestamp sp v g d = Some r"
  shows "ok_step me v g d r"
proof (cases v)
  case (Reserve ro pc)
  obtain res d' where st: "ReserveWriteTimestamp_step sp pc d = (res, d')" by fastforce
  then show ?thesis using assms Reserve
    by (cases res; cases ro) (auto simp: acquire_compact_timestamp_def intro!: ok_reserve [OF st]
       intro: gate_start.intros)
next
  case (Acquire ro m a)
  then show ?thesis using assms
    by (cases ro; cases a) (auto simp: acquire_compact_timestamp_def intro!: ok_stepI
      intro: gate_start.intros vm_effect.intros split: if_splits)
next
  case (GiveBack ro e)
  then show ?thesis using assms
    by (cases ro; cases e) (auto simp: acquire_compact_timestamp_def intro!: ok_stepI
      intro: gate_start.intros vm_effect.intros split: if_splits)
qed (use assms in \<open>auto simp: acquire_compact_timestamp_def intro!: ok_stepI
      intro: gate_start.intros vm_effect.intros split: if_splits\<close>)

lemma ok_release_compact:
  assumes "vg v g" "release_compact_timestamp me w v g d = Some r"
    and ph: "\<And>q. own g = Some q \<Longrightarrow> phase w = q"
  shows "ok_step me v g d r"
proof (cases v)
  case (Complete ro ts pc)
  obtain c d' where st: "complete_write_timestamp_step me ts pc d = (c, d')" by fastforce
  then show ?thesis using assms Complete
    by (cases c; cases ro) (auto simp: release_compact_timestamp_def intro!: ok_complete [OF _ st]
       intro: gate_start.intros)
next
  case (Held ro ts)
  then show ?thesis using assms
    by (cases ro) (auto simp: release_compact_timestamp_def intro!: ok_stepI eff_begin split: if_splits)
next
  case (Release ro ts)
  then show ?thesis using assms
    by (cases ro) (auto simp: release_compact_timestamp_def intro!: ok_stepI
      intro: gate_start.intros vm_effect.intros split: if_splits)
qed (use assms in \<open>auto simp: release_compact_timestamp_def\<close>)

text \<open>Every method step keeps the thread's gate calls in order and has one of the effects.\<close>

lemma vm_next_ok:
  assumes "vg v g" "vm_next me w v g d r"
    and "\<And>q. own g = Some q \<Longrightarrow> phase w = q" "ins_drained g \<Longrightarrow> inserters w = 0"
  shows "ok_step me v g d r"
  using assms(2)
proof (cases rule: vm_next_disj)
  case 1
  then show ?thesis by (intro ok_read [OF assms(1)]) simp
next
  case 2
  then show ?thesis by (intro ok_read [OF assms(1)]) simp
next
  case 3
  then show ?thesis by (intro ok_insert [OF assms(1)]) simp
next
  case 4
  then show ?thesis by (intro ok_release_insert [OF assms(1)]) simp
next
  case 5
  then show ?thesis by (intro ok_reserve_update [OF assms(1)]) simp
next
  case 6
  then show ?thesis by (intro ok_acquire_update [OF assms(1)]) simp
next
  case 7
  then show ?thesis by (intro ok_acquire_update [OF assms(1)]) blast
next
  case 8
  then show ?thesis by (intro ok_acquire_update [OF assms(1)]) simp
next
  case 9
  then show ?thesis by (intro ok_commit [where w = w, OF assms(1)]) (auto intro: assms)
next
  case 10
  then show ?thesis by (intro ok_commit [where w = w, OF assms(1)]) (auto intro: assms)
next
  case 11
  then show ?thesis by (intro ok_finish_update [OF assms(1)]) simp
next
  case 12
  then show ?thesis by (intro ok_reset [where w = w, OF assms(1)]) (auto intro: assms)
next
  case 13
  then show ?thesis by (intro ok_acquire_compact [OF assms(1)]) simp
next
  case 14
  then show ?thesis by (intro ok_release_compact [where w = w, OF assms(1)]) (auto intro: assms)
qed
end
