(* ===== verification/VM_Invariant.thy ===== *)
theory VM_Invariant
  imports VM_Coupling
begin

text \<open>
  The invariant of the version manager's timeline: every write timestamp between the read
  frontier and the next one to be handed out is held by exactly one writer, or marked in
  the window, or being swept; and a completion is never forgotten, since whenever the
  timestamp right after the frontier is marked, some thread is still going to advance.
  Preservation is one lemma per atomic action.
\<close>

section \<open>The system projects to the gate\<close>

abbreviation gate_of :: "vm_state \<Rightarrow> gate_system" where
  "gate_of s \<equiv> (gword s, gts s)"

lemma gate_inv_phase:
  assumes "gate_inv n (w, ts)" "i < n"
  shows "own (ts i) = Some q \<Longrightarrow> phase w = q" and "ins_drained (ts i) \<Longrightarrow> n < 2 ^ 31 \<Longrightarrow> inserters w = 0"
proof -
  show "own (ts i) = Some q \<Longrightarrow> phase w = q" using assms unfolding gate_inv_def by auto
  assume "ins_drained (ts i)" "n < 2 ^ 31"
  then have "total icnt n ts = 0" "w = gate_word (phase w) 0 (total rcnt n ts)"
    "total rcnt n ts < 2 ^ 31"
    using assms total_le_count [where f = rcnt and n = n and ts = ts] cnt_le(1)
    unfolding gate_inv_def by (auto intro: le_less_trans)
  then have "unat (inserters w) = 0"
    using gate_word_fields(3) [of 0 "total rcnt n ts" "phase w"] by simp
  then show "inserters w = 0" by (simp add: inserters_zero_iff)
qed

lemma vm_reachable_gate:
  assumes "vm_reachable n s" "n < 2 ^ 31"
  shows "gate_reachable n (gate_of s) \<and> (\<forall>i<n. vg (vts s i) (gts s i))"
  using assms(1)
proof (induction rule: vm_reachable.induct)
  case (vm_reach_init s)
  then show ?case by (auto simp: vm_init_def gate_init_def intro: reach_init)
next
  case (vm_reach_step s s')
  note inv = gate_reachable_inv [OF conjunct1 [OF vm_reach_step.IH] assms(2)]
  from vm_reach_step.hyps(2) show ?case
  proof cases
    case (vm_gate i sp ex t' w')
    have r: "gate_reachable n (w', (gts s)(i := t'))"
      using reach_run vm_gate vm_reach_step.IH by blast
    have "gate_inv n (w', (gts s)(i := t'))" using gate_reachable_inv [OF r assms(2)] .
    then have "local_ok t'" using vm_gate unfolding gate_inv_def by (auto dest: spec [of _ i])
    then have "\<And>e. t' \<noteq> Failed e" by auto
    then have "vg (vts s i) t'" using vm_gate vm_reach_step.IH vg_gate_run by blast
    then show ?thesis using r vm_gate vm_reach_step.IH by (simp del: fun_upd_apply) simp
  next
    case (vm_call i v' g' d')
    have "ok_step i (vts s i) (gts s i) (data s) (v', g', d')"
      using vm_call vm_reach_step.IH gate_inv_phase [OF inv \<open>i < n\<close>] assms(2)
      by (intro vm_next_ok [where w = "gword s"]) auto
    then have "vg v' g'" "g' = gts s i \<or> gate_start (gts s i) g'" by (auto simp: ok_step_def)
    moreover from this(2) have "gate_reachable n (gword s, (gts s)(i := g'))"
      using vm_reach_step.IH reach_start [of n "gword s" "gts s" i g'] vm_call(2) by (auto simp: fun_upd_idem)
    ultimately show ?thesis using vm_call vm_reach_step.IH by (simp del: fun_upd_apply) simp
  qed
qed

section \<open>The timestamp invariant\<close>

fun owner :: "vthread \<Rightarrow> nat option" where
  "owner (Held r ts) = Some ts"
| "owner (Complete r ts CoMark) = Some ts"
| "owner _ = None"

fun pend :: "vthread \<Rightarrow> nat option" where
  "pend (Complete r ts CoLock) = Some ts"
| "pend (Complete r ts CoCheck) = Some ts"
| "pend _ = None"

fun sweeping :: "vthread \<Rightarrow> bool" where
  "sweeping (Complete r ts (CoAdvance c)) = True"
| "sweeping (Complete r ts (CoClear c)) = True"
| "sweeping _ = False"

fun storing :: "vthread \<Rightarrow> nat option" where
  "storing (Complete r ts (CoStore next_ts)) = Some next_ts"
| "storing _ = None"

fun unpublished :: "vthread \<Rightarrow> bool" where
  "unpublished (Complete r ts (CoAdvance c)) = True"
| "unpublished (Complete r ts (CoClear c)) = True"
| "unpublished (Complete r ts (CoStore c)) = True"
| "unpublished (Complete r ts (CoPublish c)) = True"
| "unpublished _ = False"

fun locked :: "vthread \<Rightarrow> bool" where
  "locked (Complete r ts pc) = (pc \<noteq> CoMark \<and> pc \<noteq> CoLock)"
| "locked _ = False"

text \<open>Writers are the threads at points that touch the timeline.\<close>

fun writer :: "vthread \<Rightarrow> bool" where
  "writer (Reserve r pc) = True"
| "writer (Held r ts) = True"
| "writer (Complete r ts pc) = True"
| "writer _ = False"

fun role :: "vthread \<Rightarrow> wrole option" where
  "role (Reserve r pc) = Some r"
| "role (Held r ts) = Some r"
| "role (Complete r ts pc) = Some r"
| "role _ = None"

fun renewing :: "vthread \<Rightarrow> bool" where
  "renewing (Complete Upd ts pc) = True"
| "renewing _ = False"

fun thread_ok :: "vmdata \<Rightarrow> vthread \<Rightarrow> bool" where
  "thread_ok d (RdHeld view) = (fst view \<le> read_ts d)"
| "thread_ok d (Reserve r (RvCheck c)) = (c \<le> u32_max)"
| "thread_ok d (Reserve r (RvCas c)) = (c < u32_max \<and> c \<le> read_ts d + kWindowSize)"
| "thread_ok d (Reserve r (RvRefresh c)) = (c \<le> read_ts d)"
| "thread_ok d (Complete r ts (CoAdvance c)) = (c = read_ts d)"
| "thread_ok d (Complete r ts (CoClear c)) = (c = read_ts d + 1 \<and> is_completed c (window d))"
| "thread_ok d (Complete r ts (CoStore c)) = (c = read_ts d + 1 \<and> c < write_ts d \<and> \<not> is_completed c (window d))"
| "thread_ok d (Complete r ts (CoPublish c)) = (c = read_ts d)"
| "thread_ok d (GiveBack r e) = (e \<noteq> Some InternalException \<and> e \<noteq> Some CheckFailed)"
| "thread_ok d (VThrown e) = (e \<noteq> InternalException \<and> e \<noteq> CheckFailed)"
| "thread_ok d _ = True"

text \<open>An exclusive writer (update or compaction) has the only outstanding timestamp.\<close>

definition last_ts :: "vmdata \<Rightarrow> nat \<Rightarrow> bool" where
  "last_ts d ts \<longleftrightarrow> ts = read_ts d + 1 \<and> write_ts d = ts + 1"

fun excl_ok :: "vmdata \<Rightarrow> vthread \<Rightarrow> bool" where
  "excl_ok d (Reserve r pc) = (r \<noteq> Ins \<longrightarrow> write_ts d = read_ts d + 1 \<and>
     (case pc of RvLoad \<Rightarrow> True | RvCheck c \<Rightarrow> c = write_ts d | RvCas c \<Rightarrow> c = write_ts d | RvRefresh _ \<Rightarrow> False))"
| "excl_ok d (Held r ts) = (r \<noteq> Ins \<longrightarrow> last_ts d ts)"
| "excl_ok d (Complete r ts pc) = (r \<noteq> Ins \<longrightarrow>
     (case pc of CoMark \<Rightarrow> last_ts d ts | CoLock \<Rightarrow> last_ts d ts \<and> is_completed ts (window d)
      | CoCheck \<Rightarrow> last_ts d ts \<and> is_completed ts (window d)
      | CoAdvance c \<Rightarrow> last_ts d ts \<and> is_completed ts (window d) \<or> ts = read_ts d \<and> write_ts d = ts + 1
      | CoClear c \<Rightarrow> last_ts d ts | CoStore c \<Rightarrow> last_ts d ts
      | CoPublish c \<Rightarrow> ts = read_ts d \<and> write_ts d = ts + 1
      | CoUnlock \<Rightarrow> ts = read_ts d \<and> write_ts d = ts + 1 \<and> published d = (ts, generation d)))"
| "excl_ok d _ = True"

definition data_inv :: "nat \<Rightarrow> vmdata \<Rightarrow> (nat \<Rightarrow> vthread) \<Rightarrow> bool" where
  "data_inv n d vt \<longleftrightarrow>
     (read_ts d < write_ts d \<and> write_ts d \<le> u32_max \<and> write_ts d \<le> read_ts d + kWindowSize + 1) \<and>
     (\<forall>t. read_ts d < t \<longrightarrow> t < write_ts d \<longrightarrow>
        is_completed t (window d) \<or> (\<exists>i<n. owner (vt i) = Some t) \<or> (\<exists>i<n. storing (vt i) = Some t)) \<and>
     (\<forall>i<n. \<forall>t. owner (vt i) = Some t \<longrightarrow>
        read_ts d < t \<and> t < write_ts d \<and> \<not> is_completed t (window d) \<and>
        (\<forall>j<n. j \<noteq> i \<longrightarrow> owner (vt j) \<noteq> Some t) \<and> (\<forall>j<n. storing (vt j) \<noteq> Some t)) \<and>
     (\<forall>k. window d k \<noteq> 0 \<longrightarrow> k = ts_index (window d k) \<and> read_ts d < window d k \<and> window d k < write_ts d) \<and>
     (fst (published d) \<le> read_ts d \<and> (published d = (read_ts d, generation d) \<or> (\<exists>i<n. unpublished (vt i)) \<or> (\<exists>i<n. renewing (vt i)))) \<and>
     (is_completed (read_ts d + 1) (window d) \<longrightarrow>
        (\<exists>i<n. pend (vt i) = Some (read_ts d + 1)) \<or> (\<exists>i<n. sweeping (vt i))) \<and>
     (\<forall>i<n. locked (vt i) \<longleftrightarrow> vlock d = Some i) \<and>
     (\<forall>i<n. thread_ok d (vt i)) \<and> (\<forall>i<n. excl_ok d (vt i))"


lemma data_invD:
  assumes "data_inv n d vt"
  shows "read_ts d < write_ts d" "write_ts d \<le> u32_max" "write_ts d \<le> read_ts d + kWindowSize + 1"
    and "\<And>t. read_ts d < t \<Longrightarrow> t < write_ts d \<Longrightarrow>
        is_completed t (window d) \<or> (\<exists>i<n. owner (vt i) = Some t) \<or> (\<exists>i<n. storing (vt i) = Some t)"
    and "\<And>i t. i < n \<Longrightarrow> owner (vt i) = Some t \<Longrightarrow> read_ts d < t \<and> t < write_ts d \<and>
        \<not> is_completed t (window d) \<and> (\<forall>j<n. j \<noteq> i \<longrightarrow> owner (vt j) \<noteq> Some t) \<and>
        (\<forall>j<n. storing (vt j) \<noteq> Some t)"
    and "\<And>k. window d k \<noteq> 0 \<Longrightarrow>
        k = ts_index (window d k) \<and> read_ts d < window d k \<and> window d k < write_ts d"
    and "fst (published d) \<le> read_ts d"
    and "published d = (read_ts d, generation d) \<or> (\<exists>i<n. unpublished (vt i)) \<or> (\<exists>i<n. renewing (vt i))"
    and "is_completed (read_ts d + 1) (window d) \<Longrightarrow>
        (\<exists>i<n. pend (vt i) = Some (read_ts d + 1)) \<or> (\<exists>i<n. sweeping (vt i))"
    and "\<And>i. i < n \<Longrightarrow> locked (vt i) \<longleftrightarrow> vlock d = Some i"
    and "\<And>i. i < n \<Longrightarrow> thread_ok d (vt i)" "\<And>i. i < n \<Longrightarrow> excl_ok d (vt i)"
  using assms unfolding data_inv_def by simp_all

definition one_writer :: "nat \<Rightarrow> (nat \<Rightarrow> vthread) \<Rightarrow> bool" where
  "one_writer n vt \<longleftrightarrow> (\<forall>i<n. \<forall>j<n. i \<noteq> j \<longrightarrow> role (vt i) \<noteq> None \<longrightarrow> role (vt j) \<noteq> None \<longrightarrow>
     role (vt i) = Some Ins \<and> role (vt j) = Some Ins)"

lemma excl_ok_other:
  assumes "one_writer n vt" "i < n" "j < n" "i \<noteq> j" "role (vt i) \<noteq> None"
  shows "excl_ok d (vt j)"
  using assms unfolding one_writer_def by (cases "vt j") auto

lemma completed_range:
  assumes "data_inv n d vt" "is_completed t (window d)" "t \<noteq> 0"
  shows "read_ts d < t" "t < write_ts d"
  using data_invD(6) [OF assms(1), of "ts_index t"] assms unfolding is_completed_def by auto

lemma other_slot:
  assumes "data_inv n d vt" "read_ts d < a" "a < write_ts d" "read_ts d < b" "b < write_ts d" "a \<noteq> b"
  shows "ts_index a \<noteq> ts_index b"
  using ts_index_inj [of a b "read_ts d"] data_invD(3) [OF assms(1)] assms by auto

lemma locked_facts:
  "sweeping v \<Longrightarrow> locked v" "storing v \<noteq> None \<Longrightarrow> locked v" "unpublished v \<Longrightarrow> locked v"
proof -
  show "sweeping v \<Longrightarrow> locked v" by (induction v rule: sweeping.induct) auto
  show "storing v \<noteq> None \<Longrightarrow> locked v" by (induction v rule: storing.induct) auto
  show "unpublished v \<Longrightarrow> locked v" by (induction v rule: unpublished.induct) auto
qed

text \<open>A thread leaves the data alone and does not hold the lock: \<open>sameish\<close> threads agree on
  everything the invariant sees of them.\<close>

definition same_view :: "vthread \<Rightarrow> vthread \<Rightarrow> bool" where
  "same_view v v' \<longleftrightarrow> owner v' = owner v \<and> pend v' = pend v \<and> sweeping v' = sweeping v \<and>
     storing v' = storing v \<and> unpublished v' = unpublished v \<and> locked v' = locked v \<and>
     renewing v' = renewing v"

lemma data_inv_same_view:
  assumes inv: "data_inv n d vt" and "i < n" and sv: "same_view (vt i) v'"
    and "thread_ok d v'" "excl_ok d v'"
  shows "data_inv n d (vt(i := v'))"
proof -
  have eq: "owner ((vt(i := v')) j) = owner (vt j)" "pend ((vt(i := v')) j) = pend (vt j)"
    "sweeping ((vt(i := v')) j) = sweeping (vt j)" "storing ((vt(i := v')) j) = storing (vt j)"
    "unpublished ((vt(i := v')) j) = unpublished (vt j)" "locked ((vt(i := v')) j) = locked (vt j)"
    "renewing ((vt(i := v')) j) = renewing (vt j)" for j
    using sv by (auto simp: same_view_def)
  have "thread_ok d ((vt(i := v')) j) \<and> excl_ok d ((vt(i := v')) j)" if "j < n" for j
    using assms data_invD(11,12) [OF inv that] by auto
  then show ?thesis using inv unfolding data_inv_def eq by blast
qed

lemma quiet_view:
  assumes "quiet v"
  shows "owner v = None" "pend v = None" "\<not> sweeping v" "storing v = None" "\<not> unpublished v"
    "\<not> locked v" "\<not> renewing v" "excl_ok d v"
  using assms by (cases v; simp)+

lemma quiet_thread_ok:
  assumes "quiet v" "thrown v \<noteq> Some InternalException" "thrown v \<noteq> Some CheckFailed"
  shows "thread_ok d v"
  using assms by (cases v) auto

lemma thread_ok_thrown:
  assumes "thread_ok d v"
  shows "thrown v \<noteq> Some InternalException" "thrown v \<noteq> Some CheckFailed"
  using assms by (cases v; simp)+

lemma inv_quiet:
  assumes inv: "data_inv n d vt" and "i < n"
    and src: "quiet (vt i) \<or> (\<exists>view. vt i = RdHeld view) \<or> (\<exists>r ts. vt i = Release r ts)" and "quiet v'"
    and th: "thrown v' = None \<or> thrown v' = Some TransactionTimeout \<or> thrown v' = thrown (vt i)"
  shows "data_inv n d (vt(i := v'))"
proof (rule data_inv_same_view [OF inv \<open>i < n\<close>])
  show "same_view (vt i) v'"
    using src quiet_view [of "vt i"] quiet_view [OF \<open>quiet v'\<close>] unfolding same_view_def by auto
  show "thread_ok d v'"
    using quiet_thread_ok [OF \<open>quiet v'\<close>] th thread_ok_thrown [OF data_invD(11) [OF inv \<open>i < n\<close>]] by auto
  show "excl_ok d v'" using quiet_view [OF \<open>quiet v'\<close>] by simp
qed

lemma inv_load:
  assumes inv: "data_inv n d vt" and "i < n" "vt i = RdLoad"
  shows "data_inv n d (vt(i := RdHeld (published d)))"
  by (rule data_inv_same_view [OF inv \<open>i < n\<close>])
     (use assms data_invD(7) [OF inv] in \<open>auto simp: same_view_def\<close>)

text \<open>Without other writers nothing is outstanding.\<close>

lemma none_outstanding:
  assumes inv: "data_inv n d vt" and none: "\<And>j. j < n \<Longrightarrow> owner (vt j) = None \<and> pend (vt j) = None \<and>
      \<not> locked (vt j)"
  shows "write_ts d = read_ts d + 1"
proof (rule ccontr)
  assume "write_ts d \<noteq> read_ts d + 1"
  then have "read_ts d + 1 < write_ts d" using data_invD(1) [OF inv] by simp
  then have "is_completed (read_ts d + 1) (window d)"
    using data_invD(4) [OF inv, of "read_ts d + 1"] none locked_facts(2) by fastforce
  then show False using data_invD(9) [OF inv] none locked_facts(1) by fastforce
qed

lemma role_view: "role v = None \<Longrightarrow> owner v = None \<and> pend v = None \<and> \<not> locked v"
  by (cases v) auto

lemma inv_start:
  assumes inv: "data_inv n d vt" and "i < n" "quiet (vt i)"
    and one: "one_writer n (vt(i := Reserve r RvLoad))"
  shows "data_inv n d (vt(i := Reserve r RvLoad))"
proof (rule data_inv_same_view [OF inv \<open>i < n\<close>])
  show "same_view (vt i) (Reserve r RvLoad)"
    using quiet_view [OF \<open>quiet (vt i)\<close>] unfolding same_view_def by auto
  show "excl_ok d (Reserve r RvLoad)"
  proof (cases "r = Ins")
    case False
    have "role (vt j) = None" if "j < n" "j \<noteq> i" for j
      using one that \<open>i < n\<close> False unfolding one_writer_def
      by (metis fun_upd_other fun_upd_same option.inject option.simps(3) role.simps(1))
    then have "owner (vt j) = None \<and> pend (vt j) = None \<and> \<not> locked (vt j)" if "j < n" for j
      using role_view [of "vt j"] quiet_view [OF \<open>quiet (vt i)\<close>] that by (cases "j = i") auto
    then show ?thesis using none_outstanding [OF inv] by simp
  qed simp
qed simp

lemma wrap_diff: "r \<le> c \<Longrightarrow> c < m \<Longrightarrow> (c + m - r) mod m = c - (r :: nat)"
  by (metis add.commute add_diff_assoc2 less_imp_diff_less mod_add_self2 mod_less diff_add_assoc)

lemma outstanding_diff:
  assumes "r \<le> c" "c \<le> u32_max"
  shows "outstanding c r = c - r"
proof -
  have "u32_max < (2 :: nat) ^ 64" by simp
  then have "c < 2 ^ 64" using assms(2) by (rule le_less_trans [rotated])
  then show ?thesis unfolding outstanding_def using assms(1) wrap_diff by blast
qed

lemma outstanding_small:
  assumes "c \<le> u32_max" "outstanding c r \<le> kWindowSize"
  shows "c \<le> r + kWindowSize"
  using assms outstanding_diff [of r c] by (cases "r \<le> c") auto

lemma outstanding_last: "r < u32_max \<Longrightarrow> outstanding (r + 1) r = 1"
  by (simp add: outstanding_def)

lemma data_invI:
  assumes "read_ts d < write_ts d" "write_ts d \<le> u32_max" "write_ts d \<le> read_ts d + kWindowSize + 1"
    and "\<And>t. read_ts d < t \<Longrightarrow> t < write_ts d \<Longrightarrow>
        is_completed t (window d) \<or> (\<exists>i<n. owner (vt i) = Some t) \<or> (\<exists>i<n. storing (vt i) = Some t)"
    and "\<And>i t. i < n \<Longrightarrow> owner (vt i) = Some t \<Longrightarrow> read_ts d < t \<and> t < write_ts d \<and>
        \<not> is_completed t (window d) \<and> (\<forall>j<n. j \<noteq> i \<longrightarrow> owner (vt j) \<noteq> Some t) \<and>
        (\<forall>j<n. storing (vt j) \<noteq> Some t)"
    and "\<And>k. window d k \<noteq> 0 \<Longrightarrow>
        k = ts_index (window d k) \<and> read_ts d < window d k \<and> window d k < write_ts d"
    and "fst (published d) \<le> read_ts d"
    and "published d = (read_ts d, generation d) \<or> (\<exists>i<n. unpublished (vt i)) \<or> (\<exists>i<n. renewing (vt i))"
    and "is_completed (read_ts d + 1) (window d) \<Longrightarrow>
        (\<exists>i<n. pend (vt i) = Some (read_ts d + 1)) \<or> (\<exists>i<n. sweeping (vt i))"
    and "\<And>i. i < n \<Longrightarrow> locked (vt i) \<longleftrightarrow> vlock d = Some i"
    and "\<And>i. i < n \<Longrightarrow> thread_ok d (vt i)" "\<And>i. i < n \<Longrightarrow> excl_ok d (vt i)"
  shows "data_inv n d vt"
  unfolding data_inv_def
  by (intro conjI; (rule assms | (intro allI impI; rule assms; assumption)))

lemma thread_ok_mono:
  assumes "thread_ok d v" "\<not> locked v" "read_ts d \<le> read_ts d'"
  shows "thread_ok d' v"
  using assms by (cases "(d, v)" rule: thread_ok.cases) auto

lemma thread_ok_same:
  assumes "thread_ok d v" "read_ts d' = read_ts d" "write_ts d \<le> write_ts d'" "window d' = window d"
  shows "thread_ok d' v"
  using assms by (cases "(d, v)" rule: thread_ok.cases) auto

lemma inv_reserved:
  assumes inv: "data_inv n d vt" and one: "one_writer n vt" and i: "i < n" "vt i = Reserve r (RvCas c)"
    and w: "write_ts d = c"
  shows "data_inv n (d \<lparr> write_ts := u32_succ c \<rparr>) (vt(i := Held r c))"
proof -
  note D = data_invD [OF inv]
  let ?d = "d \<lparr> write_ts := u32_succ c \<rparr>" and ?v = "vt(i := Held r c)"
  have c: "c < u32_max" "c \<le> read_ts d + kWindowSize" using D(11) [OF i(1)] i by auto
  have succ: "u32_succ c = c + 1" using c by simp
  have fresh: "\<not> is_completed c (window d)" using completed_range [OF inv, of c] w D(1) by auto
  have eq: "owner (?v j) = (if j = i then Some c else owner (vt j))" "storing (?v j) = storing (vt j)"
    "pend (?v j) = pend (vt j)" "sweeping (?v j) = sweeping (vt j)" "locked (?v j) = locked (vt j)"
    "unpublished (?v j) = unpublished (vt j)" "renewing (?v j) = renewing (vt j)" for j
    using i by auto
  have nc: "owner (vt j) \<noteq> Some c" "storing (vt j) \<noteq> Some c" if "j < n" for j
  proof -
    show "owner (vt j) \<noteq> Some c" using D(5) [OF that, of c] w by auto
    show "storing (vt j) \<noteq> Some c" using D(11) [OF that] w by (cases "vt j" rule: storing.cases) auto
  qed
  have oi: "owner (vt i) = None" using i by simp
  show ?thesis
  proof (rule data_invI, goal_cases)
    case 1
    then show ?case using D(1) w succ by simp
  next
    case 2
    then show ?case using c succ by simp
  next
    case 3
    then show ?case using c succ by simp
  next
    case (4 t)
    have "t = c \<or> t < write_ts d" using 4 w succ by auto
    then show ?case
    proof
      assume "t < write_ts d"
      then show ?thesis using D(4) [of t] 4(1) oi unfolding eq by simp (metis option.distinct(1))
    qed (use i in \<open>auto simp: eq\<close>)
  next
    case (5 j t)
    then show ?case using D(1) D(5) [of j t] w succ fresh nc unfolding eq by (auto split: if_splits)
  next
    case (6 k)
    then show ?case using D(6) [of k] w succ by auto
  next
    case 7
    then show ?case using D(7) by simp
  next
    case 8
    then show ?case using D(8) unfolding eq by simp
  next
    case 9
    then show ?case using D(9) unfolding eq by simp
  next
    case (10 j)
    then show ?case using D(10) [of j] unfolding eq by simp
  next
    case (11 j)
    then show ?case using thread_ok_same [OF D(11), of j ?d] w succ by (cases "j = i") auto
  next
    case (12 j)
    then show ?case
      using D(12) [OF i(1)] i w succ excl_ok_other [OF one i(1) 12] by (cases "j = i") (auto simp: last_ts_def)
  qed
qed

lemma inv_reserve:
  assumes inv: "data_inv n d vt" and one: "one_writer n vt" and i: "i < n" "vt i = Reserve r pc"
    and st: "ReserveWriteTimestamp_step sp pc d = (res, d')"
  shows "data_inv n d' (vt(i := reserve_result r res))"
proof (cases "\<exists>c. pc = RvCas c \<and> write_ts d = c \<and> \<not> sp")
  case True
  then show ?thesis using st inv_reserved [OF inv one i(1)] i by auto
next
  case False
  note D = data_invD [OF inv]
  note ok = D(11) [OF i(1)] D(12) [OF i(1)] D(1,2)
  have r: "read_ts d < u32_max" using D(1,2) by simp
  have d: "d' = d" using st False by (cases pc) (auto split: if_splits)
  have full: "res \<noteq> kWindowFull" if "r \<noteq> Ins"
    using st ok i that outstanding_last [OF r] by (cases pc) (auto simp: kWindowSize_def split: if_splits)
  have "same_view (vt i) (reserve_result r res) \<and> thread_ok d (reserve_result r res) \<and>
        excl_ok d (reserve_result r res)"
    using st ok i False full outstanding_small [of _ "read_ts d"]
    by (cases pc) (auto simp: same_view_def kWindowSize_def split: if_splits)
  then show ?thesis unfolding d by (intro data_inv_same_view [OF inv i(1)]) auto
qed

lemma lock_other:
  assumes "data_inv n d vt" "i < n" "locked (vt i)" "j < n" "j \<noteq> i"
  shows "\<not> locked (vt j)" "\<not> sweeping (vt j)" "storing (vt j) = None" "\<not> unpublished (vt j)"
proof -
  show nl: "\<not> locked (vt j)" using data_invD(10) [OF assms(1)] assms by auto
  show "\<not> sweeping (vt j)" "storing (vt j) = None" "\<not> unpublished (vt j)" using nl locked_facts by blast+
qed

lemma inv_mark:
  assumes inv: "data_inv n d vt" and one: "one_writer n vt" and i: "i < n" "vt i = Complete r ts CoMark"
  shows "data_inv n (d \<lparr> window := mark_completed ts (window d) \<rparr>) (vt(i := Complete r ts CoLock))"
proof -
  note D = data_invD [OF inv]
  let ?d = "d \<lparr> window := mark_completed ts (window d) \<rparr>" and ?v = "vt(i := Complete r ts CoLock)"
  have ts: "read_ts d < ts" "ts < write_ts d" "\<not> is_completed ts (window d)"
    "\<And>j. j < n \<Longrightarrow> j \<noteq> i \<Longrightarrow> owner (vt j) \<noteq> Some ts" "\<And>j. j < n \<Longrightarrow> storing (vt j) \<noteq> Some ts"
    using D(5) [OF i(1), of ts] i by auto
  have comp: "is_completed t (window ?d) \<longleftrightarrow> t = ts \<or> is_completed t (window d)"
    if "read_ts d < t" "t < write_ts d" for t
    using that ts other_slot [OF inv, of t ts] by (cases "t = ts") (auto simp: window_lookup_other)
  have eq: "owner (?v j) = (if j = i then None else owner (vt j))" "storing (?v j) = storing (vt j)"
    "pend (?v j) = (if j = i then Some ts else pend (vt j))" "sweeping (?v j) = sweeping (vt j)"
    "locked (?v j) = locked (vt j)" "unpublished (?v j) = unpublished (vt j)"
    "renewing (?v j) = renewing (vt j)" for j
    using i by (cases r; auto)+
  show ?thesis
  proof (rule data_invI, goal_cases)
    case (4 t)
    then show ?case using D(4) [of t] comp [of t] i unfolding eq
      by simp (metis option.inject owner.simps(2))
  next
    case (5 j t)
    then show ?case using D(5) [of j t] comp [of t] ts unfolding eq by (auto split: if_splits)
  next
    case (6 k)
    then show ?case using D(6) [of k] ts by (auto simp: mark_completed_def split: if_splits)
  next
    case 9
    show ?case
    proof (cases "read_ts d + 1 < write_ts d \<and> read_ts d + 1 \<noteq> ts")
      case True
      then have "pend (vt i) = None" "is_completed (read_ts d + 1) (window d)"
        using comp [of "read_ts d + 1"] 9 i by auto
      then show ?thesis using D(9) unfolding eq by simp (metis option.distinct(1))
    next
      case False
      then show ?thesis using ts i unfolding eq by auto
    qed
  next
    case (11 j)
    then show ?case
      using D(11) [of j] comp [of "read_ts d + 1"] D(5) [OF i(1), of ts] i
        completed_range [OF inv, of "read_ts d + 1"]
      by (cases "(d, vt j)" rule: thread_ok.cases; cases "j = i") (auto)
  next
    case (12 j)
    then show ?case
      using D(12) [OF i(1)] i excl_ok_other [OF one i(1) 12] by (cases "j = i") (auto simp: last_ts_def)
  next
    case 8
    then show ?case using D(8) unfolding eq by simp
  next
    case (10 j)
    then show ?case using D(10) [of j] unfolding eq by simp
  qed (use D(1-3,7) in simp_all)
qed

lemma inv_lock:
  assumes inv: "data_inv n d vt" and i: "i < n" "vt i = Complete r ts CoLock" and "vlock d = None"
  shows "data_inv n (d \<lparr> vlock := Some i \<rparr>) (vt(i := Complete r ts CoCheck))"
proof -
  note D = data_invD [OF inv]
  let ?d = "d \<lparr> vlock := Some i \<rparr>" and ?v = "vt(i := Complete r ts CoCheck)"
  have eq: "owner (?v j) = owner (vt j)" "storing (?v j) = storing (vt j)" "pend (?v j) = pend (vt j)"
    "sweeping (?v j) = sweeping (vt j)" "unpublished (?v j) = unpublished (vt j)"
    "renewing (?v j) = renewing (vt j)" "locked (?v j) = (j = i \<or> locked (vt j))" for j
    using i by (cases r; auto)+
  have sel: "read_ts ?d = read_ts d" "write_ts ?d = write_ts d" "window ?d = window d"
    "published ?d = published d" "generation ?d = generation d" by simp_all
  have ex: "excl_ok ?d v = excl_ok d v" "thread_ok ?d v = thread_ok d v" for v
    by (cases "(d, v)" rule: excl_ok.cases; auto simp: last_ts_def split: reserve_pc.splits complete_pc.splits)
      (cases "(d, v)" rule: thread_ok.cases; auto)
  show ?thesis
  proof (rule data_invI, goal_cases)
    case (10 j)
    then show ?case using D(10) [of j] \<open>vlock d = None\<close> unfolding eq by auto
  next
    case (11 j)
    then show ?case using D(11) [of j] unfolding ex by auto
  next
    case (12 j)
    then show ?case using D(12) [of j] D(12) [OF i(1)] i unfolding ex by auto
  qed (unfold eq sel, (rule D; assumption)+)
qed

lemma inv_check:
  assumes inv: "data_inv n d vt" and i: "i < n" "vt i = Complete r ts CoCheck"
    and v': "v' = Complete r ts (if ts = u32_succ (read_ts d) then CoAdvance (read_ts d) else CoUnlock)"
  shows "data_inv n d (vt(i := v'))"
proof -
  note D = data_invD [OF inv]
  let ?v = "vt(i := v')"
  have succ: "u32_succ (read_ts d) = read_ts d + 1" using D(1,2) by simp
  have eq: "owner (?v j) = owner (vt j)" "storing (?v j) = storing (vt j)" "locked (?v j) = locked (vt j)"
    "renewing (?v j) = renewing (vt j)" for j
    using i v' by (cases r; auto)+
  have sw: "sweeping (?v j) = (sweeping (vt j) \<or> j = i \<and> ts = read_ts d + 1)"
    "pend (?v j) = (if j = i then None else pend (vt j))"
    "unpublished (?v j) = (unpublished (vt j) \<or> j = i \<and> ts = read_ts d + 1)" for j
    using i v' succ by auto
  show ?thesis
  proof (rule data_invI, goal_cases)
    case 8
    then show ?case using D(8) unfolding eq sw by blast
  next
    case 9
    then consider k where "k < n" "pend (vt k) = Some (read_ts d + 1)" | k where "k < n" "sweeping (vt k)"
      using D(9) by blast
    then show ?case
    proof cases
      case 1
      then show ?thesis using i unfolding sw by (cases "k = i") auto
    next
      case 2
      then show ?thesis unfolding sw by blast
    qed
  next
    case (11 j)
    then show ?case using D(11) [of j] v' by auto
  next
    case (12 j)
    then show ?case using D(12) [of j] i v' succ by (auto simp: last_ts_def)
  qed (unfold eq, (rule D; assumption)+)
qed

lemma inv_advance:
  assumes inv: "data_inv n d vt" and i: "i < n" "vt i = Complete r ts (CoAdvance c)"
    and v': "v' = Complete r ts (if \<not> is_completed (u32_succ c) (window d) then CoPublish c
                                  else CoClear (u32_succ c))"
  shows "data_inv n d (vt(i := v'))"
proof -
  note D = data_invD [OF inv]
  let ?v = "vt(i := v')"
  have c: "c = read_ts d" using D(11) [OF i(1)] i by simp
  have succ: "u32_succ c = read_ts d + 1" using D(1,2) c by simp
  have lk: "locked (vt i)" using i by simp
  have eq: "owner (?v j) = owner (vt j)" "storing (?v j) = storing (vt j)" "locked (?v j) = locked (vt j)"
    "renewing (?v j) = renewing (vt j)" "pend (?v j) = pend (vt j)" "unpublished (?v j) = unpublished (vt j)" for j
    using i v' by (cases r; auto)+
  show ?thesis
  proof (rule data_invI, goal_cases)
    case 9
    then have "sweeping (?v i)" using v' succ by simp
    then show ?case using i(1) by blast
  next
    case (11 j)
    then show ?case using D(11) [of j] v' succ c by auto
  next
    case (12 j)
    then show ?case
      using D(12) [of j] i v' succ c completed_range [OF inv, of "read_ts d + 1"]
      by (auto simp: last_ts_def)
  qed (unfold eq, (rule D; assumption)+)
qed

lemma inv_clear:
  assumes inv: "data_inv n d vt" and one: "one_writer n vt" and i: "i < n" "vt i = Complete r ts (CoClear m)"
  shows "data_inv n (d \<lparr> window := window_clear m (window d) \<rparr>) (vt(i := Complete r ts (CoStore m)))"
proof -
  note D = data_invD [OF inv]
  let ?d = "d \<lparr> window := window_clear m (window d) \<rparr>" and ?v = "vt(i := Complete r ts (CoStore m))"
  have m: "m = read_ts d + 1" "is_completed m (window d)" using D(11) [OF i(1)] i by auto
  then have mw: "m < write_ts d" "m \<noteq> 0" using completed_range [OF inv, of m] by auto
  have lk: "locked (vt i)" using i by simp
  note other = lock_other [OF inv i(1) lk]
  have comp: "is_completed t (window ?d) \<longleftrightarrow> t \<noteq> m \<and> is_completed t (window d)"
    if "read_ts d < t" "t < write_ts d" for t
    using that mw m other_slot [OF inv, of t m] by (cases "t = m") (auto simp: window_lookup_other)
  have eq: "owner (?v j) = owner (vt j)" "pend (?v j) = pend (vt j)" "locked (?v j) = locked (vt j)"
    "unpublished (?v j) = unpublished (vt j)" "renewing (?v j) = renewing (vt j)"
    "storing (?v j) = (if j = i then Some m else storing (vt j))" for j
    using i by (cases r; auto)+
  have nm: "\<not> is_completed m (window ?d)" using comp mw m by auto
  show ?thesis
  proof (rule data_invI, goal_cases)
    case (4 t)
    have "storing (vt j) = None" if "j < n" for j using other(3) [of j] that i by (cases "j = i") auto
    then show ?case using D(4) [of t] comp [of t] i(1) 4 unfolding eq by (cases "t = m") auto
  next
    case (5 j t)
    then show ?case using D(5) [of j t] comp [of t] m unfolding eq by (auto split: if_splits)
  next
    case (6 k)
    then show ?case using D(6) [of k] by (auto simp: window_clear_def split: if_splits)
  next
    case 9
    then show ?case using nm m by simp
  next
    case (11 j)
    then show ?case
      using D(11) [of j] nm m mw other(1) [of j] thread_ok_mono [of d "vt j" ?d] by (cases "j = i") auto
  next
    case (12 j)
    then show ?case
      using D(12) [OF i(1)] i excl_ok_other [OF one i(1) 12] by (cases "j = i") (auto simp: last_ts_def)
  next
    case 8
    then show ?case using D(8) unfolding eq by simp
  next
    case (10 j)
    then show ?case using D(10) [of j] unfolding eq by simp
  qed (use D(1-3,7) in simp_all)
qed

lemma inv_store:
  assumes inv: "data_inv n d vt" and one: "one_writer n vt" and i: "i < n" "vt i = Complete r ts (CoStore m)"
  shows "data_inv n (d \<lparr> read_ts := m \<rparr>) (vt(i := Complete r ts (CoAdvance m)))"
proof -
  note D = data_invD [OF inv]
  let ?d = "d \<lparr> read_ts := m \<rparr>" and ?v = "vt(i := Complete r ts (CoAdvance m))"
  have m: "m = read_ts d + 1" "m < write_ts d" "\<not> is_completed m (window d)" using D(11) [OF i(1)] i by auto
  have lk: "locked (vt i)" using i by simp
  note other = lock_other [OF inv i(1) lk]
  have eq: "owner (?v j) = owner (vt j)" "pend (?v j) = pend (vt j)" "locked (?v j) = locked (vt j)"
    "unpublished (?v j) = unpublished (vt j)" "renewing (?v j) = renewing (vt j)"
    "storing (?v j) = (if j = i then None else storing (vt j))" for j
    using i by (cases r; auto)+
  show ?thesis
  proof (rule data_invI, goal_cases)
    case (4 t)
    then have "read_ts d < t" "t < write_ts d" "t \<noteq> m" using m by auto
    then show ?case using D(4) [of t] i other(3) unfolding eq
      by simp (metis option.inject storing.simps(1))
  next
    case (5 j t)
    then have *: "owner (vt j) = Some t" unfolding eq by simp
    then have "t \<noteq> m" using D(5) [OF \<open>j < n\<close>, of t] i by auto
    then show ?case using D(5) [OF \<open>j < n\<close> *] m unfolding eq by auto
  next
    case (6 k)
    then have "window d k \<noteq> m" using D(6) [of k] m unfolding is_completed_def by auto
    then show ?case using D(6) [of k] 6 m by auto
  next
    case 8
    then show ?case using i(1) by (auto simp: exI [of _ i])
  next
    case 9
    then show ?case using i(1) by (auto simp: exI [of _ i])
  next
    case (10 j)
    then show ?case using D(10) [of j] unfolding eq by simp
  next
    case (11 j)
    then show ?case
      using D(11) [of j] m other(1) [of j] thread_ok_mono [of d "vt j" ?d] by (cases "j = i") auto
  next
    case (12 j)
    then show ?case
      using D(12) [OF i(1)] i m excl_ok_other [OF one i(1) 12] by (cases "j = i") (auto simp: last_ts_def)
  qed (use D(1-3,7) m in simp_all)
qed

lemma inv_publish:
  assumes inv: "data_inv n d vt" and one: "one_writer n vt" and i: "i < n" "vt i = Complete r ts (CoPublish c)"
  shows "data_inv n (d \<lparr> published := (c, generation d) \<rparr>) (vt(i := Complete r ts CoUnlock))"
proof -
  note D = data_invD [OF inv]
  let ?d = "d \<lparr> published := (c, generation d) \<rparr>" and ?v = "vt(i := Complete r ts CoUnlock)"
  have c: "c = read_ts d" using D(11) [OF i(1)] i by auto
  have eq: "owner (?v j) = owner (vt j)" "pend (?v j) = pend (vt j)" "locked (?v j) = locked (vt j)"
    "renewing (?v j) = renewing (vt j)" "storing (?v j) = storing (vt j)" "sweeping (?v j) = sweeping (vt j)" for j
    using i by (cases r; auto)+
  have sel: "read_ts ?d = read_ts d" "write_ts ?d = write_ts d" "window ?d = window d"
    "vlock ?d = vlock d" by simp_all
  show ?thesis
  proof (rule data_invI, goal_cases)
    case 7
    then show ?case using c by simp
  next
    case 8
    then show ?case using c by simp
  next
    case (11 j)
    then show ?case using thread_ok_same [OF D(11), of j ?d] by (cases "j = i") auto
  next
    case (12 j)
    then show ?case
      using D(12) [OF i(1)] i c excl_ok_other [OF one i(1) 12] by (cases "j = i") auto
  qed (unfold eq sel, (rule D; assumption)+)
qed

lemma inv_unlock:
  assumes inv: "data_inv n d vt" and one: "one_writer n vt" and i: "i < n" "vt i = Complete r ts CoUnlock"
  shows "data_inv n (d \<lparr> vlock := None \<rparr>) (vt(i := Release r ts))"
proof -
  note D = data_invD [OF inv]
  let ?d = "d \<lparr> vlock := None \<rparr>" and ?v = "vt(i := Release r ts)"
  have lk: "locked (vt i)" using i by simp
  have eq: "owner (?v j) = owner (vt j)" "pend (?v j) = pend (vt j)" "locked (?v j) = (j \<noteq> i \<and> locked (vt j))"
    "storing (?v j) = storing (vt j)" "sweeping (?v j) = sweeping (vt j)" "unpublished (?v j) = unpublished (vt j)"
    "renewing (?v j) = (j \<noteq> i \<and> renewing (vt j))" for j
    using i by auto
  have sel: "read_ts ?d = read_ts d" "write_ts ?d = write_ts d" "window ?d = window d"
    "published ?d = published d" "generation ?d = generation d" by simp_all
  show ?thesis
  proof (rule data_invI, goal_cases)
    case 8
    have "published d = (read_ts d, generation d)" if "renewing (vt i)"
      using that D(12) [OF i(1)] i by (cases r) auto
    then show ?case using D(8) unfolding eq sel by metis
  next
    case (10 j)
    then show ?case using D(10) [of j] D(10) [OF i(1)] lk unfolding eq by auto
  next
    case (11 j)
    then show ?case using thread_ok_same [OF D(11), of j ?d] by (cases "j = i") auto
  next
    case (12 j)
    then show ?case using excl_ok_other [OF one i(1) 12] i by (cases "j = i") auto
  qed (unfold eq sel, (rule D; assumption)+)
qed

lemma inv_complete:
  assumes inv: "data_inv n d vt" and one: "one_writer n vt" and i: "i < n" "vt i = Complete r ts pc"
    and st: "complete_write_timestamp_step i ts pc d = (c, d')"
    and v': "v' = (case c of None \<Rightarrow> Release r ts | Some pc' \<Rightarrow> Complete r ts pc')"
  shows "data_inv n d' (vt(i := v'))"
proof (cases pc)
  case CoMark
  then show ?thesis using st v' i inv_mark [OF inv one i(1)] by auto
next
  case CoLock
  then show ?thesis using st v' inv i inv_lock [OF inv i(1)] by (auto simp: fun_upd_idem split: if_splits)
next
  case CoCheck
  then show ?thesis using st v' i inv_check [OF inv i(1), of r ts] by (auto split: if_splits)
next
  case (CoAdvance k)
  then show ?thesis using st v' i inv_advance [OF inv i(1), of r ts k] by (auto split: if_splits)
next
  case (CoClear k)
  then show ?thesis using st v' i inv_clear [OF inv one i(1), of r ts k] by auto
next
  case (CoStore k)
  then show ?thesis using st v' i inv_store [OF inv one i(1), of r ts k] by auto
next
  case (CoPublish k)
  then show ?thesis using st v' i inv_publish [OF inv one i(1), of r ts k] by auto
next
  case CoUnlock
  then show ?thesis using st v' i inv_unlock [OF inv one i(1), of r ts] by auto
qed

lemma inv_begin:
  assumes inv: "data_inv n d vt" and one: "one_writer n vt" and i: "i < n" "vt i = Held r ts"
    and d': "d' = d \<or> r = Upd \<and> (\<exists>gen. d' = d \<lparr> generation := gen \<rparr>)"
  shows "data_inv n d' (vt(i := Complete r ts CoMark))"
proof -
  note D = data_invD [OF inv]
  let ?v = "vt(i := Complete r ts CoMark)"
  have sel: "read_ts d' = read_ts d" "write_ts d' = write_ts d" "window d' = window d"
    "published d' = published d" "vlock d' = vlock d" using d' by auto
  have eq: "owner (?v j) = owner (vt j)" "pend (?v j) = pend (vt j)" "locked (?v j) = locked (vt j)"
    "storing (?v j) = storing (vt j)" "sweeping (?v j) = sweeping (vt j)" "unpublished (?v j) = unpublished (vt j)"
    "renewing (?v j) = (renewing (vt j) \<or> j = i \<and> r = Upd)" for j
    using i by (cases r; auto)+
  show ?thesis
  proof (rule data_invI, goal_cases)
    case 8
    then show ?case using D(8) d' i(1) unfolding eq sel by auto
  next
    case (11 j)
    then show ?case using thread_ok_same [OF D(11), of j d'] sel by (cases "j = i") auto
  next
    case (12 j)
    then show ?case
      using D(12) [OF i(1)] i sel excl_ok_other [OF one i(1) 12] by (cases "j = i") (auto simp: last_ts_def)
  qed (unfold eq sel, (rule D; assumption)+)
qed

lemma role_None_thread_ok:
  assumes "role v = None" "\<And>view. v \<noteq> RdHeld view" "thread_ok d v"
  shows "thread_ok d' v"
  using assms by (cases v) auto

lemma inv_reset:
  assumes inv: "data_inv n d vt" and one: "one_writer n vt" and i: "i < n" "vt i = Held Upd ts"
    and rd: "\<And>j view. j < n \<Longrightarrow> vt j \<noteq> RdHeld view"
  shows "data_inv n (d \<lparr> write_ts := 1, read_ts := 0, window := window_init, published := (0, generation d) \<rparr>)
           (vt(i := Release Upd ts))"
proof -
  note D = data_invD [OF inv]
  let ?d = "d \<lparr> write_ts := 1, read_ts := 0, window := window_init, published := (0, generation d) \<rparr>"
    and ?v = "vt(i := Release Upd ts)"
  have role: "role (?v j) = None" if "j < n" for j
  proof (cases "j = i")
    case False
    have "role (vt i) = Some Upd" using i by simp
    then show ?thesis using one that i(1) False unfolding one_writer_def by fastforce
  qed simp
  have v: "owner (?v j) = None" "\<not> locked (?v j)" if "j < n" for j using role_view [OF role [OF that]] by auto
  have l: "\<not> locked (vt j)" if "j < n" for j using v [OF that] i by (cases "j = i") auto
  show ?thesis
  proof (rule data_invI, goal_cases)
    case (5 j t)
    then show ?case using v by simp
  next
    case 9
    then show ?case by (simp add: is_completed_def window_init_def)
  next
    case (10 j)
    then show ?case using D(10) [of j] l [of j] v [of j] by (simp del: fun_upd_apply)
  next
    case (11 j)
    then show ?case
      using role_None_thread_ok [OF role [OF 11] _, of d] rd [OF 11] D(11) [OF 11] by (cases "j = i") auto
  next
    case (12 j)
    then show ?case using role [OF 12] by (cases "?v j") (auto simp del: fun_upd_apply)
  qed (simp_all add: window_init_def)
qed

lemma inv_effect:
  assumes inv: "data_inv n d vt" and one: "one_writer n vt" "one_writer n (vt(i := v'))" and i: "i < n"
    and rd: "\<And>j view. g = Owned kAllBlocked True True \<Longrightarrow> j < n \<Longrightarrow> j \<noteq> i \<Longrightarrow> vt j \<noteq> RdHeld view"
    and eff: "vm_effect i (vt i) g d v' d'"
  shows "data_inv n d' (vt(i := v'))"
  using eff
proof cases
  case eff_quiet
  then show ?thesis using inv_quiet [OF inv i] by auto
next
  case eff_stay
  then show ?thesis using inv by (simp add: fun_upd_idem)
next
  case eff_load
  then show ?thesis using inv_load [OF inv i] by simp
next
  case (eff_start r)
  then show ?thesis using inv_start [OF inv i] one by simp
next
  case (eff_reserve sp pc res r)
  then show ?thesis using inv_reserve [OF inv one(1) i] by simp
next
  case (eff_begin r ts)
  then show ?thesis using inv_begin [OF inv one(1) i] by simp
next
  case (eff_complete ts pc pc' r)
  then show ?thesis using inv_complete [OF inv one(1) i, of r ts pc "Some pc'"] by simp
next
  case (eff_done ts pc r)
  then show ?thesis using inv_complete [OF inv one(1) i, of r ts pc None] by simp
next
  case (eff_reset ts)
  have "vt j \<noteq> RdHeld view" if "j < n" for j view using rd eff_reset that by (cases "j = i") auto
  then show ?thesis using inv_reset [OF inv one(1) i] eff_reset by simp
next
  case (eff_check ts)
  then show ?thesis using data_invD(2,12) [OF inv] i by (force simp: last_ts_def)
qed

lemma vg_role:
  assumes "vg v g"
  shows "role v = Some Ins \<Longrightarrow> icnt g = 1"
    and "role v = Some r \<Longrightarrow> r \<noteq> Ins \<Longrightarrow> ins_drained g \<and> own g \<noteq> None"
  using assms by (cases v; auto split: wrole.splits)+

lemma one_writer_gate:
  assumes inv: "gate_inv n (w, g)" and vg: "\<And>i. i < n \<Longrightarrow> vg (vt i) (g i)"
  shows "one_writer n vt"
proof -
  have ins: "role (vt i) = Some Ins" if ij: "i < n" "j < n" "i \<noteq> j" "role (vt i) \<noteq> None" "role (vt j) \<noteq> None" for i j
  proof (rule ccontr)
    assume "role (vt i) \<noteq> Some Ins"
    then have own: "own (g i) \<noteq> None" and z: "total icnt n g = 0"
      using vg_role(2) [OF vg [OF ij(1)]] ij inv unfolding gate_inv_def by auto
    then have "role (vt j) \<noteq> Some Ins"
      using vg_role(1) [OF vg [OF ij(2)]] total_zeroD [OF z ij(2)] by auto
    then have "own (g j) \<noteq> None" using vg_role(2) [OF vg [OF ij(2)]] ij(5) by auto
    then show False using gate_inv_owner_alone [OF inv ij(1) own ij(2)] ij(3) by auto
  qed
  show ?thesis unfolding one_writer_def using ins by metis
qed

lemma inv_init:
  assumes "init_ts (ts, gen) = Inr d" "ts \<le> u32_max"
  shows "data_inv n d (\<lambda>_. VIdle)"
proof -
  have ts: "ts < u32_max" using assms by (auto simp: init_ts_def split: if_splits)
  then have d: "d = \<lparr> write_ts = ts + 1, read_ts = ts, generation = gen, published = (ts, gen),
                window = window_init, vlock = None \<rparr>"
    using assms by (auto simp: init_ts_def split: if_splits)
  show ?thesis unfolding d using ts
    by (intro data_invI) (auto simp: window_init_def is_completed_def)
qed

lemma vm_reachable_inv:
  assumes "vm_reachable n s" "n < 2 ^ 31"
  shows "data_inv n (data s) (vts s)"
  using assms(1)
proof (induction rule: vm_reachable.induct)
  case (vm_reach_init s)
  then show ?case using inv_init unfolding vm_init_def by auto
next
  case (vm_reach_step s s')
  have r: "vm_reachable n s'" using vm_reachable.vm_reach_step vm_reach_step by blast
  note g = vm_reachable_gate [OF vm_reach_step.hyps(1) assms(2)]
  note inv = gate_reachable_inv [OF conjunct1 [OF g] assms(2)]
  from vm_reach_step.hyps(2) show ?case
  proof cases
    case (vm_gate i sp ex t' w')
    then show ?thesis using vm_reach_step.IH by simp
  next
    case (vm_call i v' g' d')
    note g' = vm_reachable_gate [OF r assms(2)]
    have one: "one_writer n (vts s)" using one_writer_gate [OF inv] g by auto
    have one': "one_writer n ((vts s)(i := v'))"
      using one_writer_gate [OF gate_reachable_inv [OF conjunct1 [OF g'] assms(2)]] g' vm_call by auto
    have eff: "vm_effect i (vts s i) (gts s i) (data s) v' d'"
      using vm_next_ok [where w = "gword s" and r = "(v', g', d')"] vm_call g
        gate_inv_phase [OF inv \<open>i < n\<close>] assms(2) by (auto simp: ok_step_def)
    have rd: "vts s j \<noteq> RdHeld view" if "gts s i = Owned kAllBlocked True True" "j < n" for j view
    proof
      assume "vts s j = RdHeld view"
      then have "admitted (gts s j) = 1" using g that(2) by fastforce
      moreover have "total admitted n (gts s) = 0" using inv that(1) vm_call(2) unfolding gate_inv_def by auto
      ultimately show False using total_zeroD [OF _ that(2), of admitted "gts s"] by simp
    qed
    have "data_inv n d' ((vts s)(i := v'))"
      using inv_effect [OF vm_reach_step.IH one one' vm_call(2) _ eff] rd by blast
    then show ?thesis using vm_call(1) by (simp del: fun_upd_apply)
  qed
qed
end
