(* ===== verification/VM_Properties.thy ===== *)
theory VM_Properties
  imports VM_Invariant
begin

text \<open>
  What the invariant of \<^theory_text>\<open>VM_Invariant\<close> gives to the users of the version manager:
  snapshot safety for readers, uniqueness of write timestamps, progress of the read
  frontier, unreachability of the internal errors, and termination of the completion loop,
  with a concrete run that shows the hypotheses are met.
\<close>

section \<open>Completion returns\<close>

fun complete_run :: "nat \<Rightarrow> nat \<Rightarrow> nat \<Rightarrow> complete_pc \<Rightarrow> vmdata \<Rightarrow> vmdata option" where
  "complete_run 0 me ts pc d = None"
| "complete_run (Suc k) me ts pc d =
     (case complete_write_timestamp_step me ts pc d of
        (None, d') \<Rightarrow> Some d' | (Some pc', d') \<Rightarrow> complete_run k me ts pc' d')"

definition slots_below :: "vmdata \<Rightarrow> bool" where
  "slots_below d \<longleftrightarrow> (\<forall>k. window d k < write_ts d) \<and> read_ts d < write_ts d \<and> write_ts d \<le> u32_max"

lemma complete_run_step:
  "complete_write_timestamp_step me ts pc d = (None, d') \<Longrightarrow> complete_run (Suc k) me ts pc d = Some d'"
  "complete_write_timestamp_step me ts pc d = (Some pc', d') \<Longrightarrow>
     complete_run (Suc k) me ts pc d = complete_run k me ts pc' d'"
  by simp_all

declare complete_run.simps(2) [simp del]

lemma complete_run_more:
  "complete_run k me ts pc d = Some r \<Longrightarrow> complete_run (Suc k) me ts pc d = Some r"
proof (induction k arbitrary: pc d)
  case (Suc k)
  obtain c d' where st: "complete_write_timestamp_step me ts pc d = (c, d')" by fastforce
  show ?case using Suc st by (cases c) (auto simp: complete_run_step)
qed simp

lemma complete_run_mono: "complete_run k me ts pc d = Some r \<Longrightarrow> k \<le> m \<Longrightarrow> complete_run m me ts pc d = Some r"
  by (induction m) (auto simp: le_Suc_eq complete_run_more)

lemma advance_run:
  assumes "slots_below d" "read_ts d = c"
  shows "\<exists>r. complete_run (3 * (write_ts d - read_ts d) + 2) me ts (CoAdvance c) d = Some r"
  using assms
proof (induction "write_ts d - read_ts d" arbitrary: d c rule: less_induct)
  case less
  have succ: "u32_succ c = c + 1" using less.prems unfolding slots_below_def by auto
  show ?case
  proof (cases "is_completed (c + 1) (window d)")
    case False
    then have "complete_run (Suc (Suc (Suc 0))) me ts (CoAdvance c) d =
        Some (d \<lparr> published := (c, generation d), vlock := None \<rparr>)"
      using succ by (simp add: complete_run_step)
    moreover have "Suc (Suc (Suc 0)) \<le> 3 * (write_ts d - read_ts d) + 2"
      using less.prems unfolding slots_below_def by auto
    ultimately show ?thesis using complete_run_mono by blast
  next
    case True
    let ?d = "d \<lparr> window := window_clear (c + 1) (window d), read_ts := c + 1 \<rparr>"
    let ?k = "3 * (write_ts ?d - read_ts ?d) + 2"
    have lt: "c + 1 < write_ts d" using True less.prems unfolding slots_below_def is_completed_def by metis
    have sb: "slots_below ?d" using less.prems lt unfolding slots_below_def window_clear_def by auto
    have "write_ts ?d - read_ts ?d < write_ts d - read_ts d" using lt less.prems by simp
    from less.hyps [OF this sb] obtain r where r: "complete_run ?k me ts (CoAdvance (c + 1)) ?d = Some r"
      by auto
    have "complete_run (Suc (Suc (Suc ?k))) me ts (CoAdvance c) d = Some r"
      using True succ r by (simp add: complete_run_step)
    moreover have "Suc (Suc (Suc ?k)) = 3 * (write_ts d - read_ts d) + 2"
      using lt less.prems by simp
    ultimately show ?thesis by metis
  qed
qed

lemma complete_run_returns:
  assumes "slots_below d" "vlock d = None" "ts < write_ts d"
  shows "\<exists>r. complete_run (3 * (write_ts d - read_ts d) + 5) me ts CoMark d = Some r"
proof -
  let ?d = "d \<lparr> window := mark_completed ts (window d), vlock := Some me \<rparr>"
  have s: "slots_below ?d" using assms unfolding slots_below_def mark_completed_def by auto
  let ?k = "3 * (write_ts d - read_ts d) + 2"
  have n: "3 * (write_ts d - read_ts d) + 5 = Suc (Suc (Suc ?k))" by simp
  show ?thesis
  proof (cases "ts = u32_succ (read_ts d)")
    case True
    have "complete_run (Suc (Suc (Suc ?k))) me ts CoMark d = complete_run ?k me ts (CoAdvance (read_ts d)) ?d"
      using True assms(2) by (simp add: complete_run_step)
    then show ?thesis unfolding n using advance_run [OF s, of "read_ts d" me ts] by simp
  next
    case False
    have "?k = Suc (3 * (write_ts d - read_ts d) + 1)" by simp
    then show ?thesis unfolding n using False assms(2) by (simp add: complete_run_step)
  qed
qed

section \<open>Properties\<close>

lemma data_inv_slots: "data_inv n d vt \<Longrightarrow> slots_below d"
proof -
  assume inv: "data_inv n d vt"
  have "window d k < write_ts d" for k
    using data_invD(6) [OF inv, of k] data_invD(1) [OF inv] by (cases "window d k = 0") auto
  then show ?thesis using data_invD(1,2) [OF inv] unfolding slots_below_def by blast
qed

text \<open>
  C6. Snapshot safety: the visibility timestamp a reader holds is below every write timestamp
  that any writer still holds, so no reader ever treats an unfinished write as visible, in
  every interleaving of reads, inserts, updates, compactions and timeline resets.
\<close>
theorem reader_never_sees_unfinished_write:
  assumes "vm_reachable n s" "n < 2 ^ 31" "i < n" "vts s i = RdHeld (v, gen)"
    and "j < n" "owner (vts s j) = Some t"
  shows "v < t"
proof -
  note D = data_invD [OF vm_reachable_inv [OF assms(1,2)]]
  show ?thesis using D(5) [OF assms(5,6)] D(11) [OF assms(3)] assms(4) by auto
qed

text \<open>
  C8. Write timestamps are unique, positive and below the 32-bit maximum: a timestamp held by
  one writer lies strictly between the read frontier and the next timestamp, at most one
  window ahead of the frontier, its window slot is not marked, and no other thread holds it.
\<close>
theorem write_timestamps_unique:
  assumes "vm_reachable n s" "n < 2 ^ 31" "i < n" "owner (vts s i) = Some t"
  shows "read_ts (data s) < t \<and> t < write_ts (data s) \<and> t < u32_max \<and> t \<le> read_ts (data s) + kWindowSize \<and>
         \<not> is_completed t (window (data s)) \<and> (\<forall>j<n. j \<noteq> i \<longrightarrow> owner (vts s j) \<noteq> Some t)"
proof -
  note D = data_invD [OF vm_reachable_inv [OF assms(1,2)]]
  show ?thesis using D(5) [OF assms(3,4)] D(2,3) by auto
qed

text \<open>
  C7. No completion is lost: whenever no thread is inside a write (reserving, holding or
  completing a timestamp), the read frontier has reached the last timestamp handed out and
  the published view is that frontier with the installed snapshot generation.
\<close>
theorem frontier_catches_up:
  assumes "vm_reachable n s" "n < 2 ^ 31" "\<And>i. i < n \<Longrightarrow> role (vts s i) = None"
  shows "write_ts (data s) = read_ts (data s) + 1 \<and>
         published (data s) = (read_ts (data s), generation (data s))"
proof -
  note inv = vm_reachable_inv [OF assms(1,2)]
  have v: "owner (vts s i) = None \<and> pend (vts s i) = None \<and> \<not> locked (vts s i)" if "i < n" for i
    using role_view assms(3) [OF that] by blast
  have "\<not> renewing (vts s i)" if "i < n" for i
    using assms(3) [OF that] by (cases "vts s i" rule: renewing.cases) auto
  then have "published (data s) = (read_ts (data s), generation (data s))"
    using data_invD(8) [OF inv] v locked_facts(3) by blast
  then show ?thesis using none_outstanding [OF inv v] by blast
qed

text \<open>
  C9. The exceptions that report broken invariants are unreachable: a method of the version
  manager throws only a runtime error (timestamp space exhausted) or a transaction timeout.
  In particular an update or compaction never finds the window full, a reservation never
  finds the write timestamp behind the frontier, and no check of the timeline reset fails.
\<close>
theorem internal_errors_unreachable:
  assumes "vm_reachable n s" "n < 2 ^ 31" "i < n"
  shows "vts s i \<noteq> VThrown InternalException \<and> vts s i \<noteq> VThrown CheckFailed"
  using data_invD(11) [OF vm_reachable_inv [OF assms(1,2)] assms(3)] by auto

text \<open>
  C10. An update publishes itself: when its completion is about to return, the read frontier is
  the update's own timestamp, nothing is outstanding, and the published view pairs that
  timestamp with the installed snapshot generation. The gate is reopened only after this.
\<close>
theorem update_publishes_itself:
  assumes "vm_reachable n s" "n < 2 ^ 31" "i < n" "vts s i = Complete Upd ts CoUnlock"
  shows "published (data s) = (ts, generation (data s)) \<and> read_ts (data s) = ts \<and>
         write_ts (data s) = ts + 1"
  using data_invD(12) [OF vm_reachable_inv [OF assms(1,2)] assms(3)] assms(4) by simp

text \<open>
  C11. The timeline reset is unobserved: while an update owns the drained all-blocked phase, no
  other thread is at a point that reads or writes the timeline, and no reader holds or is
  about to load a published view.
\<close>
theorem timeline_reset_unobserved:
  assumes "vm_reachable n s" "n < 2 ^ 31" "i < n" "gts s i = Owned kAllBlocked True True"
    and "j < n" "j \<noteq> i"
  shows "role (vts s j) = None \<and> vts s j \<noteq> RdLoad \<and> vts s j \<noteq> RdHeld view"
proof -
  note g = vm_reachable_gate [OF assms(1,2)]
  note inv = gate_reachable_inv [OF conjunct1 [OF g] assms(2)]
  have vg: "vg (vts s j) (gts s j)" using g assms(5) by blast
  have own: "own (gts s j) = None" using gate_inv_owner_alone [OF inv assms(3) _ assms(5,6)] assms(4) by simp
  have "total icnt n (gts s) = 0" "total admitted n (gts s) = 0"
    using inv assms(3,4) unfolding gate_inv_def by auto
  then have z: "icnt (gts s j) = 0" "admitted (gts s j) = 0" using total_zeroD assms(5) by blast+
  have "role (vts s j) = None"
  proof (cases "role (vts s j)")
    case (Some r)
    then show ?thesis using vg_role [OF vg] z own by (cases "r = Ins") auto
  qed
  then show ?thesis using vg z by auto
qed


lemma no_high_bit [simp]: "\<not> bit (x :: u32) (32 + k)"
  using bit_imp_le_length [of x "32 + k"] by auto

text \<open>
  Packing and unpacking the published view are inverse, so a reader's single 64-bit load
  returns the visibility timestamp and the generation of one publication.
\<close>
theorem published_view_round_trip:
  "UnpackPublishedReadView (PackPublishedReadView view) = view \<and>
   PackPublishedReadView (UnpackPublishedReadView packed) = packed"
proof
  show "UnpackPublishedReadView (PackPublishedReadView view) = view"
    by (cases view) (auto simp: UnpackPublishedReadView_def PackPublishedReadView_def bit_simps intro!: bit_word_eqI)
  show "PackPublishedReadView (UnpackPublishedReadView packed) = packed"
    by (rule bit_word_eqI) (auto simp: UnpackPublishedReadView_def PackPublishedReadView_def bit_simps)
qed

section \<open>A concrete run\<close>

lemma vm_reach_gate:
  assumes "vm_reachable n \<lparr> gword = w, gts = g, data = d, vts = v \<rparr>" "i < n"
    "gate_run False False (g i) w = (t', w')"
  shows "vm_reachable n \<lparr> gword = w', gts = g(i := t'), data = d, vts = v \<rparr>"
  using vm_reach_step [OF assms(1) vm_gate [OF assms(2)]] assms(3) by simp

lemma vm_reach_call:
  assumes "vm_reachable n \<lparr> gword = w, gts = g, data = d, vts = v \<rparr>" "i < n"
    "vm_next i w (v i) (g i) d (v', g', d')"
  shows "vm_reachable n \<lparr> gword = w, gts = g(i := g'), data = d', vts = v(i := v') \<rparr>"
  using vm_reach_step [OF assms(1) vm_call [OF assms(2)]] assms(3) by simp

text \<open>Thread 1 reads while thread 0 runs; only thread 0's state is left open.\<close>

definition demo_g :: "gthread \<Rightarrow> gthread \<Rightarrow> nat \<Rightarrow> gthread" where
  "demo_g a b = (\<lambda>_. Idle)(1 := b, 0 := a)"

definition demo_v :: "vthread \<Rightarrow> vthread \<Rightarrow> nat \<Rightarrow> vthread" where
  "demo_v a b = (\<lambda>_. VIdle)(1 := b, 0 := a)"

definition demo_d :: "nat \<Rightarrow> nat \<Rightarrow> nat \<times> nat \<Rightarrow> ts_window \<Rightarrow> nat option \<Rightarrow> vmdata" where
  "demo_d wr rd pub win lk = \<lparr> write_ts = wr, read_ts = rd, generation = 0, published = pub,
     window = win, vlock = lk \<rparr>"

definition demo :: "u64 \<Rightarrow> gthread \<Rightarrow> gthread \<Rightarrow> vmdata \<Rightarrow> vthread \<Rightarrow> vthread \<Rightarrow> bool" where
  "demo w a b d va vb \<longleftrightarrow> vm_reachable 2 \<lparr> gword = w, gts = demo_g a b, data = d, vts = demo_v va vb \<rparr>"

lemma demo_simps [simp]:
  "demo_g a b 0 = a" "demo_g a b (Suc 0) = b" "demo_v va vb 0 = va" "demo_v va vb (Suc 0) = vb"
  "(demo_g a b)(0 := c) = demo_g c b" "(demo_g a b)(Suc 0 := c) = demo_g a c"
  "(demo_v va vb)(0 := vc) = demo_v vc vb" "(demo_v va vb)(Suc 0 := vc) = demo_v va vc"
  by (auto simp: demo_g_def demo_v_def)

lemma demo_run0: "demo w a b d va vb \<Longrightarrow> gate_run False False a w = (a', w') \<Longrightarrow> demo w' a' b d va vb"
  unfolding demo_def using vm_reach_gate [of 2 w "demo_g a b" d "demo_v va vb" 0] by simp

lemma demo_run1: "demo w a b d va vb \<Longrightarrow> gate_run False False b w = (b', w') \<Longrightarrow> demo w' a b' d va vb"
  unfolding demo_def using vm_reach_gate [of 2 w "demo_g a b" d "demo_v va vb" 1] by simp

lemma demo_call0: "demo w a b d va vb \<Longrightarrow> vm_next 0 w va a d (va', a', d') \<Longrightarrow> demo w a' b d' va' vb"
  unfolding demo_def using vm_reach_call [of 2 w "demo_g a b" d "demo_v va vb" 0] by simp

lemma demo_call1: "demo w a b d va vb \<Longrightarrow> vm_next 1 w vb b d (vb', b', d') \<Longrightarrow> demo w a b' d' va vb'"
  unfolding demo_def using vm_reach_call [of 2 w "demo_g a b" d "demo_v va vb" 1] by simp

lemma demo_start: "demo (gate_word kOpen 0 0) Idle Idle (demo_d 1 0 (0, 0) window_init None) VIdle VIdle"
  unfolding demo_def
  by (rule vm_reach_init)
     (auto simp: vm_init_def reset_open_def empty_word_gate_word demo_g_def demo_v_def init_ts_def demo_d_def
       intro!: exI [of _ 0])

lemmas demo_eval = vm_next_def vm_method_defs demo_d_def gate_word_simps gate_defs

lemma demo_reader_held:
  "demo (gate_word kOpen 0 1) Idle SharedHeld (demo_d 1 0 (0, 0) window_init None) VIdle (RdHeld (0, 0))"
proof -
  let ?d = "demo_d 1 0 (0, 0) window_init None"
  have "demo (gate_word kOpen 0 0) Idle (AcqShared False SLoad) ?d VIdle RdAcquire"
    by (rule demo_call1 [OF demo_start]) (simp add: demo_eval)
  from demo_run1 [OF this] have "demo (gate_word kOpen 0 0) Idle (AcqShared False SAdd) ?d VIdle RdAcquire"
    by (simp add: demo_eval)
  from demo_run1 [OF this] have "demo (gate_word kOpen 0 1) Idle SharedHeld ?d VIdle RdAcquire"
    by (simp add: demo_eval)
  from demo_call1 [OF this] have "demo (gate_word kOpen 0 1) Idle SharedHeld ?d VIdle RdLoad"
    by (simp add: demo_eval)
  from demo_call1 [OF this] show ?thesis by (simp add: demo_eval)
qed

lemma vm_nextI:
  "acquire_insert_timestamp False v g d = Some r \<Longrightarrow> vm_next me w v g d r"
  "acquire_update_timestamp v g d = Some r \<Longrightarrow> vm_next me w v g d r"
  "reserve_update_timestamp False v g d = Some r \<Longrightarrow> vm_next me w v g d r"
  "begin_update_commit v g d = Some r \<Longrightarrow> vm_next me w v g d r"
  "drain_readers w v g d = Some r \<Longrightarrow> vm_next me w v g d r"
  "finish_update_timestamp me None v g d = Some r \<Longrightarrow> vm_next me w v g d r"
  unfolding vm_next_def by blast+

lemma demo_insert_held:
  "demo (gate_word kOpen 1 1) InserterHeld SharedHeld (demo_d 2 0 (0, 0) window_init None) (Held Ins 1) (RdHeld (0, 0))"
proof -
  let ?d = "demo_d 1 0 (0, 0) window_init None" and ?w = "gate_word kOpen 0 1" and ?w' = "gate_word kOpen 1 1"
  let ?a = "Acquire Ins Block AEnter" and ?r = "RdHeld (0, 0)"
  note call = vm_nextI(1) and ev = acquire_insert_timestamp_def demo_d_def outstanding_def kWindowSize_def
  have "demo ?w (AcqInserter CLoad) SharedHeld ?d ?a ?r"
    by (rule demo_call0 [OF demo_reader_held call]) (simp add: ev)
  from demo_run0 [OF this] have "demo ?w (AcqInserter (CTry ?w)) SharedHeld ?d ?a ?r" by (simp add: demo_eval)
  from demo_run0 [OF this] have "demo ?w' InserterHeld SharedHeld ?d ?a ?r" by (simp add: demo_eval)
  from demo_call0 [OF this call] have "demo ?w' InserterHeld SharedHeld ?d (Reserve Ins RvLoad) ?r" by (simp add: ev)
  from demo_call0 [OF this call] have "demo ?w' InserterHeld SharedHeld ?d (Reserve Ins (RvCheck 1)) ?r" by (simp add: ev)
  from demo_call0 [OF this call] have "demo ?w' InserterHeld SharedHeld ?d (Reserve Ins (RvCas 1)) ?r" by (simp add: ev)
  from demo_call0 [OF this call] show ?thesis by (simp add: ev flip: numeral_2_eq_2)
qed

lemma demo_update_held:
  "demo (gate_word kInsertsBlocked 0 0) (Owned kInsertsBlocked True False) Idle
     (demo_d 2 0 (0, 0) window_init None) (Held Upd 1) VIdle"
proof -
  let ?d = "demo_d 1 0 (0, 0) window_init None" and ?w = "gate_word kOpen 0 0" and ?w' = "gate_word kInsertsBlocked 0 0"
  let ?o = "Owned kInsertsBlocked True False"
  note call = vm_nextI(2) and rcall = vm_nextI(3)
    and ev = acquire_update_timestamp_def reserve_update_timestamp_def demo_d_def outstanding_def kWindowSize_def
  have "demo ?w (Entering kInsertsBlocked CLoad) Idle ?d (Acquire Upd Block AEnter) VIdle"
    by (rule demo_call0 [OF demo_start call]) (simp add: ev)
  from demo_run0 [OF this] have "demo ?w (Entering kInsertsBlocked (CTry ?w)) Idle ?d (Acquire Upd Block AEnter) VIdle"
    by (simp add: demo_eval)
  from demo_run0 [OF this] have "demo ?w' (Owned kInsertsBlocked False False) Idle ?d (Acquire Upd Block AEnter) VIdle"
    by (simp add: demo_eval)
  from demo_call0 [OF this call] have "demo ?w' (WaitIns kInsertsBlocked False False) Idle ?d (Acquire Upd Block ADrain1) VIdle"
    by (simp add: ev)
  from demo_run0 [OF this] have "demo ?w' ?o Idle ?d (Acquire Upd Block ADrain1) VIdle" by (simp add: demo_eval)
  from demo_call0 [OF this call] have "demo ?w' ?o Idle ?d (Reserve Upd RvLoad) VIdle" by (simp add: ev)
  from demo_call0 [OF this rcall] have "demo ?w' ?o Idle ?d (Reserve Upd (RvCheck 1)) VIdle" by (simp add: ev)
  from demo_call0 [OF this rcall] have "demo ?w' ?o Idle ?d (Reserve Upd (RvCas 1)) VIdle" by (simp add: ev)
  from demo_call0 [OF this rcall] show ?thesis by (simp add: ev flip: numeral_2_eq_2)
qed

lemma demo_update_exclusive:
  "demo (gate_word kAllBlocked 0 0) (Owned kAllBlocked True True) Idle
     (demo_d 2 0 (0, 0) window_init None) (Held Upd 1) VIdle"
proof -
  let ?d = "demo_d 2 0 (0, 0) window_init None" and ?w = "gate_word kInsertsBlocked 0 0" and ?w' = "gate_word kAllBlocked 0 0"
  have "demo ?w (Transition kInsertsBlocked kAllBlocked True False CLoad) Idle ?d (Held Upd 1) VIdle"
    by (rule demo_call0 [OF demo_update_held vm_nextI(4)]) (simp add: begin_update_commit_def)
  from demo_run0 [OF this] have "demo ?w (Transition kInsertsBlocked kAllBlocked True False (CTry ?w)) Idle ?d (Held Upd 1) VIdle"
    by (simp add: demo_eval)
  from demo_run0 [OF this] have "demo ?w' (Owned kAllBlocked True False) Idle ?d (Held Upd 1) VIdle" by (simp add: demo_eval)
  from demo_call0 [OF this vm_nextI(5)] have "demo ?w' (WaitRd kAllBlocked True False) Idle ?d (Held Upd 1) VIdle"
    by (simp add: drain_readers_def gate_word_fields)
  from demo_run0 [OF this] show ?thesis by (simp add: demo_eval)
qed

lemma demo_update_publishing:
  "\<exists>win. demo (gate_word kAllBlocked 0 0) (Owned kAllBlocked True True) Idle
     (demo_d 2 1 (1, 0) win (Some 0)) (Complete Upd 1 CoUnlock) VIdle"
proof -
  let ?w = "gate_word kAllBlocked 0 0" and ?o = "Owned kAllBlocked True True" and ?m = "mark_completed 1 window_init"
  let ?c = "window_clear 1 ?m"
  note call = vm_nextI(6) and ev = finish_update_timestamp_def demo_d_def
  have n2: "\<not> is_completed 2 ?c"
    by (simp add: is_completed_def window_clear_def mark_completed_def window_init_def ts_index_def kWindowSize_def)
  have "demo ?w ?o Idle (demo_d 2 0 (0, 0) window_init None) (Complete Upd 1 CoMark) VIdle"
    by (rule demo_call0 [OF demo_update_exclusive call]) (simp add: ev)
  from demo_call0 [OF this call] have "demo ?w ?o Idle (demo_d 2 0 (0, 0) ?m None) (Complete Upd 1 CoLock) VIdle"
    by (simp add: ev)
  from demo_call0 [OF this call] have "demo ?w ?o Idle (demo_d 2 0 (0, 0) ?m (Some 0)) (Complete Upd 1 CoCheck) VIdle"
    by (simp add: ev)
  from demo_call0 [OF this call] have "demo ?w ?o Idle (demo_d 2 0 (0, 0) ?m (Some 0)) (Complete Upd 1 (CoAdvance 0)) VIdle"
    by (simp add: ev)
  from demo_call0 [OF this call] have "demo ?w ?o Idle (demo_d 2 0 (0, 0) ?m (Some 0)) (Complete Upd 1 (CoClear 1)) VIdle"
    by (simp add: ev window_lookup(1) [of 1, simplified])
  from demo_call0 [OF this call] have "demo ?w ?o Idle (demo_d 2 0 (0, 0) ?c (Some 0)) (Complete Upd 1 (CoStore 1)) VIdle"
    by (simp add: ev)
  from demo_call0 [OF this call] have "demo ?w ?o Idle (demo_d 2 1 (0, 0) ?c (Some 0)) (Complete Upd 1 (CoAdvance 1)) VIdle"
    by (simp add: ev)
  from demo_call0 [OF this call] have "demo ?w ?o Idle (demo_d 2 1 (0, 0) ?c (Some 0)) (Complete Upd 1 (CoPublish 1)) VIdle"
    using n2 by (simp add: ev flip: numeral_2_eq_2)
  from demo_call0 [OF this call] have "demo ?w ?o Idle (demo_d 2 1 (1, 0) ?c (Some 0)) (Complete Upd 1 CoUnlock) VIdle"
    by (simp add: ev)
  then show ?thesis by blast
qed

theorem reader_never_sees_unfinished_write_witness:
  "demo_v (Held Ins 1) (RdHeld (0, 0)) 1 = RdHeld (0, 0) \<and> owner (Held Ins 1) = Some 1 \<and> (0::nat) < 1"
  using reader_never_sees_unfinished_write [OF demo_insert_held [unfolded demo_def], of 1 0 0 0 1] by simp

theorem write_timestamps_unique_witness: "(1::nat) \<le> kWindowSize"
  using write_timestamps_unique [OF demo_insert_held [unfolded demo_def], of 0 1] by (simp add: demo_d_def)

theorem frontier_catches_up_witness:
  "published (demo_d 1 0 (0, 0) window_init None) = (0, 0)"
  using frontier_catches_up [OF demo_start [unfolded demo_def]]
  by (simp add: demo_d_def demo_v_def)

theorem internal_errors_unreachable_witness:
  "demo_v (Held Ins 1) (RdHeld (0, 0)) 0 \<noteq> VThrown InternalException"
  using internal_errors_unreachable [OF demo_insert_held [unfolded demo_def], of 0] by simp

theorem update_publishes_itself_witness: "\<exists>win. published (demo_d 2 1 (1, 0) win (Some 0)) = (1, 0)"
proof -
  obtain win where w: "demo (gate_word kAllBlocked 0 0) (Owned kAllBlocked True True) Idle
     (demo_d 2 1 (1, 0) win (Some 0)) (Complete Upd 1 CoUnlock) VIdle" using demo_update_publishing by blast
  show ?thesis
    using update_publishes_itself [OF w [unfolded demo_def], of 0 1] by (auto simp: demo_d_def)
qed

theorem timeline_reset_unobserved_witness: "role VIdle = None"
  using timeline_reset_unobserved [OF demo_update_exclusive [unfolded demo_def], of 0 1] by simp

end
