(* ===== verification/Snapshot_Store.thy ===== *)
theory Snapshot_Store
  imports Prelude
begin

text \<open>
  The store of published graph snapshots
  (\<open>include/neug/storages/graph_snapshot_store.h\<close>,
  \<open>src/storages/graph/graph_snapshot_store.cc\<close>): a fixed array of slots with reference
  counts, a current slot, and a free list. Readers pin the current slot without locks,
  writers prepare a new slot and publish it by one exchange, and whoever drops the last
  pin of a slot that is no longer current recycles it. The methods are functions that
  perform their next shared access; any number of tasks interleave. A graph is an opaque
  value \<open>'g\<close>, and the view of a slot is represented by the graph it was built from.
\<close>

section \<open>State\<close>

definition kCleanupSentinel :: int where "kCleanupSentinel = - (2 ^ 20)"

record 'g SnapshotSlot =
  storage :: "'g option"
  view :: "'g option"
  slot_generation :: nat
  planning_generation :: nat
  reader_count :: int

record 'g snapshot_store =
  slot_num :: nat
  slots :: "nat \<Rightarrow> 'g SnapshotSlot"
  cur_slot_index :: nat
  last_reserved_generation :: nat
  free_list :: "nat list"

definition empty_slot :: "'g SnapshotSlot" where
  "empty_slot = \<lparr> storage = None, view = None, slot_generation = 0, planning_generation = 0,
                  reader_count = 0 \<rparr>"

definition store_init :: "nat \<Rightarrow> 'g \<Rightarrow> nat \<Rightarrow> 'g snapshot_store" where
  "store_init num pg gen =
     \<lparr> slot_num = num,
       slots = (\<lambda>_. empty_slot)(0 := \<lparr> storage = Some pg, view = Some pg, slot_generation = gen,
                                       planning_generation = 0, reader_count = 1 \<rparr>),
       cur_slot_index = 0, last_reserved_generation = gen, free_list = [1..<num] \<rparr>"

definition upd_slot ::
  "nat \<Rightarrow> ('g SnapshotSlot \<Rightarrow> 'g SnapshotSlot) \<Rightarrow> 'g snapshot_store \<Rightarrow> 'g snapshot_store" where
  "upd_slot s f st = st \<lparr> slots := (slots st)(s := f (slots st s)) \<rparr>"

definition count_add :: "nat \<Rightarrow> int \<Rightarrow> 'g snapshot_store \<Rightarrow> 'g snapshot_store" where
  "count_add s k = upd_slot s (\<lambda>x. x \<lparr> reader_count := reader_count x + k \<rparr>)"

definition count_store :: "nat \<Rightarrow> int \<Rightarrow> 'g snapshot_store \<Rightarrow> 'g snapshot_store" where
  "count_store s k = upd_slot s (\<lambda>x. x \<lparr> reader_count := k \<rparr>)"

text \<open>The free list is a stack under its mutex.\<close>

definition getFreeSlot :: "'g snapshot_store \<Rightarrow> nat option \<times> 'g snapshot_store" where
  "getFreeSlot st = (if free_list st = [] then (None, st)
     else (Some (last (free_list st)), st \<lparr> free_list := butlast (free_list st) \<rparr>))"

definition returnFreeSlot :: "nat \<Rightarrow> 'g snapshot_store \<Rightarrow> 'g snapshot_store" where
  "returnFreeSlot s st = st \<lparr> free_list := free_list st @ [s] \<rparr>"

definition reset_fields :: "nat \<Rightarrow> 'g snapshot_store \<Rightarrow> 'g snapshot_store" where
  "reset_fields s = upd_slot s (\<lambda>x. x \<lparr> storage := None, view := None, slot_generation := 0,
                                        planning_generation := 0 \<rparr>)"

section \<open>Tasks\<close>

text \<open>
  \<open>RetryPin\<close> and \<open>Done\<close> say where an unpin returns to: the pin loop, or the caller.
  \<open>Pinned s\<close> holds a returned pin, \<open>Prepared s\<close> a \<open>PreparedSnapshot\<close> token.
\<close>

datatype unpin_cont = RetryPin | Done

datatype stask =
    SIdle
  | PinLoad | PinCount nat | PinCas nat int | PinRecheck nat | Pinned nat
  | Unpin unpin_cont nat | UnpinLast unpin_cont nat | CleanCas unpin_cont nat
  | CleanReset unpin_cont nat | CleanOpen unpin_cont nat | CleanReturn unpin_cont nat
  | PrepGet | PrepGen nat | PrepGenCas nat nat | PrepGuard nat nat | PrepFill nat nat
  | PrepOpen nat | PrepUndo nat | PrepUndoReturn nat | Prepared nat
  | PubCheck nat | PubExchange nat
  | SThrown neug_error

fun unpin_return :: "unpin_cont \<Rightarrow> stask" where
  "unpin_return RetryPin = PinLoad"
| "unpin_return Done = SIdle"

abbreviation count :: "'g snapshot_store \<Rightarrow> nat \<Rightarrow> int" where
  "count st s \<equiv> reader_count (slots st s)"

fun PinCurrentSnapshot_step :: "bool \<Rightarrow> stask \<Rightarrow> 'g snapshot_store \<Rightarrow> stask \<times> 'g snapshot_store" where
  "PinCurrentSnapshot_step spurious PinLoad st = (PinCount (cur_slot_index st), st)"
| "PinCurrentSnapshot_step spurious (PinCount s) st =
     (if count st s > 0 then PinCas s (count st s) else PinLoad, st)"
| "PinCurrentSnapshot_step spurious (PinCas s observed) st =
     (if count st s = observed \<and> \<not> spurious then (PinRecheck s, count_store s (observed + 1) st)
      else (if count st s > 0 then PinCas s (count st s) else PinLoad, st))"
| "PinCurrentSnapshot_step spurious (PinRecheck s) st =
     (if cur_slot_index st = s then Pinned s else Unpin RetryPin s, st)"
| "PinCurrentSnapshot_step spurious t st = (t, st)"

fun unpinSnapshotByIndex_step :: "stask \<Rightarrow> 'g snapshot_store \<Rightarrow> stask \<times> 'g snapshot_store" where
  "unpinSnapshotByIndex_step (Unpin k s) st =
     (if s \<ge> slot_num st then (unpin_return k, st)
      else (if count st s \<le> 0 then unpin_return k
            else if count st s = 1 then UnpinLast k s else unpin_return k, count_add s (- 1) st))"
| "unpinSnapshotByIndex_step (UnpinLast k s) st =
     (if s \<noteq> cur_slot_index st \<and> storage (slots st s) \<noteq> None then CleanCas k s else unpin_return k, st)"
| "unpinSnapshotByIndex_step (CleanCas k s) st =
     (if count st s = 0 then (CleanReset k s, count_store s kCleanupSentinel st)
      else (unpin_return k, st))"
| "unpinSnapshotByIndex_step t st = (t, st)"

fun cleanupSlot_step :: "stask \<Rightarrow> 'g snapshot_store \<Rightarrow> stask \<times> 'g snapshot_store" where
  "cleanupSlot_step (CleanReset k s) st = (CleanOpen k s, reset_fields s st)"
| "cleanupSlot_step (CleanOpen k s) st = (CleanReturn k s, count_add s (- kCleanupSentinel) st)"
| "cleanupSlot_step (CleanReturn k s) st = (unpin_return k, returnFreeSlot s st)"
| "cleanupSlot_step t st = (t, st)"

fun reserveSnapshotGeneration_step :: "bool \<Rightarrow> stask \<Rightarrow> 'g snapshot_store \<Rightarrow> stask \<times> 'g snapshot_store" where
  "reserveSnapshotGeneration_step spurious (PrepGen s) st = (PrepGenCas s (last_reserved_generation st), st)"
| "reserveSnapshotGeneration_step spurious (PrepGenCas s current) st =
     (if current = u32_max then (PrepUndo s, st)
      else if last_reserved_generation st = current \<and> \<not> spurious
      then (PrepGuard s (u32_succ current), st \<lparr> last_reserved_generation := u32_succ current \<rparr>)
      else (PrepGenCas s (last_reserved_generation st), st))"
| "reserveSnapshotGeneration_step spurious t st = (t, st)"

text \<open>\<open>PrepareSnapshot\<close> of the graph \<open>new_pg\<close>; an exhausted pool and a null graph are error
  statuses, an exhausted generation space is thrown after the slot went back.\<close>

fun PrepareSnapshot_step ::
  "'g option \<Rightarrow> nat \<Rightarrow> stask \<Rightarrow> 'g snapshot_store \<Rightarrow> stask \<times> 'g snapshot_store" where
  "PrepareSnapshot_step new_pg planning PrepGet st =
     (if new_pg = None then (SIdle, st)
      else case getFreeSlot st of (None, st') \<Rightarrow> (SIdle, st') | (Some s, st') \<Rightarrow> (PrepGen s, st'))"
| "PrepareSnapshot_step new_pg planning (PrepGuard s gen) st =
     (PrepFill s gen, count_store s kCleanupSentinel st)"
| "PrepareSnapshot_step new_pg planning (PrepFill s gen) st =
     (case new_pg of None \<Rightarrow> (PrepFill s gen, st)
      | Some pg \<Rightarrow> (PrepOpen s, upd_slot s (\<lambda>x. x \<lparr> storage := Some pg, view := Some pg,
           slot_generation := gen, planning_generation := planning \<rparr>) st))"
| "PrepareSnapshot_step new_pg planning (PrepOpen s) st =
     (Prepared s, count_add s (- kCleanupSentinel + 1) st)"
| "PrepareSnapshot_step new_pg planning (PrepUndo s) st =
     (PrepUndoReturn s, count_store s 0 (reset_fields s st))"
| "PrepareSnapshot_step new_pg planning (PrepUndoReturn s) st =
     (SThrown RuntimeError, returnFreeSlot s st)"
| "PrepareSnapshot_step new_pg planning t st = (t, st)"

fun publishPreparedSnapshot_step :: "stask \<Rightarrow> 'g snapshot_store \<Rightarrow> stask \<times> 'g snapshot_store" where
  "publishPreparedSnapshot_step (PubCheck s) st =
     (if s \<ge> slot_num st then SThrown CheckFailed
      else if count st s < 1 then SThrown CheckFailed else PubExchange s, st)"
| "publishPreparedSnapshot_step (PubExchange s) st =
     (Unpin Done (cur_slot_index st), st \<lparr> cur_slot_index := s \<rparr>)"
| "publishPreparedSnapshot_step t st = (t, st)"

text \<open>
  Calls: \<open>SnapshotGuard\<close> and \<open>PreparedSnapshot\<close> release what they hold exactly once.
\<close>

inductive store_call :: "stask \<Rightarrow> stask \<Rightarrow> bool" where
  call_pin: "store_call SIdle PinLoad"
| call_prepare: "store_call SIdle PrepGet"
| call_release: "store_call (Pinned s) (Unpin Done s)"
| call_publish: "store_call (Prepared s) (PubCheck s)"
| call_discard: "store_call (Prepared s) (Unpin Done s)"

definition task_steps :: "stask \<Rightarrow> 'g snapshot_store \<Rightarrow> stask \<times> 'g snapshot_store \<Rightarrow> bool" where
  "task_steps t st r \<longleftrightarrow>
     (\<exists>sp. PinCurrentSnapshot_step sp t st = r) \<or> unpinSnapshotByIndex_step t st = r \<or>
     cleanupSlot_step t st = r \<or> (\<exists>sp. reserveSnapshotGeneration_step sp t st = r) \<or>
     (\<exists>pg pl. PrepareSnapshot_step pg pl t st = r) \<or> publishPreparedSnapshot_step t st = r \<or>
     (store_call t (fst r) \<and> snd r = st)"

inductive store_step ::
  "nat \<Rightarrow> 'g snapshot_store \<times> (nat \<Rightarrow> stask) \<Rightarrow> 'g snapshot_store \<times> (nat \<Rightarrow> stask) \<Rightarrow> bool" for n where
  task: "i < n \<Longrightarrow> task_steps (ts i) st (t', st') \<Longrightarrow> store_step n (st, ts) (st', ts(i := t'))"

inductive store_reachable :: "nat \<Rightarrow> 'g snapshot_store \<times> (nat \<Rightarrow> stask) \<Rightarrow> bool" for n where
  st_init: "0 < num \<Longrightarrow> gen \<le> u32_max \<Longrightarrow> store_reachable n (store_init num pg gen, \<lambda>_. SIdle)"
| st_step: "store_reachable n c \<Longrightarrow> store_step n c c' \<Longrightarrow> store_reachable n c'"

section \<open>Who holds a slot\<close>

text \<open>Counted pins, and exclusive owners between the last unpin and the return to the free
  list, or between leaving the free list and the prep-pin.\<close>

fun pinc :: "nat \<Rightarrow> stask \<Rightarrow> nat" where
  "pinc s (PinRecheck x) = (if x = s then 1 else 0)"
| "pinc s (Pinned x) = (if x = s then 1 else 0)"
| "pinc s (Unpin k x) = (if x = s then 1 else 0)"
| "pinc s (Prepared x) = (if x = s then 1 else 0)"
| "pinc s (PubCheck x) = (if x = s then 1 else 0)"
| "pinc s (PubExchange x) = (if x = s then 1 else 0)"
| "pinc s _ = 0"

fun excl :: "stask \<Rightarrow> nat option" where
  "excl (UnpinLast k x) = Some x"
| "excl (CleanCas k x) = Some x"
| "excl (CleanReset k x) = Some x"
| "excl (CleanOpen k x) = Some x"
| "excl (CleanReturn k x) = Some x"
| "excl (PrepGen x) = Some x"
| "excl (PrepGenCas x c) = Some x"
| "excl (PrepGuard x g) = Some x"
| "excl (PrepFill x g) = Some x"
| "excl (PrepOpen x) = Some x"
| "excl (PrepUndo x) = Some x"
| "excl (PrepUndoReturn x) = Some x"
| "excl _ = None"

definition exc :: "nat \<Rightarrow> stask \<Rightarrow> nat" where
  "exc s t = (if excl t = Some s then 1 else 0)"

end
