(* ===== verification/Store_Invariant.thy ===== *)
theory Store_Invariant
  imports Snapshot_Store
begin

text \<open>
  The invariants of the interleaved snapshot store: every slot is pinned with its count equal
  to the number of pins, or has exactly one exclusive owner, or is free and empty; and the
  generations of stored and reserved snapshots are pairwise distinct. Each step of each method
  preserves them.
\<close>

section \<open>The invariant\<close>

fun task_slot :: "stask \<Rightarrow> nat option" where
  "task_slot (PinCount s) = Some s"
| "task_slot (PinCas s ob) = Some s"
| "task_slot (PinRecheck s) = Some s"
| "task_slot (Pinned s) = Some s"
| "task_slot (Unpin k s) = Some s"
| "task_slot (Prepared s) = Some s"
| "task_slot (PubCheck s) = Some s"
| "task_slot (PubExchange s) = Some s"
| "task_slot t = excl t"

fun task_ok :: "'g snapshot_store \<Rightarrow> stask \<Rightarrow> bool" where
  "task_ok st (PinCas s ob) = (0 < ob)"
| "task_ok st (UnpinLast k s) = (count st s = 0 \<and> storage (slots st s) \<noteq> None)"
| "task_ok st (CleanCas k s) = (count st s = 0 \<and> storage (slots st s) \<noteq> None)"
| "task_ok st (CleanReset k s) = (count st s = kCleanupSentinel)"
| "task_ok st (CleanOpen k s) = (count st s = kCleanupSentinel \<and> storage (slots st s) = None)"
| "task_ok st (CleanReturn k s) = (count st s = 0 \<and> storage (slots st s) = None)"
| "task_ok st (PrepGen s) = (count st s = 0 \<and> storage (slots st s) = None)"
| "task_ok st (PrepGenCas s c) = (count st s = 0 \<and> storage (slots st s) = None)"
| "task_ok st (PrepGuard s g) = (count st s = 0 \<and> storage (slots st s) = None)"
| "task_ok st (PrepFill s g) = (count st s = kCleanupSentinel \<and> storage (slots st s) = None)"
| "task_ok st (PrepOpen s) = (count st s = kCleanupSentinel \<and> storage (slots st s) \<noteq> None)"
| "task_ok st (PrepUndo s) = (count st s = 0 \<and> storage (slots st s) = None)"
| "task_ok st (PrepUndoReturn s) = (count st s = 0 \<and> storage (slots st s) = None)"
| "task_ok st (SThrown e) = (e = RuntimeError)"
| "task_ok st _ = True"

definition curc :: "'g snapshot_store \<Rightarrow> nat \<Rightarrow> nat" where
  "curc st s = (if cur_slot_index st = s then 1 else 0)"

text \<open>A slot is pinned (its count is the number of pins), or has one exclusive owner, or is
  free and empty.\<close>

definition slot_ok :: "'g SnapshotSlot \<Rightarrow> nat \<Rightarrow> nat \<Rightarrow> nat \<Rightarrow> bool" where
  "slot_ok x pins owners frees \<longleftrightarrow>
     owners + frees + (if 0 < pins then 1 else 0) = 1 \<and>
     (0 < pins \<longrightarrow> reader_count x = int pins \<and> storage x \<noteq> None) \<and>
     (0 < frees \<longrightarrow> reader_count x = 0 \<and> storage x = None)"

definition store_inv :: "nat \<Rightarrow> 'g snapshot_store \<Rightarrow> (nat \<Rightarrow> stask) \<Rightarrow> bool" where
  "store_inv n st ts \<longleftrightarrow> cur_slot_index st < slot_num st \<and> (\<forall>s\<in>set (free_list st). s < slot_num st) \<and>
     (\<forall>s < slot_num st. slot_ok (slots st s) (total (pinc s) n ts + curc st s) (total (exc s) n ts)
        (count_list (free_list st) s)) \<and>
     (\<forall>i<n. task_ok st (ts i) \<and> (\<forall>s. task_slot (ts i) = Some s \<longrightarrow> s < slot_num st))"

lemma task_ok_slot:
  assumes "task_ok st t" "\<And>s. excl t = Some s \<Longrightarrow> slots st' s = slots st s"
  shows "task_ok st' t"
  using assms by (cases t) auto

lemma store_inv_move:
  assumes inv: "store_inv n st ts" and i: "i < n"
    and num: "slot_num st' = slot_num st" and cur: "cur_slot_index st' < slot_num st"
    and free: "\<forall>s\<in>set (free_list st'). s < slot_num st"
    and same: "\<And>s. s \<noteq> x \<Longrightarrow> slots st' s = slots st s \<and> pinc s t' + curc st' s = pinc s (ts i) + curc st s \<and>
        exc s t' = exc s (ts i) \<and> count_list (free_list st') s = count_list (free_list st) s"
    and x: "slot_ok (slots st' x) (pinc x t' + others (pinc x) n i ts + curc st' x)
        (exc x t' + others (exc x) n i ts) (count_list (free_list st') x)"
    and t': "task_ok st' t'" "\<And>s. task_slot t' = Some s \<Longrightarrow> s < slot_num st"
    and alone: "slots st' x = slots st x \<or> others (exc x) n i ts = 0"
  shows "store_inv n st' (ts(i := t'))"
proof -
  have slot: "slot_ok (slots st' s) (total (pinc s) n (ts(i := t')) + curc st' s) (total (exc s) n (ts(i := t')))
        (count_list (free_list st') s)" if "s < slot_num st" for s
  proof (cases "s = x")
    case True
    then show ?thesis using x by (simp add: total_upd [OF i] ac_simps)
  next
    case False
    then have "slot_ok (slots st s) (pinc s (ts i) + others (pinc s) n i ts + curc st s)
       (exc s (ts i) + others (exc s) n i ts) (count_list (free_list st) s)"
      using inv that unfolding store_inv_def by (simp add: total_split [OF i, symmetric])
    moreover have "total (pinc s) n (ts(i := t')) + curc st' s = pinc s (ts i) + others (pinc s) n i ts + curc st s"
      "total (exc s) n (ts(i := t')) = exc s (ts i) + others (exc s) n i ts"
      using same [OF False] by (simp_all add: total_upd [OF i])
    ultimately show ?thesis using same [OF False] by simp
  qed
  have "task_ok st' (ts j)" if "j < n" "j \<noteq> i" for j
  proof (rule task_ok_slot)
    show "task_ok st (ts j)" using inv that unfolding store_inv_def by auto
    fix s assume "excl (ts j) = Some s"
    then have "0 < others (exc s) n i ts" using others_member [OF that, of "exc s" ts] by (simp add: exc_def)
    then show "slots st' s = slots st s" using alone same by (cases "s = x") auto
  qed
  then show ?thesis using inv slot num cur free t' unfolding store_inv_def by auto
qed


lemma inv_slot:
  assumes "store_inv n st ts" "i < n" "s < slot_num st"
  shows "slot_ok (slots st s) (pinc s (ts i) + others (pinc s) n i ts + curc st s)
       (exc s (ts i) + others (exc s) n i ts) (count_list (free_list st) s)"
  using assms unfolding store_inv_def by (simp add: total_split [OF assms(2), symmetric])

lemma inv_basic:
  assumes "store_inv n st ts"
  shows "cur_slot_index st < slot_num st" "\<forall>s\<in>set (free_list st). s < slot_num st"
  using assms unfolding store_inv_def by blast+

lemma inv_task:
  assumes "store_inv n st ts" "i < n"
  shows "task_ok st (ts i)" "task_slot (ts i) = Some s \<Longrightarrow> s < slot_num st"
  using assms unfolding store_inv_def by blast+

text \<open>Moves that touch no slot: only the task changes, with the same holdings.\<close>

lemma inv_task_only:
  assumes inv: "store_inv n st ts" and i: "i < n" and "\<And>s. pinc s t' = pinc s (ts i)" "excl t' = excl (ts i)"
    and "task_ok st t'" "\<And>s. task_slot t' = Some s \<Longrightarrow> s < slot_num st"
  shows "store_inv n st (ts(i := t'))"
  using assms(3-) inv_slot [OF inv i] inv_basic [OF inv]
  by (intro store_inv_move [OF inv i, where x = "cur_slot_index st"]) (auto simp: exc_def)

lemma positive_count_pinned:
  assumes inv: "store_inv n st ts" and i: "i < n" and s: "s < slot_num st" and "0 < count st s"
  shows "0 < total (pinc s) n ts + curc st s"
proof (rule ccontr)
  assume no: "\<not> 0 < total (pinc s) n ts + curc st s"
  then have "total (exc s) n ts + count_list (free_list st) s = 1" "count_list (free_list st) s = 0"
    using inv s \<open>0 < count st s\<close> unfolding store_inv_def slot_ok_def by auto
  then obtain j where j: "j < n" "exc s (ts j) \<noteq> 0"
    unfolding total_def by (metis (no_types, lifting) add_0_right lessThan_iff sum.neutral zero_neq_one)
  then have "excl (ts j) = Some s" "task_ok st (ts j)"
    using inv unfolding store_inv_def exc_def by (auto split: if_splits)
  then have "count st s \<le> 0" by (cases "ts j") (auto simp: kCleanupSentinel_def)
  then show False using \<open>0 < count st s\<close> by simp
qed

lemma slots_upd [simp]:
  "slots (upd_slot s f st) = (slots st)(s := f (slots st s))" "slot_num (upd_slot s f st) = slot_num st"
  "cur_slot_index (upd_slot s f st) = cur_slot_index st" "free_list (upd_slot s f st) = free_list st"
  "last_reserved_generation (upd_slot s f st) = last_reserved_generation st"
  "curc (upd_slot s f st) k = curc st k"
  by (simp_all add: upd_slot_def curc_def)

lemma unpin_return_simps [simp]:
  "pinc s (unpin_return k) = 0" "excl (unpin_return k) = None" "task_ok st (unpin_return k)"
  "task_slot (unpin_return k) = None" "exc s (unpin_return k) = 0"
  by (cases k; simp add: exc_def)+

lemma inv_pin:
  assumes inv: "store_inv n st ts" and i: "i < n"
    and st: "PinCurrentSnapshot_step sp (ts i) st = (t', st')"
  shows "store_inv n st' (ts(i := t'))"
proof (cases "ts i")
  case PinLoad
  then have e: "st' = st" "t' = PinCount (cur_slot_index st)" using st by auto
  have "cur_slot_index st < slot_num st" using inv unfolding store_inv_def by simp
  then show ?thesis unfolding e using PinLoad by (intro inv_task_only [OF inv i]) auto
next
  case (PinCount s)
  then have s: "s < slot_num st" using inv_task [OF inv i] by simp
  have e: "st' = st" "t' = (if count st s > 0 then PinCas s (count st s) else PinLoad)"
    using st PinCount by auto
  show ?thesis unfolding e using PinCount s by (intro inv_task_only [OF inv i]) (auto split: if_splits)
next
  case (PinRecheck s)
  then have s: "s < slot_num st" using inv_task [OF inv i] by simp
  have e: "st' = st" "t' = (if cur_slot_index st = s then Pinned s else Unpin RetryPin s)"
    using st PinRecheck by auto
  show ?thesis unfolding e using PinRecheck s by (intro inv_task_only [OF inv i]) (auto split: if_splits)
next
  case (PinCas s ob)
  then have s: "s < slot_num st" and ob: "0 < ob" using inv_task [OF inv i] by simp_all
  show ?thesis
  proof (cases "count st s = ob \<and> \<not> sp")
    case True
    then have "0 < total (pinc s) n ts + curc st s" using positive_count_pinned [OF inv i s] ob by simp
    then have p: "0 < others (pinc s) n i ts + curc st s" using PinCas by (simp add: total_split [OF i])
    have e: "st' = count_add s 1 st" "t' = PinRecheck s"
      using True st PinCas by (auto simp: count_store_def count_add_def)
    have ok: "slot_ok (slots st s) (others (pinc s) n i ts + curc st s) (others (exc s) n i ts)
        (count_list (free_list st) s)" using inv_slot [OF inv i s] PinCas by (simp add: exc_def)
    show ?thesis unfolding e
    proof (rule store_inv_move [OF inv i, where x = s])
      show "slot_ok (slots (count_add s 1 st) s)
         (pinc s (PinRecheck s) + others (pinc s) n i ts + curc (count_add s 1 st) s)
         (exc s (PinRecheck s) + others (exc s) n i ts) (count_list (free_list (count_add s 1 st)) s)"
        using ok p by (auto simp: slot_ok_def exc_def count_add_def split: if_splits)
      show "slots (count_add s 1 st) s = slots st s \<or> others (exc s) n i ts = 0"
        using ok p by (simp add: slot_ok_def split: if_splits)
    qed (use PinCas s inv_basic [OF inv] in \<open>simp_all add: count_add_def exc_def\<close>)
  next
    case False
    then have e: "st' = st" "t' = (if count st s > 0 then PinCas s (count st s) else PinLoad)"
      using st PinCas by (auto split: if_splits)
    show ?thesis unfolding e using PinCas s by (intro inv_task_only [OF inv i]) (auto split: if_splits)
  qed
qed (use st inv in \<open>simp_all add: fun_upd_idem\<close>)

text \<open>The exclusive owner of a slot rewrites it, or hands it to the free list.\<close>

lemma owner_alone:
  assumes "store_inv n st ts" "i < n" "excl (ts i) = Some s" "s < slot_num st" "\<And>k. pinc k (ts i) = 0"
  shows "others (pinc s) n i ts = 0" "curc st s = 0" "others (exc s) n i ts = 0" "count_list (free_list st) s = 0"
  using inv_slot [OF assms(1,2,4)] assms(3,5) by (auto simp: slot_ok_def exc_def split: if_splits)

lemma excl_pinc: "excl t = Some s \<Longrightarrow> pinc k t = 0"
  by (cases t) auto

lemma excl_task_slot: "excl t = Some s \<Longrightarrow> task_slot t = Some s"
  by (cases t) auto

lemma inv_owner_write:
  assumes inv: "store_inv n st ts" and i: "i < n" and t: "excl (ts i) = Some s" "excl t' = Some s"
    and st': "st' = upd_slot s f st" and ok: "task_ok st' t'"
  shows "store_inv n st' (ts(i := t'))"
proof -
  have s: "s < slot_num st" using inv_task(2) [OF inv i excl_task_slot [OF t(1)]] .
  note al = owner_alone [OF inv i t(1) s excl_pinc [OF t(1)]]
  show ?thesis
  proof (rule store_inv_move [OF inv i, where x = s])
    show "slot_ok (slots st' s) (pinc s t' + others (pinc s) n i ts + curc st' s)
        (exc s t' + others (exc s) n i ts) (count_list (free_list st') s)"
      using al t excl_pinc [OF t(2)] by (simp add: st' slot_ok_def exc_def)
  qed (use t st' ok al s inv_basic [OF inv] excl_pinc [OF t(1)] excl_pinc [OF t(2)] excl_task_slot [OF t(2)]
      in \<open>simp_all add: exc_def\<close>)
qed

lemma inv_owner_return:
  assumes inv: "store_inv n st ts" and i: "i < n" and t: "excl (ts i) = Some s" "excl t' = None" "\<And>k. pinc k t' = 0"
    and z: "count st s = 0" "storage (slots st s) = None"
    and ok: "task_ok (returnFreeSlot s st) t'" "task_slot t' = None"
  shows "store_inv n (returnFreeSlot s st) (ts(i := t'))"
proof -
  have s: "s < slot_num st" using inv_task(2) [OF inv i excl_task_slot [OF t(1)]] .
  note al = owner_alone [OF inv i t(1) s excl_pinc [OF t(1)]]
  show ?thesis
  proof (rule store_inv_move [OF inv i, where x = s])
    show "slot_ok (slots (returnFreeSlot s st) s) (pinc s t' + others (pinc s) n i ts + curc (returnFreeSlot s st) s)
        (exc s t' + others (exc s) n i ts) (count_list (free_list (returnFreeSlot s st)) s)"
      using al t z by (simp add: returnFreeSlot_def curc_def slot_ok_def exc_def)
  qed (use t ok al s inv_basic [OF inv] excl_pinc [OF t(1)]
      in \<open>simp_all add: exc_def returnFreeSlot_def curc_def\<close>)
qed

lemma inv_unpin:
  assumes inv: "store_inv n st ts" and i: "i < n"
    and st: "unpinSnapshotByIndex_step (ts i) st = (t', st')"
  shows "store_inv n st' (ts(i := t'))"
proof (cases "ts i")
  case (Unpin k s)
  then have s: "s < slot_num st" using inv_task [OF inv i] by simp
  have c: "count st s = int (1 + others (pinc s) n i ts + curc st s)" "storage (slots st s) \<noteq> None"
    "others (exc s) n i ts = 0" "count_list (free_list st) s = 0"
    using inv_slot [OF inv i s] Unpin unfolding slot_ok_def by (auto simp: exc_def)
  have e: "st' = count_add s (- 1) st" "t' = (if count st s = 1 then UnpinLast k s else unpin_return k)"
    using st Unpin s c(1) by (auto split: if_splits)
  have u: "exc x (Unpin k s) = 0" for x by (simp add: exc_def)
  have t': "pinc x t' = 0" "exc x t' = (if count st s = 1 \<and> x = s then 1 else 0)" for x by (auto simp: e exc_def)
  show ?thesis
  proof (rule store_inv_move [OF inv i, where x = s])
    show "slot_ok (slots st' s) (pinc s t' + others (pinc s) n i ts + curc st' s)
        (exc s t' + others (exc s) n i ts) (count_list (free_list st') s)"
      using c by (auto simp: t' e(1) count_add_def slot_ok_def)
    show "task_ok st' t'" using c by (auto simp: e count_add_def)
    show "\<And>x. task_slot t' = Some x \<Longrightarrow> x < slot_num st" using s by (auto simp: e split: if_splits)
  qed (use Unpin s c inv_basic [OF inv] in \<open>simp_all add: t' u e(1) count_add_def\<close>)
next
  case (UnpinLast k s)
  then have s: "s < slot_num st" and t: "count st s = 0" "storage (slots st s) \<noteq> None"
    using inv_task [OF inv i] by simp_all
  have "s \<noteq> cur_slot_index st"
    using inv_slot [OF inv i s] UnpinLast unfolding slot_ok_def by (auto simp: exc_def curc_def)
  then have e: "st' = st" "t' = CleanCas k s" using st UnpinLast t by auto
  show ?thesis unfolding e using UnpinLast s t by (intro inv_task_only [OF inv i]) auto
next
  case (CleanCas k s)
  then have t: "count st s = 0" using inv_task [OF inv i] by simp
  then show ?thesis using st CleanCas
    by (intro inv_owner_write [OF inv i, where s = s]) (auto simp: count_store_def)
qed (use st inv in \<open>simp_all add: fun_upd_idem\<close>)

lemma inv_cleanup:
  assumes inv: "store_inv n st ts" and i: "i < n" and st: "cleanupSlot_step (ts i) st = (t', st')"
  shows "store_inv n st' (ts(i := t'))"
proof (cases "ts i")
  case (CleanReset k s)
  then have "count st s = kCleanupSentinel" using inv_task [OF inv i] by simp
  then show ?thesis using st CleanReset
    by (intro inv_owner_write [OF inv i, where s = s]) (auto simp: reset_fields_def)
next
  case (CleanOpen k s)
  then have "count st s = kCleanupSentinel" "storage (slots st s) = None" using inv_task [OF inv i] by simp_all
  then show ?thesis using st CleanOpen
    by (intro inv_owner_write [OF inv i, where s = s]) (auto simp: count_add_def)
next
  case (CleanReturn k s)
  then have "count st s = 0" "storage (slots st s) = None" using inv_task [OF inv i] by simp_all
  moreover have "st' = returnFreeSlot s st" "t' = unpin_return k" using st CleanReturn by simp_all
  ultimately show ?thesis using CleanReturn inv_owner_return [OF inv i, of s] by simp
qed (use st inv in \<open>simp_all add: fun_upd_idem\<close>)

lemma inv_gen:
  assumes inv: "store_inv n st ts" and i: "i < n" and st: "reserveSnapshotGeneration_step sp (ts i) st = (t', st')"
  shows "store_inv n st' (ts(i := t'))"
proof (cases "ts i")
  case (PrepGen s)
  then have s: "s < slot_num st" and t: "count st s = 0" "storage (slots st s) = None"
    using inv_task [OF inv i] by simp_all
  have e: "st' = st" "t' = PrepGenCas s (last_reserved_generation st)" using st PrepGen by auto
  show ?thesis unfolding e using PrepGen s t by (intro inv_task_only [OF inv i]) auto
next
  case (PrepGenCas s c)
  then have s: "s < slot_num st" and t: "count st s = 0" "storage (slots st s) = None"
    using inv_task [OF inv i] by simp_all
  have sl: "slots st' = slots st" "cur_slot_index st' = cur_slot_index st" "free_list st' = free_list st"
    "slot_num st' = slot_num st" using st PrepGenCas by (auto split: if_splits)
  have t': "excl t' = Some s" "\<And>k. pinc k t' = 0" "task_ok st' t'" "task_slot t' = Some s"
    using st PrepGenCas t by (auto split: if_splits)
  show ?thesis
    using PrepGenCas s t' sl inv_slot [OF inv i s] inv_basic [OF inv]
    by (intro store_inv_move [OF inv i, where x = s]) (auto simp: exc_def curc_def)
qed (use st inv in \<open>simp_all add: fun_upd_idem\<close>)

lemma count_list_butlast:
  "xs \<noteq> [] \<Longrightarrow> count_list xs k = count_list (butlast xs) k + (if last xs = k then 1 else 0)"
  by (induction xs rule: rev_induct) auto

lemma inv_take_free:
  assumes inv: "store_inv n st ts" and i: "i < n" and t: "ts i = PrepGet" and ne: "free_list st \<noteq> []"
  shows "store_inv n (st \<lparr> free_list := butlast (free_list st) \<rparr>) (ts(i := PrepGen (last (free_list st))))"
proof -
  let ?s = "last (free_list st)" and ?st = "st \<lparr> free_list := butlast (free_list st) \<rparr>"
  have s: "?s < slot_num st" using ne inv_basic [OF inv] by simp
  note fl = count_list_butlast [OF ne]
  have z: "count st ?s = 0" "storage (slots st ?s) = None" "others (pinc ?s) n i ts = 0" "curc st ?s = 0"
    "others (exc ?s) n i ts = 0" "count_list (butlast (free_list st)) ?s = 0"
    using inv_slot [OF inv i s] t fl [of ?s] by (auto simp: slot_ok_def exc_def split: if_splits)
  show ?thesis
  proof (rule store_inv_move [OF inv i, where x = ?s])
    show "slot_ok (slots ?st ?s) (pinc ?s (PrepGen ?s) + others (pinc ?s) n i ts + curc ?st ?s)
      (exc ?s (PrepGen ?s) + others (exc ?s) n i ts) (count_list (free_list ?st) ?s)"
      using z by (simp add: slot_ok_def exc_def curc_def)
    show "\<forall>s\<in>set (free_list ?st). s < slot_num st" using inv_basic(2) [OF inv] by (auto dest: in_set_butlastD)
  qed (use s z t inv_basic [OF inv] in \<open>simp_all add: exc_def curc_def fl\<close>)
qed

lemma inv_prep_open:
  assumes inv: "store_inv n st ts" and i: "i < n" and t: "ts i = PrepOpen s"
  shows "store_inv n (count_add s (- kCleanupSentinel + 1) st) (ts(i := Prepared s))"
proof -
  let ?st = "count_add s (- kCleanupSentinel + 1) st"
  have z: "count st s = kCleanupSentinel" "storage (slots st s) \<noteq> None" "s < slot_num st"
    using inv_task [OF inv i] t by simp_all
  note al = owner_alone [OF inv i _ z(3)]
  show ?thesis
  proof (rule store_inv_move [OF inv i, where x = s])
    show "slot_ok (slots ?st s) (pinc s (Prepared s) + others (pinc s) n i ts + curc ?st s)
      (exc s (Prepared s) + others (exc s) n i ts) (count_list (free_list ?st) s)"
      using al t z by (simp add: slot_ok_def exc_def count_add_def)
  qed (use z t al inv_basic [OF inv] in \<open>simp_all add: exc_def count_add_def\<close>)
qed

lemma inv_prepare:
  assumes inv: "store_inv n st ts" and i: "i < n" and st: "PrepareSnapshot_step pg pl (ts i) st = (t', st')"
  shows "store_inv n st' (ts(i := t'))"
proof (cases "ts i")
  case PrepGet
  show ?thesis
  proof (cases "pg = None \<or> free_list st = []")
    case True
    then have e: "st' = st" "t' = SIdle" using st PrepGet by (auto simp: getFreeSlot_def split: if_splits)
    show ?thesis unfolding e using PrepGet by (intro inv_task_only [OF inv i]) auto
  next
    case False
    then have e: "st' = st \<lparr> free_list := butlast (free_list st) \<rparr>" "t' = PrepGen (last (free_list st))"
      using st PrepGet by (auto simp: getFreeSlot_def)
    then show ?thesis using inv_take_free [OF inv i PrepGet] False by simp
  qed
next
  case (PrepGuard s g)
  then have "storage (slots st s) = None" using inv_task [OF inv i] by simp
  then show ?thesis using st PrepGuard
    by (intro inv_owner_write [OF inv i, where s = s]) (auto simp: count_store_def)
next
  case (PrepFill s g)
  then have t: "count st s = kCleanupSentinel" using inv_task [OF inv i] by simp
  show ?thesis
  proof (cases pg)
    case None
    then show ?thesis using st PrepFill inv by (simp add: fun_upd_idem)
  next
    case (Some p)
    then have e: "st' = upd_slot s (\<lambda>x. x \<lparr> storage := Some p, view := Some p, slot_generation := g,
        planning_generation := pl \<rparr>) st" "t' = PrepOpen s" using st PrepFill by simp_all
    show ?thesis using PrepFill t by (intro inv_owner_write [OF inv i, where s = s, OF _ _ e(1)]) (simp_all add: e)
  qed
next
  case (PrepOpen s)
  then show ?thesis using st inv_prep_open [OF inv i PrepOpen] by auto
next
  case (PrepUndo s)
  have e: "st' = upd_slot s (\<lambda>x. x \<lparr> storage := None, view := None, slot_generation := 0,
      planning_generation := 0, reader_count := 0 \<rparr>) st" "t' = PrepUndoReturn s"
    using st PrepUndo by (auto simp: count_store_def reset_fields_def upd_slot_def)
  show ?thesis using PrepUndo by (intro inv_owner_write [OF inv i, where s = s, OF _ _ e(1)]) (simp_all add: e)
next
  case (PrepUndoReturn s)
  then have "count st s = 0" "storage (slots st s) = None" using inv_task [OF inv i] by simp_all
  moreover have "st' = returnFreeSlot s st" "t' = SThrown RuntimeError" using st PrepUndoReturn by simp_all
  ultimately show ?thesis using PrepUndoReturn inv_owner_return [OF inv i, of s] by simp
qed (use st inv in \<open>simp_all add: fun_upd_idem\<close>)

lemma inv_publish_store:
  assumes inv: "store_inv n st ts" and i: "i < n" and st: "publishPreparedSnapshot_step (ts i) st = (t', st')"
  shows "store_inv n st' (ts(i := t'))"
proof (cases "ts i")
  case (PubCheck s)
  then have s: "s < slot_num st" using inv_task [OF inv i] by simp
  then have "1 \<le> count st s" using inv_slot [OF inv i s] PubCheck unfolding slot_ok_def by auto
  then have e: "st' = st" "t' = PubExchange s" using st PubCheck s by auto
  show ?thesis unfolding e using PubCheck s by (intro inv_task_only [OF inv i]) auto
next
  case (PubExchange s)
  then have s: "s < slot_num st" using inv_task [OF inv i] by simp
  have c: "cur_slot_index st < slot_num st" using inv unfolding store_inv_def by simp
  have e: "st' = st \<lparr> cur_slot_index := s \<rparr>" "t' = Unpin Done (cur_slot_index st)" using st PubExchange by auto
  show ?thesis unfolding e
    using PubExchange s c inv_slot [OF inv i s] inv_basic [OF inv]
    by (intro store_inv_move [OF inv i, where x = s])
       (auto simp: slot_ok_def exc_def curc_def split: if_splits)
qed (use st inv in \<open>simp_all add: fun_upd_idem\<close>)

lemma inv_call:
  assumes inv: "store_inv n st ts" and i: "i < n" and "store_call (ts i) t'"
  shows "store_inv n st (ts(i := t'))"
  using assms(3) inv_task [OF inv i]
  by (intro inv_task_only [OF inv i]) (auto elim!: store_call.cases)

lemma store_reachable_inv: "store_reachable n c \<Longrightarrow> store_inv n (fst c) (snd c)"
proof (induction rule: store_reachable.induct)
  case (st_init num gen pg)
  have fl: "count_list [1..<num] s = (if s < num \<and> s \<noteq> 0 then 1 else 0)" for s
    by (induction num) auto
  have z: "total (pinc s) n (\<lambda>_. SIdle) = 0" "total (exc s) n (\<lambda>_. SIdle) = 0" for s
    by (simp_all add: exc_def)
  show ?case
    unfolding store_inv_def fst_conv snd_conv z using st_init fl
    by (auto simp: store_init_def slot_ok_def curc_def empty_slot_def)
next
  case (st_step c c')
  from st_step.hyps(2) show ?case
  proof cases
    case (task i ts st t' st')
    then have inv: "store_inv n st ts" using st_step.IH by simp
    note i = \<open>i < n\<close>
    have "store_inv n st' (ts(i := t'))"
      using task(4) unfolding task_steps_def
    proof (elim disjE exE)
      assume "store_call (ts i) (fst (t', st')) \<and> snd (t', st') = st"
      then show ?thesis using inv_call [OF inv i] by simp
    qed (erule inv_pin [OF inv i] inv_unpin [OF inv i] inv_cleanup [OF inv i] inv_gen [OF inv i]
        inv_prepare [OF inv i] inv_publish_store [OF inv i])+
    then show ?thesis using task(2) by (simp del: fun_upd_apply)
  qed
qed

section \<open>Snapshot generations\<close>

text \<open>Generations reserved but not yet written into a slot.\<close>

fun reserved :: "stask \<Rightarrow> nat option" where
  "reserved (PrepGuard s g) = Some g"
| "reserved (PrepFill s g) = Some g"
| "reserved _ = None"

definition stored :: "'g snapshot_store \<Rightarrow> nat \<Rightarrow> nat option" where
  "stored st s = (if storage (slots st s) = None then None else Some (slot_generation (slots st s)))"

definition gen_inv :: "nat \<Rightarrow> 'g snapshot_store \<Rightarrow> (nat \<Rightarrow> stask) \<Rightarrow> bool" where
  "gen_inv n st ts \<longleftrightarrow> last_reserved_generation st \<le> u32_max \<and>
     (\<forall>s g. stored st s = Some g \<longrightarrow> g \<le> last_reserved_generation st) \<and>
     (\<forall>s s' g. stored st s = Some g \<longrightarrow> stored st s' = Some g \<longrightarrow> s = s') \<and>
     (\<forall>i<n. \<forall>g. reserved (ts i) = Some g \<longrightarrow> g \<le> last_reserved_generation st \<and>
        (\<forall>s. stored st s \<noteq> Some g) \<and> (\<forall>j<n. j \<noteq> i \<longrightarrow> reserved (ts j) \<noteq> Some g))"

lemma gen_invD:
  assumes "gen_inv n st ts"
  shows "last_reserved_generation st \<le> u32_max"
    and "\<And>s g. stored st s = Some g \<Longrightarrow> g \<le> last_reserved_generation st"
    and "\<And>s s' g. stored st s = Some g \<Longrightarrow> stored st s' = Some g \<Longrightarrow> s = s'"
    and "\<And>i g. i < n \<Longrightarrow> reserved (ts i) = Some g \<Longrightarrow> g \<le> last_reserved_generation st"
    and "\<And>i g s. i < n \<Longrightarrow> reserved (ts i) = Some g \<Longrightarrow> stored st s \<noteq> Some g"
    and "\<And>i j g. i < n \<Longrightarrow> j < n \<Longrightarrow> j \<noteq> i \<Longrightarrow> reserved (ts i) = Some g \<Longrightarrow> reserved (ts j) \<noteq> Some g"
  using assms unfolding gen_inv_def by blast+

lemma gen_invI:
  assumes "last_reserved_generation st \<le> u32_max"
    and "\<And>s g. stored st s = Some g \<Longrightarrow> g \<le> last_reserved_generation st"
    and "\<And>s s' g. stored st s = Some g \<Longrightarrow> stored st s' = Some g \<Longrightarrow> s = s'"
    and "\<And>i g. i < n \<Longrightarrow> reserved (ts i) = Some g \<Longrightarrow> g \<le> last_reserved_generation st"
    and "\<And>i g s. i < n \<Longrightarrow> reserved (ts i) = Some g \<Longrightarrow> stored st s \<noteq> Some g"
    and "\<And>i j g. i < n \<Longrightarrow> j < n \<Longrightarrow> j \<noteq> i \<Longrightarrow> reserved (ts i) = Some g \<Longrightarrow> reserved (ts j) \<noteq> Some g"
  shows "gen_inv n st ts"
  unfolding gen_inv_def using assms by blast

text \<open>Steps that only forget generations.\<close>

lemma gen_inv_forget:
  assumes inv: "gen_inv n st ts" and same: "last_reserved_generation st' = last_reserved_generation st"
    and st: "\<And>s g. stored st' s = Some g \<Longrightarrow> stored st s = Some g"
    and t: "reserved t' = reserved (ts i) \<or> reserved t' = None"
  shows "gen_inv n st' (ts(i := t'))"
proof -
  have r: "reserved ((ts(i := t')) j) = Some g \<Longrightarrow> reserved (ts j) = Some g" for j g
    using t by (cases "j = i") auto
  note D = gen_invD [OF inv]
  show ?thesis
  proof (rule gen_invI)
    show "last_reserved_generation st' \<le> u32_max" using D(1) same by simp
    show "\<And>s g. stored st' s = Some g \<Longrightarrow> g \<le> last_reserved_generation st'" unfolding same using D(2) st by blast
    show "\<And>s s' g. stored st' s = Some g \<Longrightarrow> stored st' s' = Some g \<Longrightarrow> s = s'" using D(3) st by blast
    show "\<And>j g. j < n \<Longrightarrow> reserved ((ts(i := t')) j) = Some g \<Longrightarrow> g \<le> last_reserved_generation st'"
      unfolding same using D(4) r by blast
    show "\<And>j g s. j < n \<Longrightarrow> reserved ((ts(i := t')) j) = Some g \<Longrightarrow> stored st' s \<noteq> Some g"
      using D(5) r st by blast
    show "\<And>j k g. j < n \<Longrightarrow> k < n \<Longrightarrow> k \<noteq> j \<Longrightarrow> reserved ((ts(i := t')) j) = Some g \<Longrightarrow>
        reserved ((ts(i := t')) k) \<noteq> Some g" using D(6) r by blast
  qed
qed

lemma gen_inv_reserve:
  assumes inv: "gen_inv n st ts" and i: "i < n" and c: "last_reserved_generation st = c" "c \<noteq> u32_max"
  shows "gen_inv n (st \<lparr> last_reserved_generation := u32_succ c \<rparr>) (ts(i := PrepGuard s (u32_succ c)))"
    (is "gen_inv n ?st ?ts")
proof -
  note D = gen_invD [OF inv, unfolded c(1)]
  have lt: "c < u32_max" using D(1) c by simp
  then have succ: "u32_succ c = c + 1" by simp
  have st: "stored ?st k = stored st k" for k by (simp add: stored_def)
  have r: "reserved (?ts j) = (if j = i then Some (c + 1) else reserved (ts j))" for j using succ by simp
  have n1: "stored st k \<noteq> Some (c + 1)" for k using D(2) [of k "c + 1"] by auto
  have n2: "reserved (ts j) \<noteq> Some (c + 1)" if "j < n" for j using D(4) [OF that, of "c + 1"] by auto
  show ?thesis
  proof (rule gen_invI, unfold st r)
    show "last_reserved_generation ?st \<le> u32_max" using lt succ by simp
    show "\<And>s g. stored st s = Some g \<Longrightarrow> g \<le> last_reserved_generation ?st" using succ by (auto dest!: D(2))
    show "\<And>s s' g. stored st s = Some g \<Longrightarrow> stored st s' = Some g \<Longrightarrow> s = s'" using D(3) by blast
    show "\<And>j g. j < n \<Longrightarrow> (if j = i then Some (c + 1) else reserved (ts j)) = Some g \<Longrightarrow>
        g \<le> last_reserved_generation ?st" using succ by (auto split: if_splits dest!: D(4))
    show "\<And>j g s. j < n \<Longrightarrow> (if j = i then Some (c + 1) else reserved (ts j)) = Some g \<Longrightarrow>
        stored st s \<noteq> Some g" using n1 by (auto split: if_splits dest: D(5))
    show "\<And>j k g. j < n \<Longrightarrow> k < n \<Longrightarrow> k \<noteq> j \<Longrightarrow> (if j = i then Some (c + 1) else reserved (ts j)) = Some g \<Longrightarrow>
        (if k = i then Some (c + 1) else reserved (ts k)) \<noteq> Some g" using n2 by (auto split: if_splits dest: D(6))
  qed
qed

lemma gen_inv_fill:
  assumes inv: "gen_inv n st ts" and i: "i < n" and t: "ts i = PrepFill s g"
  shows "gen_inv n (upd_slot s (\<lambda>x. x \<lparr> storage := Some p, view := Some p, slot_generation := g,
      planning_generation := pl \<rparr>) st) (ts(i := PrepOpen s))" (is "gen_inv n ?st ?ts")
proof -
  note D = gen_invD [OF inv]
  have st: "stored ?st k = (if k = s then Some g else stored st k)" for k by (simp add: stored_def)
  have r: "reserved (?ts j) = (if j = i then None else reserved (ts j))" for j by simp
  have ri: "reserved (ts i) = Some g" using t by simp
  have l: "last_reserved_generation ?st = last_reserved_generation st" by simp
  show ?thesis
  proof (rule gen_invI, unfold st r l)
    show "last_reserved_generation st \<le> u32_max" by (rule D)
    show "\<And>k h. (if k = s then Some g else stored st k) = Some h \<Longrightarrow> h \<le> last_reserved_generation st"
      using D(4) [OF i ri] by (auto split: if_splits dest: D(2))
    show "\<And>k k' h. (if k = s then Some g else stored st k) = Some h \<Longrightarrow>
        (if k' = s then Some g else stored st k') = Some h \<Longrightarrow> k = k'"
      using D(5) [OF i ri] by (auto split: if_splits dest: D(3))
    show "\<And>j h. j < n \<Longrightarrow> (if j = i then None else reserved (ts j)) = Some h \<Longrightarrow> h \<le> last_reserved_generation st"
      by (auto split: if_splits dest: D(4))
    show "\<And>j h k. j < n \<Longrightarrow> (if j = i then None else reserved (ts j)) = Some h \<Longrightarrow>
        (if k = s then Some g else stored st k) \<noteq> Some h"
      using D(6) [OF i _ _ ri] by (auto split: if_splits dest: D(5))
    show "\<And>j k h. j < n \<Longrightarrow> k < n \<Longrightarrow> k \<noteq> j \<Longrightarrow> (if j = i then None else reserved (ts j)) = Some h \<Longrightarrow>
        (if k = i then None else reserved (ts k)) \<noteq> Some h" by (auto split: if_splits dest: D(6))
  qed
qed

lemma unpin_return_reserved [simp]: "reserved (unpin_return k) = None"
  by (cases k) auto

lemma stored_simps [simp]:
  "stored (count_add s k st) x = stored st x" "stored (count_store s k st) x = stored st x"
  "stored (returnFreeSlot s st) x = stored st x"
  "stored (reset_fields s st) x = (if x = s then None else stored st x)"
  "last_reserved_generation (count_add s k st) = last_reserved_generation st"
  "last_reserved_generation (count_store s k st) = last_reserved_generation st"
  "last_reserved_generation (returnFreeSlot s st) = last_reserved_generation st"
  "last_reserved_generation (reset_fields s st) = last_reserved_generation st"
  by (simp_all add: stored_def count_add_def count_store_def returnFreeSlot_def reset_fields_def)

lemma stored_ctrl [simp]:
  "stored (st \<lparr> cur_slot_index := k \<rparr>) x = stored st x" "stored (st \<lparr> free_list := l \<rparr>) x = stored st x"
  by (simp_all add: stored_def)

lemma gen_step:
  assumes inv: "gen_inv n st ts" and i: "i < n" and st: "task_steps (ts i) st (t', st')"
  shows "gen_inv n st' (ts(i := t'))"
  using st unfolding task_steps_def
proof (elim disjE exE)
  fix sp assume "PinCurrentSnapshot_step sp (ts i) st = (t', st')"
  then show ?thesis
    by (intro gen_inv_forget [OF inv]) (cases "ts i"; auto split: if_splits)+
next
  assume "unpinSnapshotByIndex_step (ts i) st = (t', st')"
  then show ?thesis
    by (intro gen_inv_forget [OF inv]) (cases "ts i"; auto split: if_splits)+
next
  assume "cleanupSlot_step (ts i) st = (t', st')"
  then show ?thesis
    by (intro gen_inv_forget [OF inv]) (cases "ts i"; auto split: if_splits)+
next
  fix sp assume *: "reserveSnapshotGeneration_step sp (ts i) st = (t', st')"
  show ?thesis
  proof (cases "\<exists>s c. ts i = PrepGenCas s c \<and> c \<noteq> u32_max \<and> last_reserved_generation st = c \<and> \<not> sp")
    case True
    then obtain s c where c: "ts i = PrepGenCas s c" "c \<noteq> u32_max" "last_reserved_generation st = c" "\<not> sp" by blast
    then have "st' = st \<lparr> last_reserved_generation := u32_succ c \<rparr>" "t' = PrepGuard s (u32_succ c)" using * by simp_all
    then show ?thesis using gen_inv_reserve [OF inv i c(3,2)] by simp
  next
    case False
    then show ?thesis using *
      by (intro gen_inv_forget [OF inv]) (cases "ts i"; auto split: if_splits)+
  qed
next
  fix pg pl assume *: "PrepareSnapshot_step pg pl (ts i) st = (t', st')"
  show ?thesis
  proof (cases "\<exists>s g p. ts i = PrepFill s g \<and> pg = Some p")
    case True
    then obtain s g p where c: "ts i = PrepFill s g" "pg = Some p" by blast
    then show ?thesis using * gen_inv_fill [OF inv i c(1), where p = p and pl = pl] by auto
  next
    case False
    then show ?thesis using *
      by (intro gen_inv_forget [OF inv]) (cases "ts i"; auto simp: getFreeSlot_def split: if_splits option.splits)+
  qed
next
  assume "publishPreparedSnapshot_step (ts i) st = (t', st')"
  then show ?thesis
    by (intro gen_inv_forget [OF inv]) (cases "ts i"; auto split: if_splits)+
next
  assume "store_call (ts i) (fst (t', st')) \<and> snd (t', st') = st"
  then show ?thesis
    by (intro gen_inv_forget [OF inv]) (auto elim!: store_call.cases)
qed

lemma store_reachable_gen: "store_reachable n c \<Longrightarrow> gen_inv n (fst c) (snd c)"
proof (induction rule: store_reachable.induct)
  case (st_init num gen pg)
  then show ?case by (auto simp: gen_inv_def stored_def store_init_def empty_slot_def split: if_splits)
next
  case (st_step c c')
  from st_step.hyps(2) show ?case
  proof cases
    case (task i ts st t' st')
    then show ?thesis using gen_step [of n st ts i t' st'] st_step.IH by (simp del: fun_upd_apply)
  qed
qed

end
