(* ===== verification/Store_Properties.thy ===== *)
theory Store_Properties
  imports Store_Invariant
begin

text \<open>
  What the interleavings of \<open>Snapshot_Store\<close> guarantee: a pinned snapshot is immutable, no slot
  is lost, generations are unique. The operations that need external quiescence
  (\<open>WithCheckpointMaintenance\<close>, \<open>replaceCurrentSnapshotInPlace\<close>) are modelled here as one step
  each, because their callers hold the exclusive phase of the operation gate.
\<close>

section \<open>Schedules\<close>

text \<open>A deterministic schedule: which task does what, for concrete runs.\<close>

datatype 'g sact = DoPin bool | DoUnpin | DoClean | DoReserve bool | DoPrepare "'g option" nat
  | DoPublish | DoCall stask

fun call_ok :: "stask \<Rightarrow> stask \<Rightarrow> bool" where
  "call_ok SIdle t = (t = PinLoad \<or> t = PrepGet)"
| "call_ok (Pinned s) t = (t = Unpin Done s)"
| "call_ok (Prepared s) t = (t = PubCheck s \<or> t = Unpin Done s)"
| "call_ok _ t = False"

fun act :: "'g sact \<Rightarrow> stask \<Rightarrow> 'g snapshot_store \<Rightarrow> stask \<times> 'g snapshot_store" where
  "act (DoPin sp) t st = PinCurrentSnapshot_step sp t st"
| "act DoUnpin t st = unpinSnapshotByIndex_step t st"
| "act DoClean t st = cleanupSlot_step t st"
| "act (DoReserve sp) t st = reserveSnapshotGeneration_step sp t st"
| "act (DoPrepare pg pl) t st = PrepareSnapshot_step pg pl t st"
| "act DoPublish t st = publishPreparedSnapshot_step t st"
| "act (DoCall t') t st = (if call_ok t t' then t' else t, st)"

fun run :: "(nat \<times> 'g sact) list \<Rightarrow> 'g snapshot_store \<times> (nat \<Rightarrow> stask) \<Rightarrow>
    'g snapshot_store \<times> (nat \<Rightarrow> stask)" where
  "run [] c = c"
| "run ((i, a) # as) c = (case act a (snd c i) (fst c) of (t', st') \<Rightarrow> run as (st', (snd c)(i := t')))"

lemma call_ok_call: "call_ok t t' \<Longrightarrow> store_call t t'"
  by (cases t) (auto intro: store_call.intros)

lemma act_step:
  assumes "i < n" "act a (ts i) st = (t', st')"
  shows "(st', ts(i := t')) = (st, ts) \<or> store_step n (st, ts) (st', ts(i := t'))"
proof (cases "\<exists>x. a = DoCall x \<and> \<not> call_ok (ts i) x")
  case True then show ?thesis using assms(2) by auto
next
  case False
  then have "task_steps (ts i) st (t', st')"
    using assms(2) by (cases a) (auto simp: task_steps_def call_ok_call split: if_splits)
  then show ?thesis using assms(1) by (auto intro: store_step.task)
qed

lemma run_reachable:
  "store_reachable n c \<Longrightarrow> \<forall>(i, a)\<in>set as. i < n \<Longrightarrow> store_reachable n (run as c)"
proof (induction as arbitrary: c)
  case (Cons p as)
  obtain i a st ts t' st' where e: "p = (i, a)" "c = (st, ts)" "act a (ts i) st = (t', st')"
    by (metis surj_pair)
  have "store_reachable n (st', ts(i := t'))"
    using act_step [of i n a ts st t' st'] e Cons.prems by (auto intro: store_reachable.st_step)
  then show ?case using Cons.IH [of "(st', ts(i := t'))"] Cons.prems e by simp
qed simp

text \<open>Task 0 prepares the graph \<open>1\<close> and publishes it while task 1 still holds the pin on the
  graph \<open>0\<close>; then task 1 releases the pin and recycles slot 0.\<close>

definition demo_publish :: "(nat \<times> nat sact) list" where
  "demo_publish =
     [(1, DoCall PinLoad), (1, DoPin False), (1, DoPin False), (1, DoPin False), (1, DoPin False),
      (0, DoCall PrepGet), (0, DoPrepare (Some 1) 7), (0, DoReserve False), (0, DoReserve False),
      (0, DoPrepare (Some 1) 7), (0, DoPrepare (Some 1) 7), (0, DoPrepare (Some 1) 7),
      (0, DoCall (PubCheck 1)), (0, DoPublish), (0, DoPublish)]"

definition demo_release :: "(nat \<times> nat sact) list" where
  "demo_release = demo_publish @
     [(0, DoUnpin), (1, DoCall (Unpin Done 0)), (1, DoUnpin), (1, DoUnpin), (1, DoUnpin),
      (1, DoClean), (1, DoClean), (1, DoClean)]"

definition demo_start :: "nat snapshot_store \<times> (nat \<Rightarrow> stask)" where
  "demo_start = (store_init 2 0 5, \<lambda>_. SIdle)"

lemma demo_start_reachable: "store_reachable n demo_start"
  unfolding demo_start_def by (rule store_reachable.st_init) simp_all

lemmas demo_simps = demo_publish_def demo_release_def demo_start_def store_init_def empty_slot_def
  getFreeSlot_def returnFreeSlot_def count_store_def count_add_def upd_slot_def reset_fields_def
  kCleanupSentinel_def upt_rec

lemma demo_publish_reachable: "store_reachable 2 (run demo_publish demo_start)"
  by (rule run_reachable [OF demo_start_reachable]) (simp add: demo_publish_def)

lemma demo_release_reachable: "store_reachable 2 (run demo_release demo_start)"
  by (rule run_reachable [OF demo_start_reachable]) (simp add: demo_publish_def demo_release_def)

section \<open>Operations under quiescence\<close>

text \<open>\<open>CurrentSnapshot\<close> and \<open>CloneCurrentForUpdate\<close> read the slot; \<open>clone\<close> is
  \<open>PropertyGraph::Clone\<close>.\<close>

definition CurrentSnapshot :: "'g snapshot_store \<Rightarrow> 'g res" where
  "CurrentSnapshot st = (case storage (slots st (cur_slot_index st)) of
     None \<Rightarrow> Inl CheckFailed | Some g \<Rightarrow> Inr g)"

definition clone_slot :: "('g \<Rightarrow> 'g) \<Rightarrow> 'g SnapshotSlot \<Rightarrow> ('g \<times> nat) res" where
  "clone_slot clone x = (case storage x of
     None \<Rightarrow> Inl UndefinedBehaviour | Some g \<Rightarrow> Inr (clone g, planning_generation x))"

definition u64_max :: nat where "u64_max = 2 ^ 64 - 1"

definition RefreshCurrentView :: "bool \<Rightarrow> 'g SnapshotSlot \<Rightarrow> (nat \<times> 'g SnapshotSlot) res" where
  "RefreshCurrentView planning_changed x =
     (let y = x \<lparr> view := storage x \<rparr> in
      if planning_changed then
        if planning_generation y = u64_max then Inl CheckFailed
        else Inr (slot_generation y, y \<lparr> planning_generation := planning_generation y + 1 \<rparr>)
      else Inr (slot_generation y, y))"

definition ReopenCurrentGraphFromCheckpoint :: "('g \<Rightarrow> 'g) \<Rightarrow> 'g SnapshotSlot \<Rightarrow> 'g SnapshotSlot res" where
  "ReopenCurrentGraphFromCheckpoint open x =
     res_bind (RefreshCurrentView True (x \<lparr> storage := map_option open (storage x) \<rparr>)) (\<lambda>r. Inr (snd r))"

text \<open>The scan over the other slots: the first live one is an error.\<close>

fun stale_slot :: "'g snapshot_store \<Rightarrow> nat \<Rightarrow> nat list \<Rightarrow> bool" where
  "stale_slot st cur [] = False"
| "stale_slot st cur (i # is) =
     (if i = cur then stale_slot st cur is
      else if count st i \<noteq> 0 \<or> storage (slots st i) \<noteq> None then True
      else stale_slot st cur is)"

definition WithCheckpointMaintenance ::
  "('g SnapshotSlot \<Rightarrow> 'r \<times> 'g SnapshotSlot) \<Rightarrow> 'g snapshot_store \<Rightarrow> ('r \<times> 'g snapshot_store) res" where
  "WithCheckpointMaintenance fn st =
     (let cur = cur_slot_index st in
      if count st cur \<noteq> 1 then Inl InternalException
      else if stale_slot st cur [0..<slot_num st] then Inl InternalException
      else if storage (slots st cur) = None then Inl CheckFailed
      else case fn (slots st cur) of (r, x) \<Rightarrow> Inr (r, upd_slot cur (\<lambda>_. x) st))"

definition replaceCurrentSnapshotInPlace ::
  "nat \<Rightarrow> 'g option \<Rightarrow> 'g option \<Rightarrow> nat \<Rightarrow> 'g snapshot_store \<Rightarrow>
     ('g option \<times> 'g option \<times> 'g snapshot_store) res" where
  "replaceCurrentSnapshotInPlace target prepared_storage prepared_view planning st =
     (let cur = cur_slot_index st in
      if target \<noteq> cur then Inl CheckFailed
      else if count st cur \<noteq> 2 then Inl CheckFailed
      else Inr (storage (slots st cur), view (slots st cur),
                upd_slot cur (\<lambda>x. x \<lparr> storage := prepared_storage, view := prepared_view,
                                      planning_generation := planning \<rparr>) st))"

lemma stale_slot_iff:
  "stale_slot st cur is \<longleftrightarrow> (\<exists>i\<in>set is. i \<noteq> cur \<and> (count st i \<noteq> 0 \<or> storage (slots st i) \<noteq> None))"
  by (induction "is") auto

section \<open>Properties\<close>

lemma distinct_count_le_1: "(\<And>x. x \<in> set xs \<Longrightarrow> count_list xs x \<le> 1) \<Longrightarrow> distinct xs"
proof (induction xs)
  case (Cons a xs)
  have "a \<notin> set xs" using Cons.prems [of a] by (simp add: count_list_0_iff)
  moreover have "count_list xs x \<le> 1" if "x \<in> set xs" for x
    using Cons.prems [of x] that by (simp split: if_splits)
  ultimately show ?case using Cons.IH by simp
qed simp

definition content :: "'g SnapshotSlot \<Rightarrow> 'g option \<times> 'g option \<times> nat \<times> nat" where
  "content x = (storage x, view x, slot_generation x, planning_generation x)"

lemma content_simps [simp]:
  "content (slots (count_add s k st) x) = content (slots st x)"
  "content (slots (count_store s k st) x) = content (slots st x)"
  "content (slots (returnFreeSlot s st) x) = content (slots st x)"
  "x \<noteq> s \<Longrightarrow> content (slots (reset_fields s st) x) = content (slots st x)"
  by (simp_all add: content_def count_add_def count_store_def returnFreeSlot_def reset_fields_def)

text \<open>Only the exclusive owner of a slot changes its content.\<close>

lemma task_content:
  assumes "task_steps t st (t', st')" "excl t \<noteq> Some s"
  shows "content (slots st' s) = content (slots st s)"
  using assms(1) unfolding task_steps_def
proof (elim disjE exE)
  fix sp assume "PinCurrentSnapshot_step sp t st = (t', st')"
  then show ?thesis using assms(2) by (cases t) (auto split: if_splits)
next
  assume "unpinSnapshotByIndex_step t st = (t', st')"
  then show ?thesis using assms(2) by (cases t) (auto split: if_splits)
next
  assume "cleanupSlot_step t st = (t', st')"
  then show ?thesis using assms(2) by (cases t) (auto split: if_splits)
next
  fix sp assume "reserveSnapshotGeneration_step sp t st = (t', st')"
  then show ?thesis using assms(2) by (cases t) (auto split: if_splits)
next
  fix pg pl assume "PrepareSnapshot_step pg pl t st = (t', st')"
  then show ?thesis using assms(2)
    by (cases t) (auto simp: getFreeSlot_def split: if_splits option.splits)
next
  assume "publishPreparedSnapshot_step t st = (t', st')"
  then show ?thesis using assms(2) by (cases t) (auto split: if_splits)
qed simp

lemma pinned_not_owned:
  assumes "store_inv n st ts" "i < n" "0 < pinc s (ts i)" "j < n" "s < slot_num st"
  shows "excl (ts j) \<noteq> Some s"
proof
  assume "excl (ts j) = Some s"
  then have "exc s (ts j) = 1" by (simp add: exc_def)
  then have "0 < total (exc s) n ts" "0 < total (pinc s) n ts"
    using total_member [OF assms(4), of "exc s" ts] total_member [OF assms(2), of "pinc s" ts] assms(3) by simp_all
  then show False using assms(1,5) unfolding store_inv_def slot_ok_def by auto
qed


lemma idle_slots:
  assumes "store_reachable n (st, ts)" "\<And>i. i < n \<Longrightarrow> ts i = SIdle"
  shows "distinct (free_list st) \<and> set (free_list st) = {..<slot_num st} - {cur_slot_index st} \<and>
         count st (cur_slot_index st) = 1 \<and> storage (slots st (cur_slot_index st)) \<noteq> None \<and>
         (\<forall>s\<in>set (free_list st). count st s = 0 \<and> storage (slots st s) = None)"
proof -
  have inv: "store_inv n st ts" using store_reachable_inv [OF assms(1)] by simp
  have z: "total (pinc s) n ts = 0" "total (exc s) n ts = 0" for s
    using assms(2) by (simp_all add: total_def exc_def)
  have ok: "slot_ok (slots st s) (curc st s) 0 (count_list (free_list st) s)" if "s < slot_num st" for s
    using inv that z unfolding store_inv_def by auto
  have c: "count_list (free_list st) s = (if s < slot_num st \<and> s \<noteq> cur_slot_index st then 1 else 0)" for s
  proof (cases "s < slot_num st")
    case False
    then have "s \<notin> set (free_list st)" using inv_basic(2) [OF inv] by auto
    then show ?thesis using False by simp
  next
    case True
    then show ?thesis using ok [OF True] by (auto simp: slot_ok_def curc_def split: if_splits)
  qed
  have m: "s \<in> set (free_list st) \<longleftrightarrow> s < slot_num st \<and> s \<noteq> cur_slot_index st" for s
    using c [of s] by (metis count_list_0_iff zero_neq_one)
  have "distinct (free_list st)" by (rule distinct_count_le_1) (simp add: c)
  moreover have "count st (cur_slot_index st) = 1 \<and> storage (slots st (cur_slot_index st)) \<noteq> None"
    using ok [OF inv_basic(1) [OF inv]] by (simp add: slot_ok_def curc_def)
  moreover have "\<forall>s\<in>set (free_list st). count st s = 0 \<and> storage (slots st s) = None"
    using ok c m by (auto simp: slot_ok_def)
  ultimately show ?thesis using m by auto
qed

text \<open>
  C18. No slot is leaked and none is free twice: when every task is idle, the free list holds
  every slot but the current one exactly once, the current slot's count is exactly its own
  pin, and all other slots are empty with count zero.
\<close>
theorem idle_store_has_no_leak:
  assumes "store_reachable n (st, ts)" "\<And>i. i < n \<Longrightarrow> ts i = SIdle"
  shows "distinct (free_list st) \<and> set (free_list st) = {..<slot_num st} - {cur_slot_index st} \<and>
         count st (cur_slot_index st) = 1 \<and>
         (\<forall>s\<in>set (free_list st). count st s = 0 \<and> storage (slots st s) = None)"
  using idle_slots [OF assms] by blast

text \<open>
  C19. Snapshot generations identify snapshots: in every reachable state two slots that hold a
  graph have different generations, none above the last one reserved, and the current slot
  always holds a graph with a positive count. Publishing never fails its checks.
\<close>
theorem snapshot_generations_distinct:
  assumes "store_reachable n (st, ts)"
  shows "(\<forall>s s'. storage (slots st s) \<noteq> None \<and> storage (slots st s') \<noteq> None \<and> s \<noteq> s' \<longrightarrow>
            slot_generation (slots st s) \<noteq> slot_generation (slots st s')) \<and>
         0 < count st (cur_slot_index st) \<and> storage (slots st (cur_slot_index st)) \<noteq> None \<and>
         (\<forall>i<n. ts i \<noteq> SThrown CheckFailed)"
proof -
  have inv: "store_inv n st ts" using store_reachable_inv [OF assms] by simp
  have gen: "gen_inv n st ts" using store_reachable_gen [OF assms] by simp
  have cur: "slot_ok (slots st (cur_slot_index st)) (total (pinc (cur_slot_index st)) n ts + 1)
      (total (exc (cur_slot_index st)) n ts) (count_list (free_list st) (cur_slot_index st))"
    using inv inv_basic(1) [OF inv] unfolding store_inv_def by (auto simp: curc_def)
  have "slot_generation (slots st s) \<noteq> slot_generation (slots st s')"
    if "storage (slots st s) \<noteq> None" "storage (slots st s') \<noteq> None" "s \<noteq> s'" for s s'
    using gen_invD(3) [OF gen, of s _ s'] that by (auto simp: stored_def)
  moreover have "ts i \<noteq> SThrown CheckFailed" if "i < n" for i
    using inv_task(1) [OF inv that] by auto
  ultimately show ?thesis using cur by (auto simp: slot_ok_def)
qed

text \<open>
  Checkpoint maintenance is admitted exactly under quiescence: when every task is idle the
  checks of \<open>WithCheckpointMaintenance\<close> pass and the callback runs on the current slot; while
  some task holds a pin on any slot, the call is refused and nothing changes.
\<close>
theorem maintenance_needs_quiescence:
  assumes "store_reachable n (st, ts)"
  shows "((\<forall>i<n. ts i = SIdle) \<longrightarrow>
            (\<exists>r x. fn (slots st (cur_slot_index st)) = (r, x) \<and>
               WithCheckpointMaintenance fn st = Inr (r, upd_slot (cur_slot_index st) (\<lambda>_. x) st))) \<and>
         ((\<exists>i<n. \<exists>s. 0 < pinc s (ts i)) \<longrightarrow> WithCheckpointMaintenance fn st = Inl InternalException)"
proof (intro conjI impI)
  assume "\<forall>i<n. ts i = SIdle"
  note idle = idle_slots [OF assms] this
  have "\<not> stale_slot st (cur_slot_index st) [0..<slot_num st]"
    using idle by (auto simp: stale_slot_iff)
  then show "\<exists>r x. fn (slots st (cur_slot_index st)) = (r, x) \<and>
      WithCheckpointMaintenance fn st = Inr (r, upd_slot (cur_slot_index st) (\<lambda>_. x) st)"
    using idle by (auto simp: WithCheckpointMaintenance_def Let_def split: prod.splits)
next
  assume "\<exists>i<n. \<exists>s. 0 < pinc s (ts i)"
  then obtain i s where i: "i < n" "0 < pinc s (ts i)" by blast
  have inv: "store_inv n st ts" using store_reachable_inv [OF assms] by simp
  have s: "s < slot_num st" using inv_task(2) [OF inv i(1)] i(2) by (cases "ts i") (auto split: if_splits)
  have "0 < total (pinc s) n ts" using total_member [OF i(1), of "pinc s" ts] i(2) by simp
  then have "count st s = int (curc st s + total (pinc s) n ts)" "0 < total (pinc s) n ts"
    using inv s unfolding store_inv_def slot_ok_def by auto
  then have "count st (cur_slot_index st) \<noteq> 1 \<or> stale_slot st (cur_slot_index st) [0..<slot_num st]"
    using s by (cases "s = cur_slot_index st") (auto simp: stale_slot_iff curc_def)
  then show "WithCheckpointMaintenance fn st = Inl InternalException"
    by (auto simp: WithCheckpointMaintenance_def Let_def)
qed



theorem idle_store_has_no_leak_witness:
  "set (free_list (fst (run demo_release demo_start))) = {..<2} - {1}"
proof -
  let ?c = "run demo_release demo_start"
  have "store_reachable 2 (fst ?c, snd ?c)" using demo_release_reachable by simp
  moreover have "snd ?c i = SIdle" if "i < 2" for i
    using that by (auto simp: demo_simps less_2_cases_iff)
  ultimately have "set (free_list (fst ?c)) = {..<slot_num (fst ?c)} - {cur_slot_index (fst ?c)}"
    using idle_store_has_no_leak [of 2 "fst ?c" "snd ?c"] by blast
  moreover have "slot_num (fst ?c) = 2" "cur_slot_index (fst ?c) = 1" by (simp_all add: demo_simps)
  ultimately show ?thesis by simp
qed

theorem snapshot_generations_distinct_witness:
  "slot_generation (slots (fst (run demo_publish demo_start)) 0) \<noteq>
     slot_generation (slots (fst (run demo_publish demo_start)) 1)"
proof -
  let ?c = "run demo_publish demo_start"
  have "store_reachable 2 (fst ?c, snd ?c)" using demo_publish_reachable by simp
  moreover have "storage (slots (fst ?c) 0) \<noteq> None" "storage (slots (fst ?c) 1) \<noteq> None"
    by (simp_all add: demo_simps)
  ultimately show ?thesis using snapshot_generations_distinct [of 2 "fst ?c" "snd ?c"] by auto
qed

theorem maintenance_needs_quiescence_witness:
  "WithCheckpointMaintenance (\<lambda>x. ((), x)) (fst (run demo_publish demo_start)) = Inl InternalException \<and>
   (\<exists>y. WithCheckpointMaintenance (\<lambda>x. ((), x)) (fst (run demo_release demo_start)) = Inr y)"
proof -
  let ?c = "run demo_publish demo_start" and ?d = "run demo_release demo_start"
  have r: "store_reachable 2 (fst ?c, snd ?c)" "store_reachable 2 (fst ?d, snd ?d)"
    using demo_publish_reachable demo_release_reachable by simp_all
  have "0 < pinc 0 (snd ?c 1)" by (simp add: demo_simps)
  then have "\<exists>i<2. \<exists>s. 0 < pinc s (snd ?c i)" by (intro exI [of _ "1::nat"]) auto
  moreover have "\<forall>i<2. snd ?d i = SIdle" by (auto simp: demo_simps less_2_cases_iff)
  ultimately show ?thesis
    using maintenance_needs_quiescence [OF r(1), of "\<lambda>x. ((), x)"] maintenance_needs_quiescence [OF r(2), of "\<lambda>x. ((), x)"]
    by blast
qed

end
