(* ===== verification/Read_Lease.thy ===== *)
theory Read_Lease
  imports Version_Manager
begin

text \<open>
  \<open>ReadSnapshotLease\<close> (\<open>src/transaction/read_snapshot_lease.cc\<close>): a reader's admission, its
  timestamp and its pinned snapshot as one value. The published view and the slot that each
  attempt of \<open>Acquire\<close> observes come from the version manager and the snapshot store, so they
  are an argument of the model; the calls the lease makes are recorded in order.
\<close>

record PinnedSlot =
  slot :: nat
  pinned_generation :: u32

record ReadSnapshotLease =
  lease_ts :: u32
  admission_active :: bool
  snapshot :: "nat option"

datatype read_call = AcquireRead | PinSlot nat | UnpinSlot nat | ReleaseRead

text \<open>One attempt: what \<open>acquire_read_operation\<close> published and which slot the pin returned.\<close>

fun Acquire :: "(PublishedReadView \<times> PinnedSlot) list \<Rightarrow> (ReadSnapshotLease \<times> read_call list) option" where
  "Acquire [] = None"
| "Acquire ((published_view, pin) # attempts) =
     (if pinned_generation pin = snapshot_generation published_view
      then Some (\<lparr> lease_ts = visibility_ts published_view, admission_active = True,
                   snapshot = Some (slot pin) \<rparr>, [AcquireRead, PinSlot (slot pin)])
      else map_option (apsnd (append [AcquireRead, PinSlot (slot pin), UnpinSlot (slot pin), ReleaseRead]))
             (Acquire attempts))"

definition guard_release :: "nat option \<Rightarrow> nat option \<times> read_call list" where
  "guard_release s = (None, case s of None \<Rightarrow> [] | Some x \<Rightarrow> [UnpinSlot x])"

definition read_lease_release :: "ReadSnapshotLease \<Rightarrow> ReadSnapshotLease \<times> read_call list" where
  "read_lease_release l =
     (if \<not> admission_active l then (l, [])
      else (l \<lparr> snapshot := fst (guard_release (snapshot l)), admission_active := False \<rparr>,
            snd (guard_release (snapshot l)) @ [ReleaseRead]))"

text \<open>The move constructor and the move assignment: the new value, what stays behind, and the
  calls made by releasing the overwritten lease.\<close>

definition read_lease_move :: "ReadSnapshotLease \<Rightarrow> ReadSnapshotLease \<times> ReadSnapshotLease" where
  "read_lease_move other = (other, other \<lparr> admission_active := False, snapshot := None \<rparr>)"

definition read_lease_assign ::
  "ReadSnapshotLease \<Rightarrow> ReadSnapshotLease \<Rightarrow> (ReadSnapshotLease \<times> ReadSnapshotLease) \<times> read_call list" where
  "read_lease_assign l other = (read_lease_move other, snd (read_lease_release l))"

section \<open>The discipline of a reader\<close>

text \<open>What a sequence of calls leaves held: the admission and the pinned slot. A pin needs an
  admission, and the admission is given back only after the pin.\<close>

fun replay_calls :: "bool \<times> nat option \<Rightarrow> read_call list \<Rightarrow> (bool \<times> nat option) option" where
  "replay_calls h [] = Some h"
| "replay_calls (adm, pin) (AcquireRead # cs) = (if adm then None else replay_calls (True, pin) cs)"
| "replay_calls (adm, pin) (PinSlot s # cs) =
     (if adm \<and> pin = None then replay_calls (adm, Some s) cs else None)"
| "replay_calls (adm, pin) (UnpinSlot s # cs) =
     (if pin = Some s then replay_calls (adm, None) cs else None)"
| "replay_calls (adm, pin) (ReleaseRead # cs) =
     (if adm \<and> pin = None then replay_calls (False, None) cs else None)"

lemma replay_append: "replay_calls h (cs @ ds) = Option.bind (replay_calls h cs) (\<lambda>h'. replay_calls h' ds)"
  by (induction h cs rule: replay_calls.induct) auto

lemma Acquire_held:
  "Acquire as = Some (l, cs) \<Longrightarrow>
     admission_active l \<and> replay_calls (False, None) cs = Some (True, snapshot l) \<and>
     (\<exists>v p. (v, p) \<in> set as \<and> snapshot l = Some (slot p) \<and> lease_ts l = visibility_ts v \<and>
        pinned_generation p = snapshot_generation v)"
  by (induction as arbitrary: cs rule: Acquire.induct) (fastforce split: if_splits)+

text \<open>
  C20. A read lease is one coherent pair: \<open>Acquire\<close> returns as soon as an attempt pins a slot of
  the published generation, with that attempt's timestamp; every failed attempt gives back its
  pin before its admission; and releasing the lease, once or twice, unpins its slot, then gives
  back the admission, and leaves nothing held.
\<close>
theorem read_lease_discipline:
  assumes "(v, p) \<in> set attempts" "pinned_generation p = snapshot_generation v"
  shows "\<exists>l cs. Acquire attempts = Some (l, cs) \<and>
     (\<exists>v p. (v, p) \<in> set attempts \<and> snapshot l = Some (slot p) \<and> lease_ts l = visibility_ts v \<and>
        pinned_generation p = snapshot_generation v) \<and>
     (let (l', cs') = read_lease_release l; (l'', cs'') = read_lease_release l' in
        replay_calls (False, None) (cs @ cs' @ cs'') = Some (False, None) \<and> l'' = l' \<and> \<not> admission_active l')"
proof -
  have "Acquire attempts \<noteq> None"
    using assms by (induction attempts) auto
  then obtain l cs where a: "Acquire attempts = Some (l, cs)" by auto
  obtain x where "snapshot l = Some x" using Acquire_held [OF a] by blast
  then show ?thesis using Acquire_held [OF a] a
    by (auto simp: read_lease_release_def guard_release_def replay_append)
qed

theorem read_lease_discipline_witness:
  "\<exists>l cs. Acquire [(\<lparr> visibility_ts = 7, snapshot_generation = 2 \<rparr>, \<lparr> slot = 0, pinned_generation = 1 \<rparr>),
                  (\<lparr> visibility_ts = 9, snapshot_generation = 2 \<rparr>, \<lparr> slot = 3, pinned_generation = 2 \<rparr>)]
     = Some (l, cs) \<and> snapshot l = Some 3 \<and> lease_ts l = 9"
  using read_lease_discipline [of "\<lparr> visibility_ts = 9, snapshot_generation = 2 \<rparr>" "\<lparr> slot = 3, pinned_generation = 2 \<rparr>"
    "[(\<lparr> visibility_ts = 7, snapshot_generation = 2 \<rparr>, \<lparr> slot = 0, pinned_generation = 1 \<rparr>),
      (\<lparr> visibility_ts = 9, snapshot_generation = 2 \<rparr>, \<lparr> slot = 3, pinned_generation = 2 \<rparr>)]"]
  by auto

end
