(* ===== verification/Wal_Recovery.thy ===== *)
theory Wal_Recovery
  imports Wal_Writer
begin

text \<open>
  The log parser (\<open>src/transaction/wal/local_wal_parser.cc\<close>) and the recovery loop of
  \<open>NeugDB::ingestWals\<close> (\<open>src/main/neug_db.cc\<close>). A log file is its content and its size; a
  pointer into a mapped file together with a size is the bytes it points to. Reading outside
  a file or a vector is undefined behaviour.
\<close>

section \<open>The parser\<close>

record LocalWalParser =
  insert_wal_list :: "bytes list"
  update_wal_list :: "(nat \<times> bytes) list"
  last_ts :: nat

definition parser_closed :: LocalWalParser where
  "parser_closed = \<lparr> insert_wal_list = [], update_wal_list = [], last_ts = 0 \<rparr>"

text \<open>\<open>vector::resize\<close>: new elements are null pointers with size zero.\<close>

definition resize :: "nat \<Rightarrow> bytes list \<Rightarrow> bytes list" where
  "resize n xs = take n xs @ replicate (n - length xs) []"

definition add_unit :: "WalHeader \<Rightarrow> bytes \<Rightarrow> LocalWalParser \<Rightarrow> LocalWalParser res" where
  "add_unit h data p = (let ts = unat (timestamp h) in
     if update_type h then
       Inr (p \<lparr> update_wal_list := update_wal_list p @ [(ts, data)], last_ts := max ts (last_ts p) \<rparr>)
     else let l = (if ts \<ge> length (insert_wal_list p) then resize (u32_succ ts) (insert_wal_list p)
                   else insert_wal_list p) in
       if ts < length l then Inr (p \<lparr> insert_wal_list := l[ts := data], last_ts := max ts (last_ts p) \<rparr>)
       else Inl UndefinedBehaviour)"

text \<open>The loop over one file. Every record takes at least a header, so a file of \<open>n\<close> bytes has
  at most \<open>n\<close> of them; a negative length is a size beyond every file.\<close>

fun parse_file :: "nat \<Rightarrow> wfile \<Rightarrow> nat \<Rightarrow> nat \<Rightarrow> LocalWalParser \<Rightarrow> LocalWalParser res" where
  "parse_file 0 f sz pos p = Inl UndefinedBehaviour"
| "parse_file (Suc k) f sz pos p =
     (if pos + header_size > sz then Inl UndefinedBehaviour
      else let h = get_WalHeader (slice f pos header_size); pos' = pos + header_size in
        if timestamp h = 0 then Inr p
        else if rec_length h < 0 \<or> pos' + nat (rec_length h) > sz then Inl UndefinedBehaviour
        else res_bind (add_unit h (slice f pos' (nat (rec_length h))) p)
               (parse_file k f sz (pos' + nat (rec_length h))))"

fun parse_files :: "(wfile \<times> nat) list \<Rightarrow> LocalWalParser \<Rightarrow> LocalWalParser res" where
  "parse_files [] p = Inr p"
| "parse_files ((f, sz) # fs) p =
     (if sz = 0 then parse_files fs p else res_bind (parse_file (Suc sz) f sz 0 p) (parse_files fs))"

definition parser_open :: "(wfile \<times> nat) list \<Rightarrow> LocalWalParser res" where
  "parser_open files =
     res_bind (parse_files files (parser_closed \<lparr> insert_wal_list := resize 4096 [] \<rparr>))
       (\<lambda>p. Inr (p \<lparr> update_wal_list := sort_key fst (update_wal_list p) \<rparr>))"

definition get_insert_wal :: "LocalWalParser \<Rightarrow> nat \<Rightarrow> bytes res" where
  "get_insert_wal p ts =
     (if ts < length (insert_wal_list p) then Inr (insert_wal_list p ! ts) else Inl UndefinedBehaviour)"

section \<open>Recovery\<close>

text \<open>The graph and what the records do to it are arguments: \<open>ingest\<close> is
  \<open>MvccInsertTransaction::IngestWal\<close>, \<open>replay\<close> is \<open>ReplayCowGraphWal\<close>, \<open>compact\<close> is
  \<open>PropertyGraph::Compact\<close>.\<close>

record 'g recovery_ops =
  ingest :: "nat \<Rightarrow> bytes \<Rightarrow> 'g \<Rightarrow> 'g res"
  replay :: "nat \<Rightarrow> bytes \<Rightarrow> 'g \<Rightarrow> 'g res"
  compact :: "'g \<Rightarrow> 'g"

definition IngestWalRange :: "'g recovery_ops \<Rightarrow> LocalWalParser \<Rightarrow> nat \<Rightarrow> nat \<Rightarrow> 'g \<Rightarrow> 'g res" where
  "IngestWalRange ops p from to g =
     fold_res (\<lambda>j g. res_bind (get_insert_wal p j) (\<lambda>unit. ingest ops j unit g)) [from..<to] g"

fun ingest_updates ::
  "'g recovery_ops \<Rightarrow> LocalWalParser \<Rightarrow> nat \<Rightarrow> (nat \<times> bytes) list \<Rightarrow> nat \<times> 'g \<Rightarrow> (nat \<times> 'g) res" where
  "ingest_updates ops p base [] s = Inr s"
| "ingest_updates ops p base ((to_ts, data) # us) (from_ts, g) =
     (if to_ts \<le> base then ingest_updates ops p base us (from_ts, g)
      else res_bind (if from_ts < to_ts then IngestWalRange ops p from_ts to_ts g else Inr g)
        (\<lambda>g1. res_bind (if data = [] then Inr (compact ops g1) else replay ops to_ts data g1)
          (\<lambda>g2. ingest_updates ops p base us (u32_succ to_ts, g2))))"

definition ingestWals :: "'g recovery_ops \<Rightarrow> LocalWalParser \<Rightarrow> nat \<Rightarrow> 'g \<Rightarrow> (nat \<times> 'g) res" where
  "ingestWals ops p base g =
     res_bind (ingest_updates ops p base (update_wal_list p) (u32_succ base, g))
       (\<lambda>(from_ts, g1).
          res_bind (if from_ts \<le> last_ts p then IngestWalRange ops p from_ts (u32_succ (last_ts p)) g1 else Inr g1)
            (\<lambda>g2. Inr (max base (last_ts p), g2)))"

section \<open>The specification of recovery\<close>

text \<open>One step per timestamp: the update record of that timestamp if there is one, otherwise
  its insert record.\<close>

definition recover_at :: "'g recovery_ops \<Rightarrow> LocalWalParser \<Rightarrow> nat \<Rightarrow> 'g \<Rightarrow> 'g res" where
  "recover_at ops p j g = (case map_of (update_wal_list p) j of
     Some data \<Rightarrow> if data = [] then Inr (compact ops g) else replay ops j data g
   | None \<Rightarrow> ingest ops j (insert_wal_list p ! j) g)"

definition parsed_ok :: "LocalWalParser \<Rightarrow> bool" where
  "parsed_ok p \<longleftrightarrow> sorted_wrt (<) (map fst (update_wal_list p)) \<and>
     (\<forall>u\<in>set (update_wal_list p). fst u \<le> last_ts p) \<and> last_ts p < u32_max"

lemma sorted_less_distinct: "sorted_wrt (<) (xs :: nat list) \<Longrightarrow> distinct xs"
  by (induction xs) auto

lemma map_of_sorted_tail:
  fixes us :: "(nat \<times> 'a) list"
  assumes "sorted_wrt (<) (map fst (us @ (t, d) # vs))"
  shows "map_of (us @ (t, d) # vs) t = Some d"
proof -
  have "distinct (map fst (us @ (t, d) # vs))" using sorted_less_distinct [OF assms] .
  then show ?thesis by (rule map_of_is_SomeI) simp
qed

lemma res_bind_assoc: "res_bind (res_bind r f) k = res_bind r (\<lambda>x. res_bind (f x) k)"
  by (cases r) simp_all

lemma fold_res_cong:
  "(\<And>x g. x \<in> set xs \<Longrightarrow> f x g = h x g) \<Longrightarrow> fold_res f xs g = fold_res h xs g"
proof (induction xs arbitrary: g)
  case (Cons x xs) then show ?case by (cases "h x g") simp_all
qed simp

lemma IngestWalRange_spec:
  assumes "to \<le> length (insert_wal_list p)" "\<And>j. from \<le> j \<Longrightarrow> j < to \<Longrightarrow> j \<notin> fst ` set (update_wal_list p)"
  shows "IngestWalRange ops p from to g = fold_res (recover_at ops p) [from..<to] g"
proof -
  have "map_of (update_wal_list p) j = None" if "from \<le> j" "j < to" for j
    using assms(2) [OF that] by (simp add: map_of_eq_None_iff)
  then show ?thesis
    using assms(1) unfolding IngestWalRange_def
    by (intro fold_res_cong) (simp add: recover_at_def get_insert_wal_def)
qed

lemma fold_res_Cons: "fold_res f (x # xs) = (\<lambda>g. res_bind (f x g) (fold_res f xs))"
  by (rule ext) simp

lemma fold_res_upt:
  assumes "a \<le> b" "b \<le> c"
  shows "fold_res f [a..<c] g = res_bind (fold_res f [a..<b] g) (fold_res f [b..<c])"
proof -
  have "[a..<c] = [a..<b] @ [b..<c]" using upt_add_eq_append [OF assms(1), of "c - b"] assms(2) by simp
  then show ?thesis by (simp only: fold_res_append)
qed

text \<open>Where the loop over the updates stops: behind the last update after the base.\<close>

fun resume :: "nat \<Rightarrow> (nat \<times> bytes) list \<Rightarrow> nat \<Rightarrow> nat" where
  "resume base [] from = from"
| "resume base ((t, d) # us) from = (if t \<le> base then resume base us from else resume base us (t + 1))"

lemma resume_bounds:
  assumes "sorted_wrt (<) (map fst us)" "\<forall>u\<in>set us. fst u \<le> l" "from \<le> l + 1" "base < from"
    "\<forall>u\<in>set us. base < fst u \<longrightarrow> from \<le> fst u"
  shows "from \<le> resume base us from \<and> resume base us from \<le> l + 1 \<and> (\<forall>u\<in>set us. fst u < resume base us from)"
  using assms
proof (induction us arbitrary: "from")
  case (Cons u us)
  obtain t d where u: "u = (t, d)" by (cases u)
  show ?case
  proof (cases "t \<le> base")
    case True
    then show ?thesis using Cons.IH [of "from"] Cons.prems u by auto
  next
    case False
    have "\<forall>w\<in>set us. base < fst w \<longrightarrow> t + 1 \<le> fst w" using Cons.prems(1) u by (auto simp: Suc_le_eq)
    then have "t + 1 \<le> resume base us (t + 1) \<and> resume base us (t + 1) \<le> l + 1 \<and> (\<forall>u\<in>set us. fst u < resume base us (t + 1))"
      using Cons.IH [of "t + 1"] Cons.prems(1,2) u False by auto
    then show ?thesis using False Cons.prems(5) u by auto
  qed
qed simp

lemma ingest_updates_spec:
  assumes "sorted_wrt (<) (map fst (us @ vs))" "us @ vs = update_wal_list p" "\<forall>u\<in>set vs. fst u \<le> last_ts p"
    "last_ts p < u32_max" "last_ts p < length (insert_wal_list p)"
    "\<forall>u\<in>set us. fst u < from" "\<forall>v\<in>set vs. base < fst v \<longrightarrow> from \<le> fst v" "base < from" "from \<le> last_ts p + 1"
  shows "ingest_updates ops p base vs (from, g) =
    res_bind (fold_res (recover_at ops p) [from..<resume base vs from] g) (\<lambda>g'. Inr (resume base vs from, g'))"
  using assms
proof (induction vs arbitrary: us "from" g)
  case (Cons v vs)
  obtain t d where v: "v = (t, d)" by (cases v)
  have sorted: "sorted_wrt (<) (map fst ((us @ [v]) @ vs))" "(us @ [v]) @ vs = update_wal_list p"
    using Cons.prems(1,2) by simp_all
  have last: "\<forall>u\<in>set vs. fst u \<le> last_ts p" using Cons.prems(3) by simp
  show ?case
  proof (cases "t \<le> base")
    case True
    then have "\<forall>u\<in>set (us @ [v]). fst u < from" "\<forall>w\<in>set vs. base < fst w \<longrightarrow> from \<le> fst w"
      using Cons.prems(6-8) v by auto
    from Cons.IH [OF sorted last Cons.prems(4,5) this Cons.prems(8,9)] True v show ?thesis by simp
  next
    case False
    then have t: "from \<le> t" "t \<le> last_ts p" "base < t" using Cons.prems(3,7) v by auto
    have later: "\<forall>w\<in>set vs. t < fst w" using Cons.prems(1) v by (auto simp: sorted_wrt_append)
    have r: "(if from < t then IngestWalRange ops p from t g else Inr g) = fold_res (recover_at ops p) [from..<t] g"
    proof (cases "from < t")
      case True
      have "j \<notin> fst ` set (update_wal_list p)" if "from \<le> j" "j < t" for j
        using later Cons.prems(6) v that unfolding Cons.prems(2) [symmetric] by fastforce
      then show ?thesis using IngestWalRange_spec [of t p "from" ops g] t Cons.prems(5) True by simp
    qed (use t in simp)
    have "map_of (update_wal_list p) t = Some d"
      using map_of_sorted_tail [of us t d vs] Cons.prems(1) v unfolding Cons.prems(2) [symmetric] by simp
    then have at: "recover_at ops p t h = (if d = [] then Inr (compact ops h) else replay ops t d h)" for h
      by (simp add: recover_at_def)
    have pre: "\<forall>u\<in>set (us @ [v]). fst u < t + 1" "\<forall>w\<in>set vs. base < fst w \<longrightarrow> t + 1 \<le> fst w"
      "base < t + 1" "t + 1 \<le> last_ts p + 1"
      using Cons.prems(6) v t later by auto
    note IH = Cons.IH [OF sorted last Cons.prems(4,5) pre]
    have vs: "sorted_wrt (<) (map fst vs)" using Cons.prems(1) by (simp add: sorted_wrt_append)
    have R: "t + 1 \<le> resume base vs (t + 1)" using resume_bounds [OF vs last pre(4,3,2)] by simp
    then have c: "[t..<resume base vs (t + 1)] = t # [t + 1..<resume base vs (t + 1)]" by (simp add: upt_conv_Cons)
    have f: "fold_res (recover_at ops p) [from..<resume base vs (t + 1)] g =
        res_bind (fold_res (recover_at ops p) [from..<t] g) (\<lambda>h. res_bind (recover_at ops p t h)
          (fold_res (recover_at ops p) [t + 1..<resume base vs (t + 1)]))"
      using t(1) R fold_res_upt [of "from" t "resume base vs (t + 1)" "recover_at ops p" g]
      unfolding c fold_res_Cons by simp
    have u: "u32_succ t = t + 1" using t(2) Cons.prems(4) by simp
    have "ingest_updates ops p base (v # vs) (from, g) =
        res_bind (fold_res (recover_at ops p) [from..<t] g) (\<lambda>h. res_bind (recover_at ops p t h)
          (\<lambda>h'. ingest_updates ops p base vs (t + 1, h')))"
      using False unfolding v ingest_updates.simps r at u by simp
    also have "\<dots> = res_bind (fold_res (recover_at ops p) [from..<resume base vs (t + 1)] g)
        (\<lambda>g'. Inr (resume base vs (t + 1), g'))"
      unfolding f IH res_bind_assoc by simp
    finally show ?thesis using False v by simp
  qed
qed simp


section \<open>Properties\<close>




section \<open>Parsing what was written\<close>

type_synonym log_record = "u32 \<times> bool \<times> bytes"

definition header_of :: "log_record \<Rightarrow> WalHeader" where
  "header_of r = \<lparr> timestamp = fst r, update_type = fst (snd r), rec_length = int (length (snd (snd r))) \<rparr>"

definition put_record :: "log_record \<Rightarrow> bytes" where
  "put_record r = put_WalHeader (header_of r) @ snd (snd r)"

definition wf_record :: "log_record \<Rightarrow> bool" where
  "wf_record r \<longleftrightarrow> fst r \<noteq> 0 \<and> length (snd (snd r)) < 2 ^ 30"

definition add_record :: "log_record \<Rightarrow> LocalWalParser \<Rightarrow> LocalWalParser res" where
  "add_record r = add_unit (header_of r) (snd (snd r))"

lemma get_header_of: "wf_record r \<Longrightarrow> get_WalHeader (put_WalHeader (header_of r)) = header_of r"
  using signed31_small [of "length (snd (snd r))"] by (simp add: get_put_WalHeader wf_record_def header_of_def)

lemma get_zero_header: "timestamp (get_WalHeader (replicate header_size 0)) = 0"
  by (simp add: get_WalHeader_def numeral_eq_Suc)

lemma parse_file_records:
  "list_all wf_record rs \<Longrightarrow> slice f pos (length (concat (map put_record rs))) = concat (map put_record rs) \<Longrightarrow>
   slice f (pos + length (concat (map put_record rs))) header_size = replicate header_size 0 \<Longrightarrow>
   pos + length (concat (map put_record rs)) + header_size \<le> sz \<Longrightarrow> length rs < k \<Longrightarrow>
   parse_file k f sz pos p = fold_res add_record rs p"
proof (induction rs arbitrary: pos k p)
  case Nil
  then obtain j where "k = Suc j" by (cases k) auto
  then show ?case using Nil get_zero_header by simp
next
  case (Cons r rs)
  let ?d = "snd (snd r)" let ?rest = "concat (map put_record rs)" let ?n = "header_size + length ?d"
  obtain j where k: "k = Suc j" "length rs < j" using Cons.prems(5) by (cases k) auto
  have r: "wf_record r" using Cons.prems(1) by simp
  have len: "length (concat (map put_record (r # rs))) = header_size + (length ?d + length ?rest)"
    by (simp add: put_record_def)
  have sl: "slice f pos header_size = put_WalHeader (header_of r)"
      "slice f (pos + header_size) (length ?d) = ?d" "slice f (pos + ?n) (length ?rest) = ?rest"
    using Cons.prems(2) unfolding len slice_add
    by (simp_all add: put_record_def [of r] append_eq_append_conv add.assoc)
  have "parse_file j f sz (pos + ?n) q = fold_res add_record rs q" for q
  proof (rule Cons.IH)
    show "slice f (pos + ?n + length ?rest) header_size = replicate header_size 0"
      using Cons.prems(3) unfolding len by (simp add: add.assoc)
  qed (use Cons.prems sl k len in \<open>simp_all add: add.assoc\<close>)
  then have IH: "parse_file j f sz (pos + ?n) = fold_res add_record rs" by (rule ext)
  have bound: "pos + header_size \<le> sz" "pos + header_size + length ?d \<le> sz" using Cons.prems(4) len by simp_all
  have h: "timestamp (header_of r) \<noteq> 0" "rec_length (header_of r) = int (length ?d)"
    using r by (simp_all add: wf_record_def header_of_def)
  show ?case using bound h IH
    by (simp add: k(1) Let_def sl get_header_of [OF r] add_record_def [of r] add.assoc)
qed


text \<open>What a parser knows about a timestamp, with the null unit outside the list.\<close>

definition insert_at :: "LocalWalParser \<Rightarrow> nat \<Rightarrow> bytes" where
  "insert_at p j = (if j < length (insert_wal_list p) then insert_wal_list p ! j else [])"

abbreviation rec_ts :: "log_record \<Rightarrow> nat" where "rec_ts r \<equiv> unat (fst r)"
abbreviation is_update :: "log_record \<Rightarrow> bool" where "is_update r \<equiv> fst (snd r)"
abbreviation rec_data :: "log_record \<Rightarrow> bytes" where "rec_data r \<equiv> snd (snd r)"

lemma resize_nth: "j < n \<Longrightarrow> resize n xs ! j = (if j < length xs then xs ! j else [])"
  by (auto simp: resize_def nth_append min_def)

lemma resize_length [simp]: "length (resize n xs) = n"
  by (simp add: resize_def)

lemma add_record_ok:
  assumes "rec_ts r < u32_max"
  shows "\<exists>q. add_record r p = Inr q \<and>
    update_wal_list q = update_wal_list p @ (if is_update r then [(rec_ts r, rec_data r)] else []) \<and>
    insert_at q = (if is_update r then insert_at p else (insert_at p)(rec_ts r := rec_data r)) \<and>
    (\<not> is_update r \<longrightarrow> rec_ts r < length (insert_wal_list q)) \<and>
    length (insert_wal_list p) \<le> length (insert_wal_list q) \<and> last_ts q = max (rec_ts r) (last_ts p)"
  using assms
  by (auto simp: add_record_def add_unit_def header_of_def Let_def insert_at_def fun_eq_iff resize_nth nth_list_update)

definition file_updates :: "log_record list \<Rightarrow> (nat \<times> bytes) list" where
  "file_updates rs = map (\<lambda>r. (rec_ts r, rec_data r)) (filter is_update rs)"

lemma add_records_ok:
  assumes "\<forall>r\<in>set rs. rec_ts r < u32_max" "distinct (map rec_ts rs)"
  shows "\<exists>q. fold_res add_record rs p = Inr q \<and>
    update_wal_list q = update_wal_list p @ file_updates rs \<and>
    (\<forall>r\<in>set rs. \<not> is_update r \<longrightarrow> rec_ts r < length (insert_wal_list q) \<and> insert_at q (rec_ts r) = rec_data r) \<and>
    (\<forall>j. (\<forall>r\<in>set rs. \<not> is_update r \<longrightarrow> rec_ts r \<noteq> j) \<longrightarrow> insert_at q j = insert_at p j) \<and>
    length (insert_wal_list p) \<le> length (insert_wal_list q) \<and>
    last_ts q = fold max (map rec_ts rs) (last_ts p)"
  using assms
proof (induction rs arbitrary: p)
  case (Cons r rs)
  from add_record_ok [of r p] Cons.prems(1) obtain p1 where p1: "add_record r p = Inr p1"
    "update_wal_list p1 = update_wal_list p @ (if is_update r then [(rec_ts r, rec_data r)] else [])"
    "insert_at p1 = (if is_update r then insert_at p else (insert_at p)(rec_ts r := rec_data r))"
    "\<not> is_update r \<longrightarrow> rec_ts r < length (insert_wal_list p1)"
    "length (insert_wal_list p) \<le> length (insert_wal_list p1)" "last_ts p1 = max (rec_ts r) (last_ts p)"
    by auto
  from Cons.IH [of p1] Cons.prems obtain q where q: "fold_res add_record rs p1 = Inr q"
    "update_wal_list q = update_wal_list p1 @ file_updates rs"
    "\<forall>r\<in>set rs. \<not> is_update r \<longrightarrow> rec_ts r < length (insert_wal_list q) \<and> insert_at q (rec_ts r) = rec_data r"
    "\<forall>j. (\<forall>r\<in>set rs. \<not> is_update r \<longrightarrow> rec_ts r \<noteq> j) \<longrightarrow> insert_at q j = insert_at p1 j"
    "length (insert_wal_list p1) \<le> length (insert_wal_list q)" "last_ts q = fold max (map rec_ts rs) (last_ts p1)"
    by auto
  have "rec_ts r \<notin> rec_ts ` set rs" using Cons.prems(2) by simp
  then have "\<forall>r'\<in>set rs. rec_ts r' \<noteq> rec_ts r" by (metis imageI)
  then have "insert_at q (rec_ts r) = insert_at p1 (rec_ts r)" using q(4) by blast
  moreover have "insert_at q j = insert_at p j" if "\<forall>r'\<in>set (r # rs). \<not> is_update r' \<longrightarrow> rec_ts r' \<noteq> j" for j
    using q(4) p1(3) that by (cases "is_update r") auto
  ultimately show ?case using p1 q by (auto simp: file_updates_def)
qed (simp add: file_updates_def)

lemma parse_log_file:
  assumes "writer_inv w" "fd w" "log_bytes w = concat (map put_record rs)"
    and "list_all wf_record rs" "\<forall>r\<in>set rs. rec_ts r < u32_max" "distinct (map rec_ts rs)"
  shows "\<exists>p. parser_open [(content w, file_size w)] = Inr p \<and>
    (\<forall>r\<in>set rs. \<not> is_update r \<longrightarrow> get_insert_wal p (rec_ts r) = Inr (rec_data r)) \<and>
    update_wal_list p = sort_key fst (file_updates rs) \<and>
    last_ts p = fold max (map rec_ts rs) 0"
proof -
  let ?p0 = "parser_closed \<lparr> insert_wal_list := resize 4096 [] \<rparr>"
  let ?n = "length (concat (map put_record rs))"
  have n: "file_used w = ?n" using arg_cong [OF assms(3), of length] by (simp only: log_bytes_def slice_length)
  have inv: "file_used w + header_size \<le> file_size w" "slice (content w) (file_used w) header_size = replicate header_size 0"
    using assms(1,2) by (simp_all add: writer_inv_def)
  have "length rs \<le> ?n" by (induction rs) (auto simp: put_record_def)
  then have "parse_file (Suc (file_size w)) (content w) (file_size w) 0 ?p0 = fold_res add_record rs ?p0"
    using parse_file_records [OF assms(4), of "content w" 0 "file_size w" "Suc (file_size w)" ?p0] inv assms(3) n
    by (simp add: log_bytes_def)
  moreover from add_records_ok [OF assms(5,6), of ?p0] obtain q where q: "fold_res add_record rs ?p0 = Inr q"
    "update_wal_list q = file_updates rs" "last_ts q = fold max (map rec_ts rs) 0"
    "\<forall>r\<in>set rs. \<not> is_update r \<longrightarrow> rec_ts r < length (insert_wal_list q) \<and> insert_at q (rec_ts r) = rec_data r"
    by (auto simp: parser_closed_def)
  ultimately have o: "parser_open [(content w, file_size w)] = Inr (q \<lparr> update_wal_list := sort_key fst (update_wal_list q) \<rparr>)"
    using inv by (auto simp: parser_open_def)
  show ?thesis unfolding o using q by (auto simp: get_insert_wal_def insert_at_def)
qed

text \<open>
  C29. What the writer wrote is what recovery finds: parsing a log file whose accepted bytes are
  the records \<open>rs\<close>, with different timestamps and at most \<open>2 ^ 30 - 1\<close> bytes of content each,
  finds every insert record at its timestamp, exactly the update records, sorted by timestamp,
  and the largest timestamp.
\<close>
theorem log_file_round_trip:
  assumes "writer_inv w" "fd w" "log_bytes w = concat (map put_record rs)"
    and "list_all wf_record rs" "\<forall>r\<in>set rs. rec_ts r < u32_max" "distinct (map rec_ts rs)"
  shows "\<exists>p. parser_open [(content w, file_size w)] = Inr p \<and>
    (\<forall>r\<in>set rs. \<not> is_update r \<longrightarrow> get_insert_wal p (rec_ts r) = Inr (rec_data r)) \<and>
    update_wal_list p = sort_key fst (file_updates rs) \<and>
    last_ts p = fold max (map rec_ts rs) 0"
  by (rule parse_log_file [OF assms])


section \<open>Concrete logs\<close>

text \<open>Operations that only note what was done.\<close>

definition trace_ops :: "(nat \<times> bytes) list recovery_ops" where
  "trace_ops = \<lparr> ingest = (\<lambda>j d g. Inr (if d = [] then g else g @ [(j, d)])),
                 replay = (\<lambda>j d g. Inr (g @ [(j, d)])), compact = (\<lambda>g. g) \<rparr>"



theorem log_file_round_trip_witness:
  "\<exists>p. parser_open [(patch (\<lambda>_. 0) 0 (put_record (1, True, [5]) @ put_record (2, False, [6, 7])), 64)] = Inr p \<and>
     get_insert_wal p 2 = Inr [6, 7] \<and> update_wal_list p = [(1, [5])] \<and> last_ts p = 2"
proof -
  let ?rs = "[(1, True, [5]), (2, False, [6, 7])] :: log_record list" let ?b = "concat (map put_record ?rs)"
  let ?w = "\<lparr> opened = True, poisoned = False, fd = True, file_size = 64, file_used = length ?b,
      content = patch (\<lambda>_. 0) 0 ?b \<rparr>"
  have l: "length ?b = 19" by (simp add: put_record_def)
  have "slice (patch (\<lambda>_. 0) 0 ?b) (length ?b) header_size = replicate header_size 0"
    by (rule nth_equalityI) (simp_all add: slice_def patch_def)
  then have "writer_inv ?w" by (simp only: writer_inv_def LocalWalWriter.select_convs l) simp
  moreover have "log_bytes ?w = ?b"
    by (simp only: log_bytes_def LocalWalWriter.select_convs slice_patch_same)
  ultimately show ?thesis
    using log_file_round_trip [of ?w ?rs] by (simp add: wf_record_def file_updates_def flip: numeral_2_eq_2)
qed

end
