(* ===== verification/Vertex_Timestamp.thy ===== *)
theory Vertex_Timestamp
  imports Archive
begin

text \<open>
  \<open>VertexTimestamp\<close> (\<open>include/neug/storages/graph/vertex_timestamp.h\<close>,
  \<open>src/storages/graph/vertex_timestamp.cc\<close>): since when each vertex of a label exists. Vertices
  below \<open>init_vertex_num\<close> are the compacted prefix, present since timestamp zero unless listed
  in \<open>removed_vertices\<close>; the others have an entry in an array. The abstract view is a partial
  map from vertices to timestamps, which every operation refines.
\<close>

section \<open>State\<close>

definition DELETED_TIMESTAMP :: nat where "DELETED_TIMESTAMP = u32_max"

record VertexTimestamp =
  init_vertex_num :: nat
  max_vertex_num :: nat
  inserted_vertices :: "nat list option"
  removed_vertices :: "nat set option"

definition vt_new :: VertexTimestamp where
  "vt_new = \<lparr> init_vertex_num = 0, max_vertex_num = 0, inserted_vertices = None, removed_vertices = None \<rparr>"

text \<open>Reading an entry: the array must be there and long enough.\<close>

definition entry :: "VertexTimestamp \<Rightarrow> nat \<Rightarrow> nat res" where
  "entry s i = (case inserted_vertices s of
     None \<Rightarrow> Inl UndefinedBehaviour
   | Some xs \<Rightarrow> if i < length xs then Inr (xs ! i) else Inl UndefinedBehaviour)"

definition set_entry :: "nat \<Rightarrow> nat \<Rightarrow> VertexTimestamp \<Rightarrow> VertexTimestamp" where
  "set_entry i t s = s \<lparr> inserted_vertices := map_option (\<lambda>xs. xs[i := t]) (inserted_vertices s) \<rparr>"

definition removed_set :: "VertexTimestamp \<Rightarrow> nat set" where
  "removed_set s = (case removed_vertices s of None \<Rightarrow> {} | Some r \<Rightarrow> r)"

section \<open>Operations\<close>

definition vt_Reset :: "VertexTimestamp \<Rightarrow> VertexTimestamp" where "vt_Reset s = vt_new"

definition vt_Init :: "nat \<Rightarrow> nat \<Rightarrow> VertexTimestamp \<Rightarrow> VertexTimestamp" where
  "vt_Init initn maxn s =
     (if init_vertex_num s = initn \<and> max_vertex_num s = maxn then s
      else let m = max initn maxn; capacity = m - initn in
        \<lparr> init_vertex_num = initn, max_vertex_num = m,
          inserted_vertices = (if capacity > 0 then Some (replicate capacity DELETED_TIMESTAMP) else None),
          removed_vertices = None \<rparr>)"

text \<open>\<open>resize_inserted_vertices\<close> takes the old length from the counters, not from the array.\<close>

definition resize_inserted :: "nat \<Rightarrow> bool \<Rightarrow> VertexTimestamp \<Rightarrow> VertexTimestamp res" where
  "resize_inserted new_size keep_front s = (case inserted_vertices s of
     None \<Rightarrow> Inr (s \<lparr> inserted_vertices := Some (replicate new_size DELETED_TIMESTAMP) \<rparr>)
   | Some xs \<Rightarrow>
       let old = max_vertex_num s - init_vertex_num s; m = min new_size old;
           off = (if keep_front then 0 else old - m) in
       if off + m \<le> length xs
       then Inr (s \<lparr> inserted_vertices := Some (take m (drop off xs) @ replicate (new_size - m) DELETED_TIMESTAMP) \<rparr>)
       else Inl UndefinedBehaviour)"

definition vt_Reserve :: "nat \<Rightarrow> VertexTimestamp \<Rightarrow> VertexTimestamp res" where
  "vt_Reserve new_size s =
     (if max_vertex_num s \<ge> new_size \<and> new_size > init_vertex_num s then Inr s
      else if new_size \<le> init_vertex_num s then
        Inr (s \<lparr> inserted_vertices := None, max_vertex_num := new_size, init_vertex_num := new_size,
                removed_vertices := map_option (Set.filter (\<lambda>v. v < new_size)) (removed_vertices s) \<rparr>)
      else res_bind (resize_inserted (new_size - init_vertex_num s) True s)
             (\<lambda>s'. Inr (s' \<lparr> max_vertex_num := new_size \<rparr>)))"

definition materialize :: "nat \<Rightarrow> VertexTimestamp \<Rightarrow> VertexTimestamp res" where
  "materialize v s =
     (let old_init = init_vertex_num s; old_n = max_vertex_num s - old_init;
          xs = (case inserted_vertices s of None \<Rightarrow> [] | Some xs \<Rightarrow> xs) in
      if old_n \<le> length xs
      then Inr (s \<lparr> inserted_vertices :=
               Some (map (\<lambda>i. if v + i \<in> removed_set s then DELETED_TIMESTAMP else 0) [0..<old_init - v] @ take old_n xs),
             init_vertex_num := v,
             removed_vertices := map_option (Set.filter (\<lambda>x. x < v)) (removed_vertices s) \<rparr>)
      else Inl UndefinedBehaviour)"

text \<open>A weak compare-and-exchange may fail spuriously. An exception keeps the changes made before it.\<close>

definition InsertVertex :: "bool \<Rightarrow> nat \<Rightarrow> nat \<Rightarrow> VertexTimestamp \<Rightarrow> (neug_error option \<times> VertexTimestamp) res" where
  "InsertVertex spurious v ts s =
     (if v < init_vertex_num s \<and> ts = 0
      then Inr (None, s \<lparr> removed_vertices := map_option (\<lambda>r. r - {v}) (removed_vertices s) \<rparr>)
      else res_bind (if v < init_vertex_num s then materialize v s else Inr s) (\<lambda>s1.
        res_bind (entry s1 (v - init_vertex_num s1)) (\<lambda>t.
          if t = DELETED_TIMESTAMP \<and> \<not> spurious then Inr (None, set_entry (v - init_vertex_num s1) ts s1)
          else Inr (Some InternalException, s1))))"

definition IsVertexValid :: "nat \<Rightarrow> nat \<Rightarrow> VertexTimestamp \<Rightarrow> bool res" where
  "IsVertexValid v ts s =
     (if v \<ge> max_vertex_num s then Inr False
      else if v \<ge> init_vertex_num s then
        res_bind (entry s (v - init_vertex_num s)) (\<lambda>t. Inr (t \<noteq> DELETED_TIMESTAMP \<and> t \<le> ts))
      else Inr (v \<notin> removed_set s))"

definition IsRemoved :: "nat \<Rightarrow> VertexTimestamp \<Rightarrow> bool res" where
  "IsRemoved v s =
     (if v \<ge> max_vertex_num s then Inr False
      else if v \<ge> init_vertex_num s then res_bind (entry s (v - init_vertex_num s)) (\<lambda>t. Inr (t = DELETED_TIMESTAMP))
      else Inr (v \<in> removed_set s))"

definition ValidVertexNum :: "nat \<Rightarrow> nat \<Rightarrow> VertexTimestamp \<Rightarrow> nat res" where
  "ValidVertexNum ts limit s =
     (let lim = min limit (max_vertex_num s);
          base = min (init_vertex_num s) lim - card (Set.filter (\<lambda>v. v < lim) (removed_set s)) in
      if lim \<le> init_vertex_num s then Inr base
      else case inserted_vertices s of
        None \<Rightarrow> Inl UndefinedBehaviour
      | Some xs \<Rightarrow>
          if lim - init_vertex_num s \<le> length xs
          then Inr (base + length (filter (\<lambda>t. t \<noteq> DELETED_TIMESTAMP \<and> t \<le> ts) (take (lim - init_vertex_num s) xs)))
          else Inl UndefinedBehaviour)"

definition RemoveVertex :: "nat \<Rightarrow> VertexTimestamp \<Rightarrow> (nat \<times> VertexTimestamp) res" where
  "RemoveVertex v s =
     (if v \<ge> max_vertex_num s then Inl InvalidArgument
      else if v \<ge> init_vertex_num s then
        res_bind (entry s (v - init_vertex_num s)) (\<lambda>t.
          if t = DELETED_TIMESTAMP then Inl InvalidArgument
          else Inr (t, set_entry (v - init_vertex_num s) DELETED_TIMESTAMP s))
      else Inr (0, s \<lparr> removed_vertices := Some (insert v (removed_set s)) \<rparr>))"

definition RevertRemoveVertex :: "nat \<Rightarrow> nat \<Rightarrow> VertexTimestamp \<Rightarrow> VertexTimestamp res" where
  "RevertRemoveVertex v old_ts s =
     (if v \<ge> init_vertex_num s then
        res_bind (entry s (v - init_vertex_num s)) (\<lambda>_. Inr (set_entry (v - init_vertex_num s) old_ts s))
      else case removed_vertices s of
        None \<Rightarrow> Inl InternalException
      | Some r \<Rightarrow> Inr (s \<lparr> removed_vertices := Some (r - {v}) \<rparr>))"

definition ResetTimestamps :: "VertexTimestamp \<Rightarrow> VertexTimestamp" where
  "ResetTimestamps s = s \<lparr> inserted_vertices :=
     map_option (map (\<lambda>t. if t \<noteq> DELETED_TIMESTAMP then 0 else t)) (inserted_vertices s) \<rparr>"

definition vt_Compact :: "VertexTimestamp \<Rightarrow> VertexTimestamp res" where
  "vt_Compact s0 = (let s = ResetTimestamps s0 in case inserted_vertices s of
     None \<Rightarrow> Inr s
   | Some xs \<Rightarrow>
       let num = max_vertex_num s - init_vertex_num s; first = length (takeWhile (\<lambda>t. t = 0) (take num xs)) in
       if first > 0 then
         res_bind (resize_inserted (num - first) False s)
           (\<lambda>s'. Inr (s' \<lparr> init_vertex_num := init_vertex_num s' + first \<rparr>))
       else Inr s)"

definition foreach_vertex :: "nat \<Rightarrow> nat \<Rightarrow> VertexTimestamp \<Rightarrow> nat list" where
  "foreach_vertex vnum ts s =
     (let limit = min vnum (max_vertex_num s); xs = (case inserted_vertices s of None \<Rightarrow> [] | Some xs \<Rightarrow> xs) in
      filter (\<lambda>i. i \<notin> removed_set s) [0..<init_vertex_num s] @
      (if limit \<le> init_vertex_num s then []
       else map (\<lambda>i. i + init_vertex_num s)
              (filter (\<lambda>i. xs ! i \<noteq> DELETED_TIMESTAMP \<and> xs ! i \<le> ts) [0..<limit - init_vertex_num s])))"

section \<open>The file\<close>

definition put_vid :: "nat \<Rightarrow> written" where "put_vid v = put_u32 (of_nat v)"
definition get_vid :: "nat reader" where "get_vid = rbind get_u32 (\<lambda>w. rret (unat w))"

definition dump_ts :: "VertexTimestamp \<Rightarrow> bytes" where
  "dump_ts s = fst (wcat [put_vid (init_vertex_num s), put_vid (max_vertex_num s),
     put_vector32 put_vid (sorted_list_of_set (removed_set s)),
     put_vector32 put_vid (case inserted_vertices s of None \<Rightarrow> [] | Some xs \<Rightarrow> xs)])"

text \<open>\<open>load_ts\<close> into the object \<open>s\<close>: the counters are read into the members before \<open>Init\<close> is called
  with them.\<close>

definition load_fields :: "(nat \<times> nat \<times> nat list \<times> nat list) reader" where
  "load_fields = rbind get_vid (\<lambda>i. rbind get_vid (\<lambda>m. rbind (get_vector32 get_vid) (\<lambda>removed.
     rbind (get_vector32 get_vid) (\<lambda>vec. rret (i, m, removed, vec)))))"

definition load_buffer :: "bytes \<Rightarrow> VertexTimestamp \<Rightarrow> VertexTimestamp res" where
  "load_buffer bs s = res_bind (load_fields bs) (\<lambda>((i, m, removed, vec), rest).
     let s1 = vt_Init i m (s \<lparr> init_vertex_num := i, max_vertex_num := m \<rparr>);
         s2 = (if removed = [] then s1
               else s1 \<lparr> removed_vertices := Some (removed_set s1 \<union> set removed) \<rparr>) in
     res_bind (resize_inserted (length vec) True s2) (\<lambda>s3. Inr (s3 \<lparr> inserted_vertices := Some vec \<rparr>)))"

text \<open>A file that does not exist resets the object; \<open>Open\<close> asks for the file first.\<close>

definition load_ts :: "bytes option \<Rightarrow> VertexTimestamp \<Rightarrow> VertexTimestamp res" where
  "load_ts file s = (case file of None \<Rightarrow> Inr (vt_Reset s) | Some bs \<Rightarrow> load_buffer bs s)"

definition vt_Open :: "bytes option \<Rightarrow> VertexTimestamp \<Rightarrow> VertexTimestamp res" where
  "vt_Open file s = (case file of None \<Rightarrow> Inr (vt_Init 0 4096 s) | Some bs \<Rightarrow> load_ts file s)"

section \<open>The abstract view\<close>

definition vt_inv :: "VertexTimestamp \<Rightarrow> bool" where
  "vt_inv s \<longleftrightarrow> init_vertex_num s \<le> max_vertex_num s \<and>
     (case inserted_vertices s of None \<Rightarrow> max_vertex_num s = init_vertex_num s
      | Some xs \<Rightarrow> length xs = max_vertex_num s - init_vertex_num s) \<and>
     removed_set s \<subseteq> {..<init_vertex_num s}"

definition live :: "nat \<Rightarrow> nat option" where
  "live t = (if t = DELETED_TIMESTAMP then None else Some t)"

definition since :: "VertexTimestamp \<Rightarrow> nat \<Rightarrow> nat option" where
  "since s v =
     (if v \<ge> max_vertex_num s then None
      else if v \<ge> init_vertex_num s then live ((case inserted_vertices s of None \<Rightarrow> [] | Some xs \<Rightarrow> xs) ! (v - init_vertex_num s))
      else if v \<in> removed_set s then None else Some 0)"

lemma live_simps [simp]: "live DELETED_TIMESTAMP = None" "t \<noteq> DELETED_TIMESTAMP \<Longrightarrow> live t = Some t"
  "live t = None \<longleftrightarrow> t = DELETED_TIMESTAMP" "0 \<noteq> DELETED_TIMESTAMP" "live 0 = Some 0"
  by (auto simp: live_def DELETED_TIMESTAMP_def)

lemma vt_inv_cases:
  assumes "vt_inv s"
  obtains (None) "inserted_vertices s = None" "max_vertex_num s = init_vertex_num s"
  | (Some) xs where "inserted_vertices s = Some xs" "length xs = max_vertex_num s - init_vertex_num s"
      "init_vertex_num s \<le> max_vertex_num s"
  using assms by (cases "inserted_vertices s") (auto simp: vt_inv_def)

lemma array_present:
  "vt_inv s \<Longrightarrow> init_vertex_num s < max_vertex_num s \<Longrightarrow>
     \<exists>xs. inserted_vertices s = Some xs \<and> length xs = max_vertex_num s - init_vertex_num s"
  by (cases "inserted_vertices s") (auto simp: vt_inv_def)

lemma removed_bound: "vt_inv s \<Longrightarrow> v \<in> removed_set s \<Longrightarrow> v < init_vertex_num s"
  by (auto simp: vt_inv_def)

lemma entry_ok:
  assumes "vt_inv s" "init_vertex_num s \<le> v" "v < max_vertex_num s"
  shows "\<exists>xs. inserted_vertices s = Some xs \<and> length xs = max_vertex_num s - init_vertex_num s \<and>
    entry s (v - init_vertex_num s) = Inr (xs ! (v - init_vertex_num s)) \<and>
    since s v = live (xs ! (v - init_vertex_num s))"
  using assms(1)
  by (cases rule: vt_inv_cases) (use assms in \<open>auto simp: entry_def since_def\<close>)


section \<open>Refinement\<close>

lemma set_entry_since:
  assumes "vt_inv s" "init_vertex_num s \<le> v" "v < max_vertex_num s"
  shows "vt_inv (set_entry (v - init_vertex_num s) t s)"
    "since (set_entry (v - init_vertex_num s) t s) = (since s)(v := live t)"
proof -
  obtain xs where x: "inserted_vertices s = Some xs" "length xs = max_vertex_num s - init_vertex_num s"
    using entry_ok [OF assms] by blast
  show "vt_inv (set_entry (v - init_vertex_num s) t s)"
    using assms x by (auto simp: vt_inv_def set_entry_def removed_set_def)
  show "since (set_entry (v - init_vertex_num s) t s) = (since s)(v := live t)"
    using assms x by (auto simp: since_def set_entry_def removed_set_def fun_eq_iff nth_list_update)
qed

lemma since_removed:
  assumes "vt_inv s"
  shows "since (s \<lparr> removed_vertices := R \<rparr>) v =
    (if v < init_vertex_num s then if v \<in> (case R of None \<Rightarrow> {} | Some r \<Rightarrow> r) then None else Some 0 else since s v)"
  using assms by (auto simp: since_def removed_set_def vt_inv_def)

lemma inv_removed:
  assumes "vt_inv s" "(case R of None \<Rightarrow> {} | Some r \<Rightarrow> r) \<subseteq> {..<init_vertex_num s}"
  shows "vt_inv (s \<lparr> removed_vertices := R \<rparr>)"
  using assms by (cases "inserted_vertices s") (simp_all add: vt_inv_def removed_set_def)

lemma since_prefix:
  "vt_inv s \<Longrightarrow> v < init_vertex_num s \<Longrightarrow> since s v = (if v \<in> removed_set s then None else Some 0)"
  by (auto simp: since_def vt_inv_def)

lemma resize_front:
  assumes "vt_inv s" "init_vertex_num s < n" "max_vertex_num s \<le> n"
  shows "\<exists>s'. resize_inserted (n - init_vertex_num s) True s = Inr s' \<and>
    vt_inv (s' \<lparr> max_vertex_num := n \<rparr>) \<and> since (s' \<lparr> max_vertex_num := n \<rparr>) = since s"
  using assms(1)
proof (cases rule: vt_inv_cases)
  case None
  then show ?thesis using assms
    by (auto simp: resize_inserted_def vt_inv_def since_def removed_set_def fun_eq_iff)
next
  case (Some xs)
  then show ?thesis using assms
    by (auto simp: resize_inserted_def vt_inv_def since_def removed_set_def fun_eq_iff Let_def nth_append min_def)
qed

lemma vt_Reserve_refines:
  assumes "vt_inv s"
  shows "\<exists>s'. vt_Reserve n s = Inr s' \<and> vt_inv s' \<and>
    since s' = (if n \<le> init_vertex_num s then (\<lambda>v. if v < n then since s v else None) else since s) \<and>
    (n \<le> init_vertex_num s \<or> n \<le> max_vertex_num s') "
proof (cases "max_vertex_num s \<ge> n \<and> n > init_vertex_num s")
  case True
  then show ?thesis using assms by (simp add: vt_Reserve_def)
next
  case F: False
  show ?thesis
  proof (cases "n \<le> init_vertex_num s")
    case True
    then show ?thesis using assms F
      by (auto simp: vt_Reserve_def vt_inv_def since_def removed_set_def fun_eq_iff split: option.splits)
  next
    case False
    then obtain s' where "resize_inserted (n - init_vertex_num s) True s = Inr s'"
      "vt_inv (s' \<lparr> max_vertex_num := n \<rparr>)" "since (s' \<lparr> max_vertex_num := n \<rparr>) = since s"
      using resize_front [OF assms, of n] F by auto
    then show ?thesis using False F by (simp add: vt_Reserve_def)
  qed
qed

lemma materialize_refines:
  assumes "vt_inv s" "v < init_vertex_num s"
  shows "\<exists>s'. materialize v s = Inr s' \<and> vt_inv s' \<and> since s' = since s \<and>
    init_vertex_num s' = v \<and> max_vertex_num s' = max_vertex_num s"
proof -
  let ?xs = "case inserted_vertices s of None \<Rightarrow> [] | Some xs \<Rightarrow> xs"
  have l: "length ?xs = max_vertex_num s - init_vertex_num s" "init_vertex_num s \<le> max_vertex_num s"
    using assms(1) by (auto simp: vt_inv_def split: option.splits)
  have r: "removed_set s \<subseteq> {..<init_vertex_num s}" using assms(1) by (simp add: vt_inv_def)
  let ?ys = "map (\<lambda>i. if v + i \<in> removed_set s then DELETED_TIMESTAMP else 0) [0..<init_vertex_num s - v] @ ?xs"
  let ?s = "s \<lparr> inserted_vertices := Some ?ys, init_vertex_num := v,
      removed_vertices := map_option (Set.filter (\<lambda>x. x < v)) (removed_vertices s) \<rparr>"
  have m: "materialize v s = Inr ?s" using l(1) by (simp add: materialize_def Let_def)
  have rs: "removed_set ?s = {x \<in> removed_set s. x < v}" by (auto simp: removed_set_def split: option.splits)
  have sel: "inserted_vertices ?s = Some ?ys" "init_vertex_num ?s = v" "max_vertex_num ?s = max_vertex_num s" by simp_all
  have "since ?s x = since s x" for x
  proof (cases "max_vertex_num s \<le> x")
    case True then show ?thesis by (simp add: since_def)
  next
    case x: False
    show ?thesis
    proof (cases "x < v")
      case True
      then have "x < init_vertex_num s" using assms(2) by simp
      then show ?thesis using True x unfolding since_def sel rs by simp
    next
      case False
      have y: "?ys ! (x - v) = (if x < init_vertex_num s then if x \<in> removed_set s then DELETED_TIMESTAMP else 0
          else ?xs ! (x - init_vertex_num s))"
        using False assms(2) by (auto simp: nth_append)
      show ?thesis using False x unfolding since_def sel option.case y by auto
    qed
  qed
  moreover have "vt_inv ?s" unfolding vt_inv_def sel rs using assms(2) l by auto
  ultimately show ?thesis using m sel by (auto simp: fun_eq_iff simp del: length_append)
qed

lemma InsertVertex_refines:
  assumes "vt_inv s" "v < max_vertex_num s" "ts < DELETED_TIMESTAMP"
  shows "\<exists>r s'. InsertVertex sp v ts s = Inr (r, s') \<and> vt_inv s' \<and> max_vertex_num s' = max_vertex_num s \<and>
    (r = None \<and> since s' = (since s)(v := Some ts) \<and>
       (since s v = None \<or> (v < init_vertex_num s \<and> ts = 0 \<and> since s v = Some 0)) \<or>
     r = Some InternalException \<and> since s' = since s \<and> (since s v \<noteq> None \<or> sp))"
proof (cases "v < init_vertex_num s \<and> ts = 0")
  case True
  let ?R = "map_option (\<lambda>r. r - {v}) (removed_vertices s)"
  have c: "(case ?R of None \<Rightarrow> {} | Some r \<Rightarrow> r) = removed_set s - {v}"
    by (auto simp: removed_set_def split: option.splits)
  have "vt_inv (s \<lparr> removed_vertices := ?R \<rparr>)"
    using inv_removed [OF assms(1), of ?R] c assms(1) by (auto simp: vt_inv_def)
  moreover have "since (s \<lparr> removed_vertices := ?R \<rparr>) = (since s)(v := Some 0)"
    using since_removed [OF assms(1), of ?R] since_prefix [OF assms(1)] c True by (auto simp: fun_eq_iff)
  moreover have "since s v = None \<or> since s v = Some 0" using since_prefix [OF assms(1)] True by auto
  ultimately show ?thesis using True by (simp add: InsertVertex_def)
next
  case F: False
  define m where "m = (if v < init_vertex_num s then materialize v s else Inr s)"
  obtain s1 where s1: "m = Inr s1" "vt_inv s1" "since s1 = since s" "init_vertex_num s1 \<le> v"
      "max_vertex_num s1 = max_vertex_num s"
    using materialize_refines [OF assms(1), of v] assms(1) unfolding m_def by (cases "v < init_vertex_num s") auto
  obtain xs where e: "entry s1 (v - init_vertex_num s1) = Inr (xs ! (v - init_vertex_num s1))"
      "since s1 v = live (xs ! (v - init_vertex_num s1))"
    using entry_ok [OF s1(2,4)] assms(2) s1(5) by auto
  have u: "vt_inv (set_entry (v - init_vertex_num s1) ts s1)"
    "since (set_entry (v - init_vertex_num s1) ts s1) = (since s1)(v := Some ts)"
    using set_entry_since [OF s1(2,4), of ts] assms(2,3) s1(5) by auto
  have i: "InsertVertex sp v ts s = res_bind m (\<lambda>s1. res_bind (entry s1 (v - init_vertex_num s1)) (\<lambda>t.
      if t = DELETED_TIMESTAMP \<and> \<not> sp then Inr (None, set_entry (v - init_vertex_num s1) ts s1)
      else Inr (Some InternalException, s1)))"
    using F by (cases "v < init_vertex_num s") (simp_all add: InsertVertex_def m_def)
  have n: "max_vertex_num (set_entry k ts s1) = max_vertex_num s1" for k by (simp add: set_entry_def)
  show ?thesis using e u s1 n unfolding i by (auto simp: live_def split: if_splits)
qed

lemma RemoveVertex_refines:
  assumes "vt_inv s"
  shows "case RemoveVertex v s of
      Inr (old, s') \<Rightarrow> v < max_vertex_num s \<and> vt_inv s' \<and> since s' = (since s)(v := None) \<and>
        max_vertex_num s' = max_vertex_num s \<and> init_vertex_num s' = init_vertex_num s \<and>
        (since s v = Some old \<or> v < init_vertex_num s \<and> since s v = None \<and> old = 0)
    | Inl e \<Rightarrow> e = InvalidArgument \<and> since s v = None"
proof (cases "init_vertex_num s \<le> v \<and> v < max_vertex_num s")
  case True
  obtain xs where e: "entry s (v - init_vertex_num s) = Inr (xs ! (v - init_vertex_num s))"
      "since s v = live (xs ! (v - init_vertex_num s))"
    using entry_ok [OF assms] True by auto
  have "max_vertex_num (set_entry k t s) = max_vertex_num s" "init_vertex_num (set_entry k t s) = init_vertex_num s" for k t
    by (simp_all add: set_entry_def)
  then show ?thesis using e set_entry_since [OF assms, of v DELETED_TIMESTAMP] True
    by (auto simp: RemoveVertex_def live_def)
next
  case False
  let ?R = "Some (insert v (removed_set s))"
  show ?thesis
  proof (cases "v < max_vertex_num s")
    case True
    then have v: "v < init_vertex_num s" using False by simp
    have "vt_inv (s \<lparr> removed_vertices := ?R \<rparr>)" using inv_removed [OF assms, of ?R] v assms by (auto simp: vt_inv_def)
    moreover have "since (s \<lparr> removed_vertices := ?R \<rparr>) = (since s)(v := None)"
      using since_removed [OF assms, of ?R] since_prefix [OF assms] v by (auto simp: fun_eq_iff)
    ultimately show ?thesis using since_prefix [OF assms v] v True by (simp add: RemoveVertex_def)
  qed (simp add: RemoveVertex_def since_def)
qed

lemma RevertRemoveVertex_refines:
  assumes "vt_inv s" "v < max_vertex_num s" "old < DELETED_TIMESTAMP"
    "v < init_vertex_num s \<longrightarrow> removed_vertices s \<noteq> None \<and> old = 0"
  shows "\<exists>s'. RevertRemoveVertex v old s = Inr s' \<and> vt_inv s' \<and> since s' = (since s)(v := Some old)"
proof (cases "init_vertex_num s \<le> v")
  case True
  then show ?thesis using entry_ok [OF assms(1) True assms(2)] set_entry_since [OF assms(1) True assms(2), of old] assms(3)
    by (auto simp: RevertRemoveVertex_def)
next
  case False
  then obtain r where r: "removed_vertices s = Some r" "old = 0" using assms(4) by auto
  have "r \<subseteq> {..<init_vertex_num s}" using assms(1) r by (simp add: vt_inv_def removed_set_def)
  then have "vt_inv (s \<lparr> removed_vertices := Some (r - {v}) \<rparr>)" using inv_removed [OF assms(1), of "Some (r - {v})"] by auto
  moreover have "since (s \<lparr> removed_vertices := Some (r - {v}) \<rparr>) = (since s)(v := Some 0)"
    using since_removed [OF assms(1), of "Some (r - {v})"] since_prefix [OF assms(1)] r False
    by (auto simp: fun_eq_iff removed_set_def)
  ultimately show ?thesis using False r by (simp add: RevertRemoveVertex_def)
qed


section \<open>Visibility\<close>

text \<open>What a reader needs of a store of creation timestamps.\<close>

locale visibility =
  fixes since_of :: "'s \<Rightarrow> nat \<Rightarrow> nat option" and valid :: "'s \<Rightarrow> nat \<Rightarrow> nat \<Rightarrow> bool" and ok :: "'s \<Rightarrow> bool"
  assumes valid_iff: "ok s \<Longrightarrow> valid s v ts \<longleftrightarrow> (\<exists>t. since_of s v = Some t \<and> t \<le> ts)"
begin

lemma valid_mono: "ok s \<Longrightarrow> valid s v ts \<Longrightarrow> ts \<le> ts' \<Longrightarrow> valid s v ts'"
  by (auto simp: valid_iff)

lemma later_insert_invisible:
  assumes "ok s" "ok s'" "since_of s' = (since_of s)(w := Some t)" "since_of s w = None" "ts < t"
  shows "valid s' v ts = valid s v ts"
  using assms by (auto simp: valid_iff)

lemma compaction_invisible:
  assumes "ok s" "ok s'" "since_of s' = map_option (\<lambda>_. 0) \<circ> since_of s" "\<And>w t. since_of s w = Some t \<Longrightarrow> t \<le> ts"
  shows "valid s' v ts = valid s v ts"
  using assms by (auto simp: valid_iff)

end

lemma IsVertexValid_since:
  assumes "vt_inv s"
  shows "IsVertexValid v ts s = Inr (\<exists>t. since s v = Some t \<and> t \<le> ts)"
proof (cases "init_vertex_num s \<le> v \<and> v < max_vertex_num s")
  case True
  then obtain xs where "entry s (v - init_vertex_num s) = Inr (xs ! (v - init_vertex_num s))"
      "since s v = live (xs ! (v - init_vertex_num s))"
    using entry_ok [OF assms] by auto
  then show ?thesis using True by (auto simp: IsVertexValid_def live_def)
next
  case False
  then show ?thesis using since_prefix [OF assms, of v] by (auto simp: IsVertexValid_def since_def)
qed

interpretation vt: visibility since "\<lambda>s v ts. IsVertexValid v ts s = Inr True" vt_inv
  by unfold_locales (simp add: IsVertexValid_since)

section \<open>Compaction\<close>

lemma ResetTimestamps_refines:
  assumes "vt_inv s"
  shows "vt_inv (ResetTimestamps s)" "since (ResetTimestamps s) = map_option (\<lambda>_. 0) \<circ> since s"
    "init_vertex_num (ResetTimestamps s) = init_vertex_num s" "max_vertex_num (ResetTimestamps s) = max_vertex_num s"
    "removed_vertices (ResetTimestamps s) = removed_vertices s"
  using assms
  by (cases rule: vt_inv_cases; auto simp: ResetTimestamps_def vt_inv_def since_def removed_set_def fun_eq_iff live_def)+

lemma vt_Compact_refines:
  assumes "vt_inv s"
  shows "\<exists>s'. vt_Compact s = Inr s' \<and> vt_inv s' \<and> since s' = map_option (\<lambda>_. 0) \<circ> since s \<and>
    init_vertex_num s \<le> init_vertex_num s' \<and>
    (init_vertex_num s' < max_vertex_num s' \<longrightarrow> since s' (init_vertex_num s') \<noteq> Some 0)"
proof -
  let ?t = "ResetTimestamps s"
  note R = ResetTimestamps_refines [OF assms]
  show ?thesis using R(1)
  proof (cases rule: vt_inv_cases)
    case None
    then show ?thesis using R by (simp add: vt_Compact_def Let_def)
  next
    case (Some xs)
    let ?n = "max_vertex_num ?t - init_vertex_num ?t" let ?f = "length (takeWhile (\<lambda>t. t = 0) xs)"
    have f: "?f \<le> length xs" by (rule length_takeWhile_le)
    have zero: "xs ! i = 0" if "i < ?f" for i
      using nth_mem [of i "takeWhile (\<lambda>t. t = 0) xs"] that set_takeWhileD takeWhile_nth by metis
    have stop: "xs ! ?f \<noteq> 0" if "?f < length xs" using nth_length_takeWhile [OF that] by simp
    let ?s = "?t \<lparr> inserted_vertices := Some (drop ?f xs), init_vertex_num := init_vertex_num ?t + ?f \<rparr>"
    have c: "vt_Compact s = Inr (if 0 < ?f then ?s else ?t)"
      using Some f by (auto simp: vt_Compact_def Let_def resize_inserted_def min_def)
    have e: "(if 0 < ?f then ?s else ?t) = ?s"
      using Some by auto
    have rm: "removed_set ?s = removed_set ?t" by (simp add: removed_set_def)
    have inv: "vt_inv ?s" using R(1) Some f unfolding vt_inv_def rm by auto
    have "since ?s v = since ?t v" for v
    proof (cases "init_vertex_num ?t \<le> v \<and> v < init_vertex_num ?t + ?f")
      case True
      then have "v \<notin> removed_set ?t" using removed_bound [OF R(1), of v] by auto
      moreover have "v - init_vertex_num ?t < ?f" using True by auto
      ultimately show ?thesis using True Some f zero by (simp add: since_def rm)
    next
      case False
      then show ?thesis using Some f by (auto simp: since_def rm)
    qed
    then have "since ?s = map_option (\<lambda>_. 0) \<circ> since s" using R(2) by (auto simp: fun_eq_iff)
    moreover have "since ?s (init_vertex_num ?s) \<noteq> Some 0" if "init_vertex_num ?s < max_vertex_num ?s"
      using that Some stop by (auto simp: since_def live_def)
    ultimately show ?thesis using c e inv R(3) by auto
  qed
qed


section \<open>Counting and enumerating\<close>

abbreviation valid_at :: "VertexTimestamp \<Rightarrow> nat \<Rightarrow> nat \<Rightarrow> bool" where
  "valid_at s ts v \<equiv> \<exists>t. since s v = Some t \<and> t \<le> ts"

lemma filter_shift: "map (\<lambda>i. i + k) (filter P [0..<n]) = filter (\<lambda>v. P (v - k)) [k..<k + n]"
  by (induction n) auto

lemma upt_split3: "a \<le> b \<Longrightarrow> b \<le> c \<Longrightarrow> [a..<c] = [a..<b] @ [b..<c]"
  using upt_add_eq_append [of a b "c - b"] by simp

lemma valid_prefix:
  assumes "vt_inv s"
  shows "filter (valid_at s ts) [0..<init_vertex_num s] = filter (\<lambda>i. i \<notin> removed_set s) [0..<init_vertex_num s]"
  by (rule filter_cong) (use since_prefix [OF assms] in auto)

lemma valid_suffix:
  assumes "vt_inv s" "init_vertex_num s \<le> lim" "lim \<le> max_vertex_num s" "inserted_vertices s = Some xs"
  shows "filter (valid_at s ts) [init_vertex_num s..<lim] =
    filter (\<lambda>v. xs ! (v - init_vertex_num s) \<noteq> DELETED_TIMESTAMP \<and> xs ! (v - init_vertex_num s) \<le> ts) [init_vertex_num s..<lim]"
  using assms by (intro filter_cong) (auto simp: since_def live_def)

lemma foreach_vertex_valid:
  assumes "vt_inv s" "init_vertex_num s \<le> vnum"
  shows "foreach_vertex vnum ts s = filter (valid_at s ts) [0..<min vnum (max_vertex_num s)]"
proof -
  let ?l = "min vnum (max_vertex_num s)" let ?i = "init_vertex_num s"
  have le: "?i \<le> ?l" using assms by (auto simp: vt_inv_def)
  have p: "filter (valid_at s ts) [0..<?l] =
      filter (\<lambda>i. i \<notin> removed_set s) [0..<?i] @ filter (valid_at s ts) [?i..<?l]"
    using upt_split3 [of 0 ?i ?l] le valid_prefix [OF assms(1)] by simp
  show ?thesis
  proof (cases "?l \<le> ?i")
    case True
    then show ?thesis using p le by (simp add: foreach_vertex_def Let_def)
  next
    case False
    then have "init_vertex_num s < max_vertex_num s" by simp
    then obtain xs where x: "inserted_vertices s = Some xs" using array_present [OF assms(1)] by blast
    have "map (\<lambda>i. i + ?i) (filter (\<lambda>i. xs ! i \<noteq> DELETED_TIMESTAMP \<and> xs ! i \<le> ts) [0..<?l - ?i]) =
        filter (valid_at s ts) [?i..<?l]"
      unfolding filter_shift valid_suffix [OF assms(1) le min.cobounded2 x] using le by simp
    then show ?thesis using p x False by (simp add: foreach_vertex_def Let_def)
  qed
qed

lemma length_filter_take:
  "n \<le> length xs \<Longrightarrow> length (filter P (take n xs)) = length (filter (\<lambda>i. P (xs ! i)) [0..<n])"
proof (induction n)
  case (Suc n)
  then show ?case by (simp add: take_Suc_conv_app_nth)
qed simp

lemma card_not_removed:
  "r \<subseteq> {..<n} \<Longrightarrow> m \<le> n \<Longrightarrow> length (filter (\<lambda>i. i \<notin> r) [0..<m]) = m - card (Set.filter (\<lambda>v. v < m) r)"
proof -
  assume r: "r \<subseteq> {..<n}" "m \<le> n"
  have "length (filter (\<lambda>i. i \<notin> r) [0..<m]) = card ({0..<m} - Set.filter (\<lambda>v. v < m) r)"
    by (subst distinct_card [symmetric]) (auto intro!: arg_cong [of _ _ card])
  also have "\<dots> = m - card (Set.filter (\<lambda>v. v < m) r)"
    by (subst card_Diff_subset) (auto intro: finite_subset [of _ "{..<m}"])
  finally show ?thesis .
qed

lemma length_valid_suffix:
  assumes "vt_inv s" "init_vertex_num s \<le> l" "l \<le> max_vertex_num s" "inserted_vertices s = Some xs"
  shows "length (filter (valid_at s ts) [init_vertex_num s..<l]) =
    length (filter (\<lambda>t. t \<noteq> DELETED_TIMESTAMP \<and> t \<le> ts) (take (l - init_vertex_num s) xs))"
proof -
  let ?i = "init_vertex_num s"
  have "length xs = max_vertex_num s - ?i" using assms(1,4) by (simp add: vt_inv_def)
  moreover have "length (filter (valid_at s ts) [?i..<l]) =
      length (filter (\<lambda>i. xs ! i \<noteq> DELETED_TIMESTAMP \<and> xs ! i \<le> ts) [0..<l - ?i])"
    using arg_cong [OF filter_shift [of ?i "\<lambda>i. xs ! i \<noteq> DELETED_TIMESTAMP \<and> xs ! i \<le> ts" "l - ?i"], of length] assms(2)
    by (simp add: valid_suffix [OF assms])
  ultimately show ?thesis using assms(3) by (subst length_filter_take) auto
qed

lemma ValidVertexNum_valid:
  assumes "vt_inv s"
  shows "ValidVertexNum ts limit s = Inr (length (filter (valid_at s ts) [0..<min limit (max_vertex_num s)]))"
proof -
  let ?l = "min limit (max_vertex_num s)" let ?i = "init_vertex_num s"
  have r: "removed_set s \<subseteq> {..<?i}" using assms by (simp add: vt_inv_def)
  show ?thesis
  proof (cases "?l \<le> ?i")
    case True
    have "filter (valid_at s ts) [0..<?l] = filter (\<lambda>i. i \<notin> removed_set s) [0..<?l]"
      by (rule filter_cong) (use since_prefix [OF assms] True in auto)
    then show ?thesis using card_not_removed [OF r True] True by (simp add: ValidVertexNum_def Let_def min_absorb2)
  next
    case False
    then have "?i < max_vertex_num s" by simp
    then obtain xs where x: "inserted_vertices s = Some xs" "length xs = max_vertex_num s - ?i"
      using array_present [OF assms] by blast
    have e: "Set.filter (\<lambda>v. v < ?l) (removed_set s) = Set.filter (\<lambda>v. v < ?i) (removed_set s)"
      using r False by auto
    have "[0..<?l] = [0..<?i] @ [?i..<?l]" by (rule upt_split3) (use False in auto)
    then have "length (filter (valid_at s ts) [0..<?l]) =
        length (filter (\<lambda>i. i \<notin> removed_set s) [0..<?i]) + length (filter (valid_at s ts) [?i..<?l])"
      using valid_prefix [OF assms] by simp
    also have "length (filter (valid_at s ts) [?i..<?l]) =
        length (filter (\<lambda>t. t \<noteq> DELETED_TIMESTAMP \<and> t \<le> ts) (take (?l - ?i) xs))"
      by (rule length_valid_suffix [OF assms _ min.cobounded2 x(1)]) (use False in linarith)
    finally have "length (filter (valid_at s ts) [0..<?l]) = ?i - card (Set.filter (\<lambda>v. v < ?i) (removed_set s)) +
        length (filter (\<lambda>t. t \<noteq> DELETED_TIMESTAMP \<and> t \<le> ts) (take (?l - ?i) xs))"
      using card_not_removed [OF r order_refl] by simp
    moreover have "min ?i ?l = ?i" "?l - ?i \<le> length xs" using False x(2) by linarith+
    ultimately show ?thesis using x(1) False e unfolding ValidVertexNum_def Let_def by simp
  qed
qed


section \<open>Files\<close>

definition wf_vid :: "nat \<Rightarrow> bool" where "wf_vid v \<longleftrightarrow> v < 2 ^ 32"

interpretation vid_codec: codec put_vid get_vid wf_vid "\<lambda>v. v"
  by unfold_locales (simp add: put_vid_def get_vid_def wf_vid_def unat_of_nat_32)

lemma put_vid_some: "\<exists>b. put_vid v = (b, None)" by (simp add: put_vid_def put_u32_def)

lemma put_vids_some: "\<exists>b. wcat (map put_vid xs) = (b, None)"
  by (induction xs) (use put_vid_some in auto)

lemma put_vector_vids_some: "\<exists>b. put_vector32 put_vid xs = (b, None)"
  using put_vids_some [of xs] by (auto simp: put_vector32_def put_u32_def)

lemma load_fields_dump:
  assumes "vt_inv s" "max_vertex_num s < 2 ^ 32" "\<forall>xs. inserted_vertices s = Some xs \<longrightarrow> (\<forall>t\<in>set xs. t < 2 ^ 32)"
  shows "load_fields (dump_ts s) = Inr ((init_vertex_num s, max_vertex_num s, sorted_list_of_set (removed_set s),
    (case inserted_vertices s of None \<Rightarrow> [] | Some xs \<Rightarrow> xs)), [])"
proof -
  let ?r = "sorted_list_of_set (removed_set s)" let ?x = "case inserted_vertices s of None \<Rightarrow> [] | Some xs \<Rightarrow> xs"
  have f: "finite (removed_set s)" "removed_set s \<subseteq> {..<init_vertex_num s}"
    using assms(1) by (auto simp: vt_inv_def intro: finite_subset)
  have i: "init_vertex_num s \<le> max_vertex_num s" using assms(1) by (simp add: vt_inv_def)
  have r: "\<forall>v\<in>set ?r. wf_vid v" "length ?r < 2 ^ 32"
    using f i assms(2) card_mono [OF _ f(2)] by (auto simp: wf_vid_def)
  have x: "\<forall>v\<in>set ?x. wf_vid v" "length ?x < 2 ^ 32"
    using assms i by (auto simp: wf_vid_def vt_inv_def split: option.splits)
  obtain b1 b2 b3 b4 where b: "put_vid (init_vertex_num s) = (b1, None)" "put_vid (max_vertex_num s) = (b2, None)"
      "put_vector32 put_vid ?r = (b3, None)" "put_vector32 put_vid ?x = (b4, None)"
    using put_vid_some put_vector_vids_some by metis
  have "dump_ts s = b1 @ b2 @ b3 @ b4" by (simp add: dump_ts_def b)
  moreover have "get_vector32 get_vid (b4 @ []) = Inr (?x, [])" "get_vector32 get_vid (b3 @ b4) = Inr (?r, b4)"
    using vid_codec.get_vector32_put [OF x b(4), of "[]"] vid_codec.get_vector32_put [OF r b(3), of b4] by simp_all
  moreover have "get_vid (b1 @ b2 @ b3 @ b4) = Inr (init_vertex_num s, b2 @ b3 @ b4)"
      "get_vid (b2 @ b3 @ b4) = Inr (max_vertex_num s, b3 @ b4)"
    using vid_codec.dec_enc [OF _ b(1)] vid_codec.dec_enc [OF _ b(2)] assms(2) i by (auto simp: wf_vid_def)
  ultimately show ?thesis by (simp add: load_fields_def)
qed

lemma load_buffer_fresh:
  assumes "vt_inv s" "max_vertex_num s < 2 ^ 32" "\<forall>xs. inserted_vertices s = Some xs \<longrightarrow> (\<forall>t\<in>set xs. t < 2 ^ 32)"
  shows "\<exists>s'. load_buffer (dump_ts s) vt_new = Inr s' \<and> vt_inv s' \<and> since s' = since s \<and>
            init_vertex_num s' = init_vertex_num s \<and> max_vertex_num s' = max_vertex_num s"
proof -
  have f: "finite (removed_set s)" using assms(1) by (auto simp: vt_inv_def intro: finite_subset)
  let ?x = "case inserted_vertices s of None \<Rightarrow> [] | Some xs \<Rightarrow> xs"
  let ?s' = "\<lparr> init_vertex_num = init_vertex_num s, max_vertex_num = max_vertex_num s, inserted_vertices = Some ?x,
      removed_vertices = (if removed_set s = {} then None else Some (removed_set s)) \<rparr>"
  have n: "removed_set \<lparr> init_vertex_num = i, max_vertex_num = m, inserted_vertices = None, removed_vertices = None \<rparr> = {}"
    for i m by (simp add: removed_set_def)
  have "load_buffer (dump_ts s) vt_new = Inr ?s'"
    using f load_fields_dump [OF assms] by (simp add: load_buffer_def vt_Init_def Let_def vt_new_def resize_inserted_def n)
  moreover have rm: "removed_set ?s' = removed_set s" by (simp add: removed_set_def)
  have "vt_inv ?s'" unfolding vt_inv_def rm using assms(1) by (auto simp: vt_inv_def split: option.splits)
  moreover have "since ?s' = since s" unfolding since_def rm by (auto simp: fun_eq_iff)
  ultimately show ?thesis by auto
qed

lemma resize_inserted_removed: "resize_inserted n k s = Inr s' \<Longrightarrow> removed_vertices s' = removed_vertices s"
  by (auto simp: resize_inserted_def Let_def split: option.splits if_splits)

lemma load_buffer_used:
  assumes "vt_inv s" "max_vertex_num s < 2 ^ 32" "\<forall>xs. inserted_vertices s = Some xs \<longrightarrow> (\<forall>t\<in>set xs. t < 2 ^ 32)"
    "load_buffer (dump_ts s) s0 = Inr s'"
  shows "removed_set s' = removed_set s0 \<union> removed_set s"
proof -
  have f: "finite (removed_set s)" using assms(1) by (auto simp: vt_inv_def intro: finite_subset)
  show ?thesis using assms(4) f load_fields_dump [OF assms(1-3)]
    by (auto simp: load_buffer_def vt_Init_def Let_def removed_set_def dest!: resize_inserted_removed split: if_splits)
qed

section \<open>Properties\<close>

text \<open>
  C31. Inserting a vertex refines adding an entry to the map from vertices to timestamps: it
  keeps the invariant and never accesses the array out of range; it succeeds exactly by adding
  the entry, for a vertex that was absent or a baseline vertex inserted again at timestamp
  zero; it throws only when the vertex exists or the weak exchange failed spuriously, and then
  no vertex changed; and no reader below the new timestamp sees a difference.
\<close>
theorem insert_vertex_refines:
  assumes "vt_inv s" "v < max_vertex_num s" "ts < DELETED_TIMESTAMP"
  shows "\<exists>r s'. InsertVertex sp v ts s = Inr (r, s') \<and> vt_inv s' \<and>
    (r = None \<and> since s' = (since s)(v := Some ts) \<and> (since s v = None \<or> ts = 0 \<and> since s v = Some 0) \<or>
     r = Some InternalException \<and> since s' = since s \<and> (since s v \<noteq> None \<or> sp)) \<and>
    (\<forall>w rd. rd < ts \<longrightarrow> (IsVertexValid w rd s' = Inr True) = (IsVertexValid w rd s = Inr True))"
proof -
  obtain r s' where r: "InsertVertex sp v ts s = Inr (r, s')" "vt_inv s'"
    "r = None \<and> since s' = (since s)(v := Some ts) \<and> (since s v = None \<or> ts = 0 \<and> since s v = Some 0) \<or>
     r = Some InternalException \<and> since s' = since s \<and> (since s v \<noteq> None \<or> sp)"
    using InsertVertex_refines [OF assms, of sp] by blast
  have "(IsVertexValid w rd s' = Inr True) = (IsVertexValid w rd s = Inr True)" if "rd < ts" for w rd
  proof (cases "since s' = since s")
    case True then show ?thesis using IsVertexValid_since assms(1) r(2) by simp
  next
    case False
    then have e: "since s' = (since s)(v := Some ts)" "since s v = None"
      using r(3) that by (auto simp: fun_upd_idem)
    show ?thesis by (rule vt.later_insert_invisible [OF assms(1) r(2) e that])
  qed
  then show ?thesis using r by blast
qed

theorem insert_vertex_refines_witness:
  "let s = vt_Init 2 4 vt_new in
     \<exists>s'. InsertVertex False 3 7 s = Inr (None, s') \<and> since s' 3 = Some 7 \<and> since s' 0 = Some 0"
proof -
  let ?s = "vt_Init 2 4 vt_new"
  have i: "vt_inv ?s" "3 < max_vertex_num ?s" "since ?s 3 = None" "since ?s 0 = Some 0"
    by (auto simp: vt_Init_def vt_new_def vt_inv_def since_def removed_set_def Let_def)
  have "7 < DELETED_TIMESTAMP" by (simp add: DELETED_TIMESTAMP_def)
  from insert_vertex_refines [OF i(1,2) this, of False] show ?thesis
    using i(3,4) by (auto simp: Let_def fun_upd_def)
qed

text \<open>
  C32. The count of valid vertices and the enumeration agree with the visibility test: below any
  limit \<open>ValidVertexNum\<close> counts exactly the vertices that \<open>IsVertexValid\<close> accepts, and
  \<open>foreach_vertex\<close> visits exactly those, in order, for every bound that covers the compacted
  prefix.
\<close>
theorem vertex_count_and_enumeration:
  assumes "vt_inv s"
  shows "ValidVertexNum ts limit s =
      Inr (length (filter (\<lambda>v. IsVertexValid v ts s = Inr True) [0..<min limit (max_vertex_num s)])) \<and>
    (init_vertex_num s \<le> limit \<longrightarrow>
       foreach_vertex limit ts s = filter (\<lambda>v. IsVertexValid v ts s = Inr True) [0..<min limit (max_vertex_num s)])"
  using ValidVertexNum_valid [OF assms, of ts limit] foreach_vertex_valid [OF assms, of limit ts]
  by (simp add: IsVertexValid_since [OF assms])

theorem vertex_count_and_enumeration_witness:
  "let s = \<lparr> init_vertex_num = 2, max_vertex_num = 5, inserted_vertices = Some [3, DELETED_TIMESTAMP, 9],
             removed_vertices = Some {0} \<rparr> in
     ValidVertexNum 4 5 s = Inr 2 \<and> foreach_vertex 5 4 s = [1, 2]"
proof -
  let ?s = "\<lparr> init_vertex_num = 2, max_vertex_num = 5, inserted_vertices = Some [3, DELETED_TIMESTAMP, 9],
             removed_vertices = Some {0} \<rparr> :: VertexTimestamp"
  have "vt_inv ?s" by (simp add: vt_inv_def removed_set_def)
  from vertex_count_and_enumeration [OF this, of 4 5] show ?thesis
    by (simp add: IsVertexValid_def entry_def removed_set_def upt_rec DELETED_TIMESTAMP_def)
qed

text \<open>
  C33. Compaction keeps the invariant and is invisible to every reader at or above the newest
  timestamp, and it extends the compacted prefix as far as possible; removing a vertex and
  reverting the removal restores every vertex.
\<close>
theorem compaction_and_revert:
  assumes "vt_inv s" "\<forall>v t. since s v = Some t \<longrightarrow> t \<le> now" "now < DELETED_TIMESTAMP"
  shows "(\<exists>s'. vt_Compact s = Inr s' \<and> vt_inv s' \<and>
            (\<forall>v. (IsVertexValid v now s' = Inr True) = (IsVertexValid v now s = Inr True)) \<and>
            (init_vertex_num s' < max_vertex_num s' \<longrightarrow> IsVertexValid (init_vertex_num s') 0 s' = Inr False)) \<and>
         (\<forall>v old s'. since s v \<noteq> None \<and> RemoveVertex v s = Inr (old, s') \<longrightarrow>
            IsVertexValid v now s' = Inr False \<and>
            (\<exists>s''. RevertRemoveVertex v old s' = Inr s'' \<and> vt_inv s'' \<and> since s'' = since s))"
proof (intro conjI allI impI)
  obtain s' where c: "vt_Compact s = Inr s'" "vt_inv s'" "since s' = map_option (\<lambda>_. 0) \<circ> since s"
    "init_vertex_num s' < max_vertex_num s' \<longrightarrow> since s' (init_vertex_num s') \<noteq> Some 0"
    using vt_Compact_refines [OF assms(1)] by blast
  have "(IsVertexValid v now s' = Inr True) = (IsVertexValid v now s = Inr True)" for v
    by (rule vt.compaction_invisible [OF assms(1) c(2,3)]) (use assms(2) in blast)
  then show "\<exists>s'. vt_Compact s = Inr s' \<and> vt_inv s' \<and>
      (\<forall>v. (IsVertexValid v now s' = Inr True) = (IsVertexValid v now s = Inr True)) \<and>
      (init_vertex_num s' < max_vertex_num s' \<longrightarrow> IsVertexValid (init_vertex_num s') 0 s' = Inr False)"
    using c by (auto simp: IsVertexValid_since)
next
  fix v old s' assume "since s v \<noteq> None \<and> RemoveVertex v s = Inr (old, s')"
  then have a: "since s v = Some old" "v < max_vertex_num s" "vt_inv s'" "since s' = (since s)(v := None)"
    "max_vertex_num s' = max_vertex_num s" "init_vertex_num s' = init_vertex_num s" "RemoveVertex v s = Inr (old, s')"
    using RemoveVertex_refines [OF assms(1), of v] by auto
  have "v < init_vertex_num s' \<longrightarrow> removed_vertices s' \<noteq> None \<and> old = 0"
    using a(6,7) by (auto simp: RemoveVertex_def split: if_splits)
  then obtain s'' where "RevertRemoveVertex v old s' = Inr s''" "vt_inv s''" "since s'' = (since s')(v := Some old)"
    using RevertRemoveVertex_refines [OF a(3), of v old] a(1,2,5) assms(2) [rule_format, OF a(1)] assms(3) by auto
  moreover have "(since s')(v := Some old) = since s" using a(1,4) by auto
  ultimately show "\<exists>s''. RevertRemoveVertex v old s' = Inr s'' \<and> vt_inv s'' \<and> since s'' = since s" by auto
  show "IsVertexValid v now s' = Inr False" using IsVertexValid_since [OF a(3)] a(4) by simp
qed

theorem compaction_and_revert_witness:
  "let s = \<lparr> init_vertex_num = 2, max_vertex_num = 5, inserted_vertices = Some [3, DELETED_TIMESTAMP, 9],
             removed_vertices = Some {0} \<rparr> in
     (\<exists>s'. vt_Compact s = Inr s' \<and> IsVertexValid 4 9 s' = Inr True \<and> IsVertexValid 0 9 s' = Inr False) \<and>
     (\<exists>old s' s''. RemoveVertex 4 s = Inr (old, s') \<and> IsVertexValid 4 9 s' = Inr False \<and>
        RevertRemoveVertex 4 old s' = Inr s'' \<and> since s'' 4 = Some 9)"
proof -
  let ?s = "\<lparr> init_vertex_num = 2, max_vertex_num = 5, inserted_vertices = Some [3, DELETED_TIMESTAMP, 9],
             removed_vertices = Some {0} \<rparr> :: VertexTimestamp"
  have h: "vt_inv ?s" by (simp add: vt_inv_def removed_set_def)
  have b: "\<forall>v t. since ?s v = Some t \<longrightarrow> t \<le> 9"
    by (auto simp: since_def live_def nth_Cons' split: if_splits)
  have n: "9 < DELETED_TIMESTAMP" by (simp add: DELETED_TIMESTAMP_def)
  have v: "IsVertexValid 4 9 ?s = Inr True" "IsVertexValid 0 9 ?s = Inr False" "since ?s 4 = Some 9"
    by (simp_all add: IsVertexValid_def entry_def removed_set_def DELETED_TIMESTAMP_def since_def live_def)
  have r: "RemoveVertex 4 ?s = Inr (9, set_entry 2 DELETED_TIMESTAMP ?s)"
    by (simp add: RemoveVertex_def entry_def DELETED_TIMESTAMP_def)
  note t = compaction_and_revert [OF h b n]
  from conjunct1 [OF t] have "\<exists>s'. vt_Compact ?s = Inr s' \<and> IsVertexValid 4 9 s' = Inr True \<and>
      IsVertexValid 0 9 s' = Inr False"
    using v IsVertexValid_since by fastforce
  moreover have "\<exists>old s' s''. RemoveVertex 4 ?s = Inr (old, s') \<and> IsVertexValid 4 9 s' = Inr False \<and>
        RevertRemoveVertex 4 old s' = Inr s'' \<and> since s'' 4 = Some 9"
    using spec [OF spec [OF conjunct2 [OF t], of 4], of 9] r v(3) by auto
  ultimately show ?thesis by (simp add: Let_def)
qed

text \<open>
  C34. Loading what was dumped into a fresh object restores every vertex and both counters.
  Loading into an object that was used before does not reset it: its removed vertices stay
  removed.
\<close>
theorem vertex_file_round_trip:
  assumes "vt_inv s" "max_vertex_num s < 2 ^ 32" "\<forall>xs. inserted_vertices s = Some xs \<longrightarrow> (\<forall>t\<in>set xs. t < 2 ^ 32)"
  shows "(\<exists>s'. vt_Open (Some (dump_ts s)) vt_new = Inr s' \<and> vt_inv s' \<and> since s' = since s \<and>
            init_vertex_num s' = init_vertex_num s \<and> max_vertex_num s' = max_vertex_num s) \<and>
         (\<forall>s0 s'. vt_Open (Some (dump_ts s)) s0 = Inr s' \<longrightarrow> removed_set s' = removed_set s0 \<union> removed_set s)"
  using load_buffer_fresh [OF assms] load_buffer_used [OF assms] by (auto simp: vt_Open_def load_ts_def)

theorem vertex_file_round_trip_witness:
  "let s = \<lparr> init_vertex_num = 2, max_vertex_num = 4, inserted_vertices = Some [3, DELETED_TIMESTAMP],
             removed_vertices = Some {0} \<rparr> in
     \<exists>s'. vt_Open (Some (dump_ts s)) vt_new = Inr s' \<and> since s' 0 = None \<and> since s' 2 = Some 3"
proof -
  let ?s = "\<lparr> init_vertex_num = 2, max_vertex_num = 4, inserted_vertices = Some [3, DELETED_TIMESTAMP],
             removed_vertices = Some {0} \<rparr> :: VertexTimestamp"
  have "vt_inv ?s" "max_vertex_num ?s < 2 ^ 32" "\<forall>xs. inserted_vertices ?s = Some xs \<longrightarrow> (\<forall>t\<in>set xs. t < 2 ^ 32)"
    by (simp_all add: vt_inv_def removed_set_def DELETED_TIMESTAMP_def)
  from conjunct1 [OF vertex_file_round_trip [OF this]] obtain s'
    where "vt_Open (Some (dump_ts ?s)) vt_new = Inr s'" "since s' = since ?s" by blast
  moreover have "since ?s 0 = None" "since ?s 2 = Some 3"
    by (simp_all add: since_def live_def removed_set_def DELETED_TIMESTAMP_def)
  ultimately show ?thesis by (auto simp: Let_def)
qed

end
