(* ===== verification/Csr_Base.thy ===== *)
theory Csr_Base
  imports Prelude
begin

text \<open>
  What the adjacency stores of an edge table share (\<open>include/neug/storages/csr/csr_base.h\<close>,
  \<open>nbr.h\<close>): the neighbor entries, the in-place loop that squeezes deleted entries out of an
  array, and the contract of the stores as locales over an abstract graph, a function from a
  source vertex to the list of its live edges.
\<close>

section \<open>Entries\<close>

definition INVALID_TIMESTAMP :: nat where "INVALID_TIMESTAMP = u32_max"
definition MAX_TIMESTAMP :: nat where "MAX_TIMESTAMP = u32_max - 1"
definition NO_VERTEX :: nat where "NO_VERTEX = u32_max"

record 'd MutableNbr =
  neighbor :: nat
  timestamp :: nat
  edata :: 'd

record 'd ImmutableNbr =
  ineighbor :: nat
  idata :: 'd

type_synonym 'd edge = "nat \<times> 'd"

definition live_nbr :: "'d MutableNbr \<Rightarrow> bool" where
  "live_nbr e \<longleftrightarrow> timestamp e \<noteq> INVALID_TIMESTAMP"

definition exists_nbr :: "'d ImmutableNbr \<Rightarrow> bool" where
  "exists_nbr e \<longleftrightarrow> ineighbor e \<noteq> NO_VERTEX"

definition medge :: "'d MutableNbr \<Rightarrow> 'd edge" where "medge e = (neighbor e, edata e)"
definition iedge :: "'d ImmutableNbr \<Rightarrow> 'd edge" where "iedge e = (ineighbor e, idata e)"

lemma live_nbr_timestamp [simp]: "live_nbr (e \<lparr> timestamp := t \<rparr>) \<longleftrightarrow> t \<noteq> INVALID_TIMESTAMP" by (simp add: live_nbr_def)

lemma medge_timestamp [simp]: "medge (e \<lparr> timestamp := t \<rparr>) = medge e" by (simp add: medge_def)

lemma INVALID_TIMESTAMP_pos [simp]: "0 \<noteq> INVALID_TIMESTAMP" "0 < INVALID_TIMESTAMP" by (simp_all add: INVALID_TIMESTAMP_def)

section \<open>Squeezing an array in place\<close>

text \<open>
  The read and write pointers of the compaction loops. An entry that is kept is copied down once
  something was removed (or always), and then touched.
\<close>

function squeeze :: "bool \<Rightarrow> ('a \<Rightarrow> bool) \<Rightarrow> ('a \<Rightarrow> 'a) \<Rightarrow> 'a list \<Rightarrow> nat \<Rightarrow> nat \<Rightarrow> nat \<Rightarrow> nat \<Rightarrow> 'a list \<times> nat \<times> nat"
where
  "squeeze always keep touch buf r e w removed =
     (if r \<ge> e then (buf, w, removed)
      else if keep (buf ! r) then
        let buf' = (if always \<or> removed > 0 then buf[w := buf ! r] else buf) in
        squeeze always keep touch (buf'[w := touch (buf' ! w)]) (Suc r) e (Suc w) removed
      else squeeze always keep touch buf (Suc r) e w (Suc removed))"
  by pat_completeness auto
termination by (relation "measure (\<lambda>(_, _, _, _, r, e, _, _). e - r)") auto

declare squeeze.simps [simp del]

lemma segment_Cons: "r < e \<Longrightarrow> e \<le> length xs \<Longrightarrow> take (e - r) (drop r xs) = xs ! r # take (e - Suc r) (drop (Suc r) xs)"
  by (metis Cons_nth_drop_Suc Suc_diff_Suc dual_order.strict_trans1 take_Suc_Cons)

lemma squeeze_spec:
  assumes "w + removed = r" "r \<le> e" "e \<le> length buf"
  shows "\<exists>buf' w' removed'. squeeze always keep touch buf r e w removed = (buf', w', removed') \<and>
    length buf' = length buf \<and> w' = w + length (filter keep (take (e - r) (drop r buf))) \<and> w' + removed' = e \<and>
    take w' buf' = take w buf @ map touch (filter keep (take (e - r) (drop r buf))) \<and> drop e buf' = drop e buf"
  using assms
proof (induction always keep touch buf r e w removed rule: squeeze.induct)
  case (1 always keep touch buf r e w removed)
  show ?case
  proof (cases "r \<ge> e")
    case True
    then show ?thesis using 1(3-5) by (subst squeeze.simps) simp
  next
    case False
    let ?x = "buf ! r" let ?seg = "take (e - Suc r) (drop (Suc r) buf)"
    have seg: "take (e - r) (drop r buf) = ?x # ?seg" using False 1(3-5) by (intro segment_Cons) auto
    show ?thesis
    proof (cases "keep ?x")
      case True
      let ?copied = "if always \<or> removed > 0 then buf[w := ?x] else buf" let ?b = "buf[w := touch ?x]"
      have b: "?copied[w := touch (?copied ! w)] = ?b" using 1(3-5) False by auto
      have d: "drop (Suc r) ?b = drop (Suc r) buf" "drop e ?b = drop e buf" using 1(3-5) False by auto
      have t: "take (Suc w) ?b = take w buf @ [touch ?x]" using 1(3-5) False by (simp add: take_Suc_conv_app_nth)
      have "Suc w + removed = Suc r" "Suc r \<le> e" "e \<le> length ?b" using 1(3-5) False by auto
      from 1(1) [OF False True refl, unfolded b, OF this]
      obtain buf' w' removed' where s: "squeeze always keep touch ?b (Suc r) e (Suc w) removed = (buf', w', removed')"
        "length buf' = length buf" "w' = Suc w + length (filter keep ?seg)" "w' + removed' = e"
        "take w' buf' = take w buf @ [touch ?x] @ map touch (filter keep ?seg)" "drop e buf' = drop e buf"
        unfolding d t length_list_update append_assoc by blast
      then show ?thesis using False True by (subst squeeze.simps) (simp add: Let_def b seg)
    next
      case F: False
      from 1(2) [OF False F] 1(3-5) False
      obtain buf' w' removed' where s: "squeeze always keep touch buf (Suc r) e w (Suc removed) = (buf', w', removed')"
        "length buf' = length buf" "w' = w + length (filter keep ?seg)" "w' + removed' = e"
        "take w' buf' = take w buf @ map touch (filter keep ?seg)" "drop e buf' = drop e buf" by auto
      then show ?thesis using False F by (subst squeeze.simps) (simp add: seg)
    qed
  qed
qed

text \<open>From the front of an array.\<close>

lemma squeeze_front:
  assumes "e \<le> length buf" "squeeze always keep touch buf 0 e 0 0 = (buf', w', removed)"
  shows "length buf' = length buf" "w' + removed = e" "e - removed = length (filter keep (take e buf))"
    "take (e - removed) buf' = map touch (filter keep (take e buf))"
proof -
  note s = squeeze_spec [of 0 0 0 e buf always keep touch]
  show "length buf' = length buf" "w' + removed = e" using s assms by auto
  show l: "e - removed = length (filter keep (take e buf))" using s assms by auto
  show "take (e - removed) buf' = map touch (filter keep (take e buf))" unfolding l using s assms by auto
qed

section \<open>Counting\<close>

lemma length_filter_split: "length (filter P xs) = length (filter (\<lambda>x. P x \<and> Q x) xs) + length (filter (\<lambda>x. P x \<and> \<not> Q x) xs)"
  by (induction xs) auto

lemma sum_list_update_nat:
  "i < length xs \<Longrightarrow> sum_list (xs[i := y]) + xs ! i = sum_list xs + (y :: nat)"
  by (induction xs arbitrary: i) (auto split: nat.splits)

lemma word_of_sum_update:
  "i < length xs \<Longrightarrow> of_nat (sum_list (xs[i := y])) = of_nat (sum_list xs) + of_nat y - (of_nat (xs ! i) :: u64)"
  using arg_cong [OF sum_list_update_nat [of i xs y], of "of_nat :: nat \<Rightarrow> u64"] by (simp add: algebra_simps)

section \<open>The contract of a store\<close>

text \<open>
  The number of live edges below a vertex, and the effect of the batch deletions on the abstract
  graph.
\<close>

definition edge_total :: "nat \<Rightarrow> (nat \<Rightarrow> 'd edge list) \<Rightarrow> nat" where
  "edge_total n g = sum_list (map (\<lambda>v. length (g v)) [0..<n])"

definition without_vertices :: "nat set \<Rightarrow> nat set \<Rightarrow> (nat \<Rightarrow> 'd edge list) \<Rightarrow> nat \<Rightarrow> 'd edge list" where
  "without_vertices S D g = (\<lambda>v. if v \<in> S then [] else filter (\<lambda>e. fst e \<notin> D) (g v))"

definition without_pairs :: "(nat \<times> nat) set \<Rightarrow> (nat \<Rightarrow> 'd edge list) \<Rightarrow> nat \<Rightarrow> 'd edge list" where
  "without_pairs P g = (\<lambda>v. filter (\<lambda>e. (v, fst e) \<notin> P) (g v))"

definition with_edges :: "nat \<Rightarrow> (nat \<times> 'd edge) list \<Rightarrow> (nat \<Rightarrow> 'd edge list) \<Rightarrow> nat \<Rightarrow> 'd edge list" where
  "with_edges n es g = (\<lambda>v. if v < n then g v @ map snd (filter (\<lambda>e. fst e = v) es) else g v)"

text \<open>
  A store that supports deletion: every operation keeps the invariant, returns, and changes
  exactly the live edges it says; the edge counter is exact.
\<close>

locale csr_deletes =
  fixes inv :: "'s \<Rightarrow> bool"
    and size_of :: "'s \<Rightarrow> nat"
    and live :: "'s \<Rightarrow> nat \<Rightarrow> 'd edge list"
    and count :: "'s \<Rightarrow> u64"
    and del_vertices :: "nat set \<Rightarrow> nat set \<Rightarrow> 's \<Rightarrow> 's res"
    and del_pairs :: "nat list \<Rightarrow> nat list \<Rightarrow> 's \<Rightarrow> 's res"
    and compact :: "'s \<Rightarrow> 's res"
  assumes live_range: "inv s \<Longrightarrow> size_of s \<le> v \<Longrightarrow> live s v = []"
    and count_exact: "inv s \<Longrightarrow> count s = of_nat (edge_total (size_of s) (live s))"
    and del_vertices_law: "inv s \<Longrightarrow> finite S \<Longrightarrow> finite D \<Longrightarrow> NO_VERTEX \<notin> D \<Longrightarrow>
      \<exists>s'. del_vertices S D s = Inr s' \<and> inv s' \<and> size_of s' = size_of s \<and> live s' = without_vertices S D (live s)"
    and del_pairs_law: "inv s \<Longrightarrow> length srcs = length dsts \<Longrightarrow> NO_VERTEX \<notin> set dsts \<Longrightarrow>
      \<exists>s'. del_pairs srcs dsts s = Inr s' \<and> inv s' \<and> size_of s' = size_of s \<and>
        live s' = without_pairs (set (zip srcs dsts)) (live s)"
    and compact_law: "inv s \<Longrightarrow>
      \<exists>s'. compact s = Inr s' \<and> inv s' \<and> size_of s' = size_of s \<and> live s' = live s"

text \<open>A store of any number of edges per vertex also appends.\<close>

locale csr_store = csr_deletes inv size_of live count del_vertices del_pairs compact
  for inv :: "'s \<Rightarrow> bool" and size_of :: "'s \<Rightarrow> nat" and live :: "'s \<Rightarrow> nat \<Rightarrow> 'd edge list"
    and count :: "'s \<Rightarrow> u64" and del_vertices :: "nat set \<Rightarrow> nat set \<Rightarrow> 's \<Rightarrow> 's res"
    and del_pairs :: "nat list \<Rightarrow> nat list \<Rightarrow> 's \<Rightarrow> 's res" and compact :: "'s \<Rightarrow> 's res" +
  fixes put :: "(nat \<times> 'd edge) list \<Rightarrow> nat \<Rightarrow> 's \<Rightarrow> 's res"
  assumes put_law: "inv s \<Longrightarrow> \<forall>e\<in>set es. fst e < size_of s \<and> fst (snd e) \<noteq> NO_VERTEX \<Longrightarrow> ts < INVALID_TIMESTAMP \<Longrightarrow>
      \<exists>s'. put es ts s = Inr s' \<and> inv s' \<and> size_of s' = size_of s \<and> live s' = with_edges (size_of s) es (live s)"


section \<open>Sequences of batch operations\<close>

datatype 'd csr_op =
    DeleteVertices "nat set" "nat set"
  | DeletePairs "nat list" "nat list"
  | PutEdges "(nat \<times> 'd edge) list" nat
  | CompactEdges

definition op_ok :: "nat \<Rightarrow> 'd csr_op \<Rightarrow> bool" where
  "op_ok n oper = (case oper of
     DeleteVertices S D \<Rightarrow> finite S \<and> finite D \<and> NO_VERTEX \<notin> D
   | DeletePairs srcs dsts \<Rightarrow> length srcs = length dsts \<and> NO_VERTEX \<notin> set dsts
   | PutEdges es ts \<Rightarrow> (\<forall>e\<in>set es. fst e < n \<and> fst (snd e) \<noteq> NO_VERTEX) \<and> ts < INVALID_TIMESTAMP
   | CompactEdges \<Rightarrow> True)"

text \<open>The effect on the abstract graph, and the run on a store given by its operations.\<close>

definition apply_op :: "nat \<Rightarrow> 'd csr_op \<Rightarrow> (nat \<Rightarrow> 'd edge list) \<Rightarrow> nat \<Rightarrow> 'd edge list" where
  "apply_op n oper g = (case oper of
     DeleteVertices S D \<Rightarrow> without_vertices S D g
   | DeletePairs srcs dsts \<Rightarrow> without_pairs (set (zip srcs dsts)) g
   | PutEdges es ts \<Rightarrow> with_edges n es g
   | CompactEdges \<Rightarrow> g)"

fun run_ops :: "('d csr_op \<Rightarrow> 's \<Rightarrow> 's res) \<Rightarrow> 'd csr_op list \<Rightarrow> 's \<Rightarrow> 's res" where
  "run_ops f [] s = Inr s"
| "run_ops f (oper # ops) s = res_bind (f oper s) (run_ops f ops)"

context csr_store
begin

lemma op_refines:
  assumes "inv s" "op_ok (size_of s) oper"
  shows "\<exists>s'. (case oper of DeleteVertices S D \<Rightarrow> del_vertices S D s | DeletePairs srcs dsts \<Rightarrow> del_pairs srcs dsts s
      | PutEdges es ts \<Rightarrow> put es ts s | CompactEdges \<Rightarrow> compact s) = Inr s' \<and>
    inv s' \<and> size_of s' = size_of s \<and> live s' = apply_op (size_of s) oper (live s)"
  using assms del_vertices_law [OF assms(1)] del_pairs_law [OF assms(1)] compact_law [OF assms(1)] put_law [OF assms(1)]
  by (cases oper) (simp_all add: op_ok_def apply_op_def)

lemma run_refines:
  assumes "inv s" "\<forall>oper\<in>set ops. op_ok (size_of s) oper"
  shows "\<exists>s'. run_ops (\<lambda>oper s. case oper of DeleteVertices S D \<Rightarrow> del_vertices S D s | DeletePairs srcs dsts \<Rightarrow> del_pairs srcs dsts s
      | PutEdges es ts \<Rightarrow> put es ts s | CompactEdges \<Rightarrow> compact s) ops s = Inr s' \<and>
    inv s' \<and> size_of s' = size_of s \<and> live s' = fold (apply_op (size_of s)) ops (live s) \<and>
    count s' = of_nat (edge_total (size_of s) (live s'))"
  using assms
proof (induction ops arbitrary: s)
  case Nil
  then show ?case using count_exact by simp
next
  case (Cons oper ops)
  from op_refines [OF Cons.prems(1), of oper] Cons.prems(2)
  obtain s1 where s1: "(case oper of DeleteVertices S D \<Rightarrow> del_vertices S D s | DeletePairs srcs dsts \<Rightarrow> del_pairs srcs dsts s
      | PutEdges es ts \<Rightarrow> put es ts s | CompactEdges \<Rightarrow> compact s) = Inr s1"
    "inv s1" "size_of s1 = size_of s" "live s1 = apply_op (size_of s) oper (live s)" by auto
  from Cons.IH [OF s1(2)] Cons.prems(2) s1 show ?case by simp
qed

end

end
