(* ===== verification/Mutable_Csr.thy ===== *)
theory Mutable_Csr
  imports Csr_Base "HOL-Library.Multiset"
begin

text \<open>
  \<open>MutableCsr\<close> (\<open>include/neug/storages/csr/mutable_csr.h\<close>, \<open>src/storages/csr/mutable_csr.cc\<close>): per
  source vertex a growable buffer of entries, its degree and its capacity. Deleted entries keep
  their place with the invalid timestamp until compaction. The three parallel arrays of the code
  are one list of \<open>AdjSlot\<close>; the buffers are disjoint slices of memory, so each is a list of its
  own, \<open>None\<close> for the null pointer. Memory that was allocated but not written holds \<open>junk\<close>.
\<close>

section \<open>State\<close>

record 'd AdjSlot =
  adj :: "'d MutableNbr list option"
  degree :: nat
  cap :: nat

record 'd MutableCsr =
  slots :: "'d AdjSlot list"
  unsorted_since :: nat
  edge_num :: u64

definition buffer :: "'d AdjSlot \<Rightarrow> 'd MutableNbr list" where
  "buffer sl = (case adj sl of None \<Rightarrow> [] | Some b \<Rightarrow> b)"

definition entries :: "'d AdjSlot \<Rightarrow> 'd MutableNbr list" where
  "entries sl = take (degree sl) (buffer sl)"

definition vertex_capacity :: "'d MutableCsr \<Rightarrow> nat" where "vertex_capacity s = length (slots s)"

text \<open>The loops read the first \<open>degree\<close> entries of the buffers.\<close>

definition readable :: "'d MutableCsr \<Rightarrow> bool" where
  "readable s \<longleftrightarrow> list_all (\<lambda>sl. degree sl \<le> length (buffer sl)) (slots s)"

definition live_count :: "'d AdjSlot \<Rightarrow> nat" where
  "live_count sl = length (filter live_nbr (entries sl))"

definition map_slots :: "(nat \<Rightarrow> 'd AdjSlot \<Rightarrow> 'a) \<Rightarrow> 'd MutableCsr \<Rightarrow> 'a list" where
  "map_slots f s = map (\<lambda>v. f v (slots s ! v)) [0..<length (slots s)]"

section \<open>Operations\<close>

definition grow_slot :: "'d MutableNbr \<Rightarrow> 'd AdjSlot \<Rightarrow> 'd AdjSlot" where
  "grow_slot junk sl =
     (if degree sl = cap sl then
        let cap' = max (cap sl + cap sl div 2) 8 in
        sl \<lparr> adj := Some (entries sl @ replicate (cap' - degree sl) junk), cap := cap' \<rparr>
      else sl)"

definition append_slot :: "'d MutableNbr \<Rightarrow> 'd AdjSlot \<Rightarrow> 'd AdjSlot res" where
  "append_slot e sl =
     (if degree sl < length (buffer sl)
      then Inr (sl \<lparr> adj := Some ((buffer sl)[degree sl := e]), degree := Suc (degree sl) \<rparr>)
      else Inl UndefinedBehaviour)"

definition put_edge :: "'d MutableNbr \<Rightarrow> nat \<Rightarrow> nat \<Rightarrow> 'd \<Rightarrow> nat \<Rightarrow> 'd MutableCsr \<Rightarrow> (nat \<times> 'd MutableCsr) res" where
  "put_edge junk src dst d ts s =
     (if src \<ge> vertex_capacity s then Inl InvalidArgument
      else let sl = grow_slot junk (slots s ! src) in
        res_bind (append_slot \<lparr> neighbor = dst, timestamp = ts, edata = d \<rparr> sl) (\<lambda>sl'.
          Inr (degree sl, s \<lparr> slots := (slots s)[src := sl'], edge_num := edge_num s + 1,
            unsorted_since := (if ts < unsorted_since s then 0 else unsorted_since s) \<rparr>)))"

definition batch_export :: "'d MutableCsr \<Rightarrow> (nat list \<times> nat list \<times> 'd list) res" where
  "batch_export s =
     (if readable s then
        let es = concat (map_slots (\<lambda>v sl. map (Pair v) (filter live_nbr (entries sl))) s) in
        Inr (map fst es, map (neighbor \<circ> snd) es, map (edata \<circ> snd) es)
      else Inl UndefinedBehaviour)"

definition DetachVertex :: "'d MutableNbr \<Rightarrow> nat \<Rightarrow> 'd MutableCsr \<Rightarrow> 'd MutableCsr res" where
  "DetachVertex junk v s =
     (if v \<ge> vertex_capacity s then Inl InvalidArgument
      else let sl = slots s ! v in
        if cap sl = 0 then Inr s
        else if degree sl \<le> length (buffer sl)
        then Inr (s \<lparr> slots := (slots s)[v := sl \<lparr> adj := Some (entries sl @ replicate (cap sl - degree sl) junk) \<rparr>] \<rparr>)
        else Inl UndefinedBehaviour)"

definition squeeze_slot :: "('d MutableNbr \<Rightarrow> bool) \<Rightarrow> ('d MutableNbr \<Rightarrow> 'd MutableNbr) \<Rightarrow> 'd AdjSlot \<Rightarrow> 'd AdjSlot" where
  "squeeze_slot keep touch sl = (case adj sl of None \<Rightarrow> sl
     | Some b \<Rightarrow> let (b', w, removed) = squeeze False keep touch b 0 (degree sl) 0 0 in
         sl \<lparr> adj := Some b', degree := degree sl - removed \<rparr>)"

definition compact_slot :: "'d AdjSlot \<Rightarrow> 'd AdjSlot" where
  "compact_slot sl = squeeze_slot live_nbr (\<lambda>e. e \<lparr> timestamp := 0 \<rparr>) sl"

definition csr_compact :: "'d MutableCsr \<Rightarrow> 'd MutableCsr res" where
  "csr_compact s =
     (if readable s then
        let slots' = map compact_slot (slots s);
            total_edge_num = sum_list (map degree (filter (\<lambda>sl. adj sl \<noteq> None) slots')) in
        if of_nat total_edge_num \<noteq> edge_num s then Inl StorageException
        else Inr (s \<lparr> slots := slots' \<rparr>)
      else Inl UndefinedBehaviour)"

definition csr_resize :: "nat \<Rightarrow> 'd MutableCsr \<Rightarrow> 'd MutableCsr" where
  "csr_resize vnum s =
     (if vnum > vertex_capacity s
      then s \<lparr> slots := slots s @ replicate (vnum - vertex_capacity s) \<lparr> adj = None, degree = 0, cap = 0 \<rparr> \<rparr>
      else s \<lparr> slots := take vnum (slots s) \<rparr>)"

text \<open>\<open>std::sort\<close> orders entries of equal data arbitrarily: it is the argument \<open>srt\<close>.\<close>

definition sort_slot :: "('d MutableNbr list \<Rightarrow> 'd MutableNbr list) \<Rightarrow> 'd AdjSlot \<Rightarrow> 'd AdjSlot" where
  "sort_slot srt sl = (case adj sl of None \<Rightarrow> sl
     | Some b \<Rightarrow> sl \<lparr> adj := Some (srt (take (degree sl) b) @ drop (degree sl) b) \<rparr>)"

definition batch_sort_by_edge_data :: "('d MutableNbr list \<Rightarrow> 'd MutableNbr list) \<Rightarrow> nat \<Rightarrow> 'd MutableCsr \<Rightarrow> 'd MutableCsr res" where
  "batch_sort_by_edge_data srt ts s =
     (if readable s then Inr (s \<lparr> slots := map (sort_slot srt) (slots s), unsorted_since := ts \<rparr>)
      else Inl UndefinedBehaviour)"

text \<open>Removing the entries to the vertices \<open>D\<close>: the new slot and the number of live entries removed.\<close>

definition remove_targets :: "nat set \<Rightarrow> 'd AdjSlot \<Rightarrow> 'd AdjSlot \<times> nat" where
  "remove_targets D sl =
     (if degree sl = 0 then (sl, 0)
      else (squeeze_slot (\<lambda>e. neighbor e \<notin> D) (\<lambda>e. e) sl,
            length (filter (\<lambda>e. live_nbr e \<and> neighbor e \<in> D) (entries sl))))"

definition clear_source :: "nat set \<Rightarrow> nat \<Rightarrow> 'd AdjSlot \<Rightarrow> 'd AdjSlot \<times> nat" where
  "clear_source S v sl = (if v \<in> S then (sl \<lparr> degree := 0 \<rparr>, live_count sl) else (sl, 0))"

definition batch_delete_vertices :: "nat set \<Rightarrow> nat set \<Rightarrow> 'd MutableCsr \<Rightarrow> 'd MutableCsr res" where
  "batch_delete_vertices S D s =
     (if readable s then
        let first = map_slots (clear_source S) s; second = map (remove_targets D \<circ> fst) first in
        Inr (s \<lparr> slots := map fst second, unsorted_since := 0,
          edge_num := edge_num s - of_nat (sum_list (map snd first)) - of_nat (sum_list (map snd second)) \<rparr>)
      else Inl UndefinedBehaviour)"

text \<open>Marking entries as deleted, and counting the live ones among them.\<close>

definition mark_slot :: "(nat \<Rightarrow> 'd MutableNbr \<Rightarrow> bool) \<Rightarrow> 'd AdjSlot \<Rightarrow> 'd AdjSlot \<times> nat" where
  "mark_slot P sl = (case adj sl of None \<Rightarrow> (sl, 0)
     | Some b \<Rightarrow>
         (sl \<lparr> adj := Some (map (\<lambda>i. if P i (b ! i) then (b ! i) \<lparr> timestamp := INVALID_TIMESTAMP \<rparr> else b ! i)
                              [0..<degree sl] @ drop (degree sl) b) \<rparr>,
          length (filter (\<lambda>i. P i (b ! i) \<and> live_nbr (b ! i)) [0..<degree sl])))"

definition batch_mark :: "(nat \<Rightarrow> nat \<Rightarrow> 'd MutableNbr \<Rightarrow> bool) \<Rightarrow> 'd MutableCsr \<Rightarrow> 'd MutableCsr" where
  "batch_mark P s =
     (let marked = map_slots (\<lambda>v. mark_slot (P v)) s in
      s \<lparr> slots := map fst marked, unsorted_since := 0, edge_num := edge_num s - of_nat (sum_list (map snd marked)) \<rparr>)"

definition batch_delete_edges :: "nat list \<Rightarrow> nat list \<Rightarrow> 'd MutableCsr \<Rightarrow> 'd MutableCsr res" where
  "batch_delete_edges src_list dst_list s =
     (if readable s \<and> length src_list \<le> length dst_list
      then Inr (batch_mark (\<lambda>v i e. (v, neighbor e) \<in> set (zip src_list dst_list)) s)
      else Inl UndefinedBehaviour)"

definition batch_delete_offsets :: "(nat \<times> int) list \<Rightarrow> 'd MutableCsr \<Rightarrow> 'd MutableCsr res" where
  "batch_delete_offsets edges s =
     (if readable s \<and> (\<forall>e\<in>set edges. fst e < vertex_capacity s \<longrightarrow> snd e \<ge> 0)
      then Inr (batch_mark (\<lambda>v i e. (v, int i) \<in> set edges) s)
      else Inl UndefinedBehaviour)"

text \<open>The entry an update by offset works on. A negative offset passes the bounds check of the code.\<close>

definition entry_at :: "nat \<Rightarrow> int \<Rightarrow> 'd MutableCsr \<Rightarrow> 'd MutableNbr res" where
  "entry_at src offset s =
     (if src \<ge> vertex_capacity s \<or> offset \<ge> int (degree (slots s ! src)) then Inl InvalidArgument
      else case adj (slots s ! src) of None \<Rightarrow> Inl InvalidArgument
      | Some b \<Rightarrow> if offset < 0 \<or> nat offset \<ge> length b then Inl UndefinedBehaviour else Inr (b ! nat offset))"

definition set_timestamp :: "nat \<Rightarrow> int \<Rightarrow> nat \<Rightarrow> 'd MutableCsr \<Rightarrow> 'd MutableCsr" where
  "set_timestamp src offset ts s =
     (let sl = slots s ! src; b = buffer sl in
      s \<lparr> slots := (slots s)[src := sl \<lparr> adj := Some (b[nat offset := (b ! nat offset) \<lparr> timestamp := ts \<rparr>]) \<rparr>] \<rparr>)"

definition delete_edge :: "nat \<Rightarrow> int \<Rightarrow> nat \<Rightarrow> 'd MutableCsr \<Rightarrow> 'd MutableCsr res" where
  "delete_edge src offset ts s = res_bind (entry_at src offset s) (\<lambda>e.
     if timestamp e \<le> ts
     then let s' = set_timestamp src offset INVALID_TIMESTAMP s in Inr (s' \<lparr> edge_num := edge_num s - 1, unsorted_since := 0 \<rparr>)
     else Inr s)"

definition revert_delete_edge :: "nat \<Rightarrow> nat \<Rightarrow> int \<Rightarrow> nat \<Rightarrow> 'd MutableCsr \<Rightarrow> 'd MutableCsr res" where
  "revert_delete_edge src nbr offset ts s = res_bind (entry_at src offset s) (\<lambda>e.
     if neighbor e \<noteq> nbr then Inl InvalidArgument
     else if timestamp e = INVALID_TIMESTAMP
     then let s' = set_timestamp src offset ts s in Inr (s' \<lparr> edge_num := edge_num s + 1 \<rparr>)
     else Inl InvalidArgument)"

text \<open>
  Batch insertion moves every buffer into one new allocation with room for the new entries, whose
  rounding up is the argument \<open>reserve\<close> (\<open>std::ceil\<close> of a float product), and then appends.
\<close>

definition move_slot :: "(nat \<Rightarrow> nat) \<Rightarrow> 'd MutableNbr \<Rightarrow> bool \<Rightarrow> nat \<Rightarrow> 'd AdjSlot \<Rightarrow> 'd AdjSlot" where
  "move_slot reserve junk allocated added sl =
     (let new_cap = reserve (added + degree sl) in
      sl \<lparr> adj := (if allocated then Some (entries sl @ replicate (new_cap - degree sl) junk) else None), cap := new_cap \<rparr>)"

fun put_loop :: "nat \<Rightarrow> (nat \<times> 'd edge) list \<Rightarrow> 'd AdjSlot list \<Rightarrow> 'd AdjSlot list res" where
  "put_loop ts [] sls = Inr sls"
| "put_loop ts ((src, dst, d) # es) sls =
     (if src \<ge> length sls then put_loop ts es sls
      else res_bind (append_slot \<lparr> neighbor = dst, timestamp = ts, edata = d \<rparr> (sls ! src)) (\<lambda>sl.
        put_loop ts es (sls[src := sl])))"

definition added_at :: "nat list \<Rightarrow> nat \<Rightarrow> nat" where "added_at srcs v = length (filter (\<lambda>x. x = v) srcs)"

definition batch_put_edges :: "(nat \<Rightarrow> nat) \<Rightarrow> 'd MutableNbr \<Rightarrow> nat list \<Rightarrow> nat list \<Rightarrow> 'd list \<Rightarrow> nat \<Rightarrow> 'd MutableCsr \<Rightarrow>
    'd MutableCsr res" where
  "batch_put_edges reserve junk src_list dst_list data_list ts s =
     (if vertex_capacity s = 0 then Inr s
      else if readable s \<and> length src_list \<le> length dst_list \<and> length src_list \<le> length data_list then
        let total = sum_list (map_slots (\<lambda>v sl. reserve (added_at src_list v + degree sl)) s);
            moved = map_slots (\<lambda>v. move_slot reserve junk (total > 0) (added_at src_list v)) s in
        res_bind (put_loop ts (zip src_list (zip dst_list data_list)) moved) (\<lambda>sls.
          Inr (s \<lparr> slots := sls,
            edge_num := edge_num s + of_nat (length (filter (\<lambda>v. v < vertex_capacity s) src_list)),
            unsorted_since := (if ts < unsorted_since s then 0 else unsorted_since s) \<rparr>))
      else Inl UndefinedBehaviour)"

section \<open>The invariant and the live edges\<close>

definition slot_ok :: "'d AdjSlot \<Rightarrow> bool" where
  "slot_ok sl \<longleftrightarrow> degree sl \<le> cap sl \<and> cap sl = length (buffer sl)"

definition csr_inv :: "'d MutableCsr \<Rightarrow> bool" where
  "csr_inv s \<longleftrightarrow> (\<forall>sl\<in>set (slots s). slot_ok sl) \<and> edge_num s = of_nat (sum_list (map live_count (slots s)))"

definition csr_live :: "'d MutableCsr \<Rightarrow> nat \<Rightarrow> 'd edge list" where
  "csr_live s v = (if v < length (slots s) then map medge (filter live_nbr (entries (slots s ! v))) else [])"

lemma inv_readable: "csr_inv s \<Longrightarrow> readable s"
  by (auto simp: csr_inv_def slot_ok_def readable_def list_all_iff)

lemma live_count_total: "edge_total (length (slots s)) (csr_live s) = sum_list (map live_count (slots s))"
proof -
  have "map (\<lambda>v. length (csr_live s v)) [0..<length (slots s)] = map live_count (map ((!) (slots s)) [0..<length (slots s)])"
    by (simp add: csr_live_def live_count_def)
  then show ?thesis unfolding edge_total_def map_nth by simp
qed

lemma length_map_slots [simp]: "length (map_slots f s) = length (slots s)"
  and nth_map_slots [simp]: "v < length (slots s) \<Longrightarrow> map_slots f s ! v = f v (slots s ! v)"
  by (simp_all add: map_slots_def)

lemma set_map_slots: "x \<in> set (map_slots f s) \<longleftrightarrow> (\<exists>v<length (slots s). x = f v (slots s ! v))"
  by (auto simp: map_slots_def)

text \<open>An operation that works slot by slot and subtracts what it removes keeps the invariant.\<close>

lemma sum_slots_split:
  fixes f :: "'d AdjSlot \<Rightarrow> nat"
  assumes "\<And>v. v < length (slots s) \<Longrightarrow> g v (slots s ! v) + h v (slots s ! v) = f (slots s ! v)"
  shows "sum_list (map_slots g s) + sum_list (map_slots h s) = sum_list (map f (slots s))"
proof -
  have "sum_list (map_slots g s) + sum_list (map_slots h s) = sum_list (map_slots (\<lambda>v sl. f sl) s)"
    unfolding map_slots_def sum_list_addf [symmetric] using assms by (intro arg_cong [of _ _ sum_list]) auto
  also have "map_slots (\<lambda>v sl. f sl) s = map f (slots s)" by (rule nth_equalityI) auto
  finally show ?thesis .
qed

lemma inv_slotwise:
  assumes "csr_inv s" "slots s' = map_slots f s"
    "edge_num s' = edge_num s - of_nat (sum_list (map_slots gone s))"
    "\<And>v. v < length (slots s) \<Longrightarrow> slot_ok (slots s ! v) \<Longrightarrow> slot_ok (f v (slots s ! v)) \<and>
       live_count (f v (slots s ! v)) + gone v (slots s ! v) = live_count (slots s ! v)"
  shows "csr_inv s'"
proof -
  have ok: "\<And>v. v < length (slots s) \<Longrightarrow> slot_ok (slots s ! v)" using assms(1) by (auto simp: csr_inv_def)
  have "sum_list (map live_count (slots s')) + sum_list (map_slots gone s) = sum_list (map live_count (slots s))"
    using sum_slots_split [of s "\<lambda>v sl. live_count (f v sl)" gone live_count] assms(4) ok
    by (simp add: assms(2) map_slots_def comp_def)
  then have "edge_num s' = of_nat (sum_list (map live_count (slots s')))"
    using assms(1,3) by (simp add: csr_inv_def flip: of_nat_add) (metis add_diff_cancel_right' of_nat_add)
  then show ?thesis using assms(2,4) ok by (auto simp: csr_inv_def set_map_slots)
qed


subsection \<open>Slots\<close>

lemma buffer_Some [simp]: "buffer (sl \<lparr> adj := Some b \<rparr>) = b" "entries (sl \<lparr> adj := Some b \<rparr>) = take (degree sl) b"
  by (simp_all add: buffer_def entries_def)

lemma slot_okD: "slot_ok sl \<Longrightarrow> degree sl \<le> length (buffer sl)" "slot_ok sl \<Longrightarrow> length (entries sl) = degree sl"
  by (auto simp: slot_ok_def entries_def)

lemma csr_inv_slot: "csr_inv s \<Longrightarrow> v < length (slots s) \<Longrightarrow> slot_ok (slots s ! v)"
  by (simp add: csr_inv_def)

lemma squeeze_slot_entries:
  assumes "slot_ok sl"
  shows "slot_ok (squeeze_slot keep touch sl)" "entries (squeeze_slot keep touch sl) = map touch (filter keep (entries sl))"
    "adj (squeeze_slot keep touch sl) = None \<longleftrightarrow> adj sl = None"
proof -
  have "slot_ok (squeeze_slot keep touch sl) \<and> entries (squeeze_slot keep touch sl) = map touch (filter keep (entries sl)) \<and>
    (adj (squeeze_slot keep touch sl) = None \<longleftrightarrow> adj sl = None)"
  proof (cases "adj sl")
    case None
    then show ?thesis using assms by (simp add: squeeze_slot_def entries_def buffer_def)
  next
    case (Some b)
    obtain b' w r where q: "squeeze False keep touch b 0 (degree sl) 0 0 = (b', w, r)" by (metis prod_cases3)
    have d: "degree sl \<le> length b" using assms Some by (simp add: slot_ok_def buffer_def)
    have "length (filter keep (take (degree sl) b)) \<le> length b" by (rule order_trans [OF length_filter_le]) simp
    then show ?thesis using assms Some squeeze_front [OF d q]
      by (simp add: squeeze_slot_def q slot_ok_def entries_def buffer_def)
  qed
  then show "slot_ok (squeeze_slot keep touch sl)" "entries (squeeze_slot keep touch sl) = map touch (filter keep (entries sl))"
    "adj (squeeze_slot keep touch sl) = None \<longleftrightarrow> adj sl = None" by auto
qed

lemmas compact_slot_entries = squeeze_slot_entries [of _ live_nbr "\<lambda>e. e \<lparr> timestamp := 0 \<rparr>", folded compact_slot_def]

lemma remove_targets_entries:
  assumes "slot_ok sl"
  shows "slot_ok (fst (remove_targets D sl))"
    "entries (fst (remove_targets D sl)) = filter (\<lambda>e. neighbor e \<notin> D) (entries sl)"
    "snd (remove_targets D sl) = length (filter (\<lambda>e. live_nbr e \<and> neighbor e \<in> D) (entries sl))"
  using assms squeeze_slot_entries [OF assms, of "\<lambda>e. neighbor e \<notin> D" "\<lambda>e. e"]
  by (auto simp: remove_targets_def entries_def [of sl])

lemma filter_mark: "filter live_nbr (map (\<lambda>e. if P e then e \<lparr> timestamp := INVALID_TIMESTAMP \<rparr> else e) xs) = filter (\<lambda>e. live_nbr e \<and> \<not> P e) xs"
  by (induction xs) (auto simp: live_nbr_def)

lemma map_nth_take: "n \<le> length b \<Longrightarrow> map (\<lambda>i. F (b ! i)) [0..<n] = map F (take n b)"
  by (rule nth_equalityI) auto

lemma mark_slot_ok: "slot_ok sl \<Longrightarrow> slot_ok (fst (mark_slot P sl))"
  by (auto simp: slot_ok_def mark_slot_def buffer_def split: option.splits)

lemma mark_slot_nth:
  assumes "slot_ok sl" "i < degree sl"
  shows "entries (fst (mark_slot P sl)) ! i =
    (if P i (entries sl ! i) then (entries sl ! i) \<lparr> timestamp := INVALID_TIMESTAMP \<rparr> else entries sl ! i)"
  using assms by (auto simp: slot_ok_def mark_slot_def entries_def buffer_def nth_append split: option.splits)

lemma mark_slot_degree [simp]: "degree (fst (mark_slot P sl)) = degree sl"
  by (simp add: mark_slot_def split: option.split)

lemma filter_mark_index:
  "length (filter live_nbr (map (\<lambda>i. if P i (b ! i) then (b ! i) \<lparr> timestamp := INVALID_TIMESTAMP \<rparr> else b ! i) [0..<n])) +
   length (filter (\<lambda>i. P i (b ! i) \<and> live_nbr (b ! i)) [0..<n]) = length (filter live_nbr (map ((!) b) [0..<n]))"
  by (induction n) (auto simp: live_nbr_def)

lemma mark_slot_count:
  assumes "slot_ok sl"
  shows "live_count (fst (mark_slot P sl)) + snd (mark_slot P sl) = live_count sl"
proof (cases "adj sl")
  case None
  then show ?thesis by (simp add: mark_slot_def)
next
  case (Some b)
  then have "degree sl \<le> length b" using assms by (simp add: slot_ok_def buffer_def)
  then show ?thesis using Some filter_mark_index [of P b "degree sl"] map_nth_take [of "degree sl" b "\<lambda>e. e"]
    by (simp add: mark_slot_def live_count_def entries_def buffer_def)
qed

lemma mark_slot_entries:
  assumes "slot_ok sl"
  shows "filter live_nbr (entries (fst (mark_slot (\<lambda>_. P) sl))) = filter (\<lambda>e. live_nbr e \<and> \<not> P e) (entries sl)"
proof (cases "adj sl")
  case None
  then show ?thesis by (simp add: mark_slot_def entries_def buffer_def)
next
  case (Some b)
  then have "degree sl \<le> length b" using assms by (simp add: slot_ok_def buffer_def)
  then show ?thesis
    using Some map_nth_take [of "degree sl" b "\<lambda>e. if P e then e \<lparr> timestamp := INVALID_TIMESTAMP \<rparr> else e"]
    by (simp add: mark_slot_def entries_def buffer_def filter_mark)
qed

lemma grow_slot_room:
  assumes "slot_ok sl"
  shows "slot_ok (grow_slot junk sl)" "degree (grow_slot junk sl) < length (buffer (grow_slot junk sl))"
    "entries (grow_slot junk sl) = entries sl" "degree (grow_slot junk sl) = degree sl"
proof -
  have l: "length (entries sl) = degree sl" using assms by (rule slot_okD)
  show "slot_ok (grow_slot junk sl)" "degree (grow_slot junk sl) < length (buffer (grow_slot junk sl))"
    "entries (grow_slot junk sl) = entries sl" "degree (grow_slot junk sl) = degree sl"
    using assms l by (auto simp: grow_slot_def slot_ok_def Let_def buffer_def entries_def [of "sl \<lparr> adj := x, cap := y \<rparr>" for x y])
qed

lemma append_slot_spec:
  assumes "slot_ok sl" "degree sl < length (buffer sl)"
  shows "\<exists>sl'. append_slot e sl = Inr sl' \<and> slot_ok sl' \<and> entries sl' = entries sl @ [e] \<and> degree sl' = Suc (degree sl) \<and>
    length (buffer sl') = length (buffer sl)"
  using assms by (auto simp: append_slot_def slot_ok_def entries_def buffer_def take_Suc_conv_app_nth)


lemma length_filter_update:
  "i < length xs \<Longrightarrow> length (filter P (xs[i := y])) + (if P (xs ! i) then 1 else 0) = length (filter P xs) + (if P y then 1 else 0)"
proof (induction xs arbitrary: i)
  case (Cons x xs)
  then show ?case by (cases i) auto
qed simp

section \<open>Every operation keeps the invariant\<close>

lemma csr_compact_ok:
  assumes "csr_inv s"
  shows "\<exists>s'. csr_compact s = Inr s' \<and> csr_inv s' \<and> slots s' = map compact_slot (slots s) \<and> csr_live s' = csr_live s \<and>
    unsorted_since s' = unsorted_since s"
proof -
  let ?c = "map compact_slot (slots s)"
  have ok: "\<And>sl. sl \<in> set (slots s) \<Longrightarrow> slot_ok sl" using assms by (simp add: csr_inv_def)
  have lc: "live_count (compact_slot sl) = live_count sl \<and> degree (compact_slot sl) = live_count sl" if "slot_ok sl" for sl
  proof -
    have "filter live_nbr (entries (compact_slot sl)) = entries (compact_slot sl)"
      unfolding compact_slot_entries(2) [OF that] by (auto simp: filter_id_conv)
    then show ?thesis using slot_okD(2) [OF compact_slot_entries(1) [OF that]] compact_slot_entries(2) [OF that]
      by (simp add: live_count_def)
  qed
  have z: "live_count sl = 0" if "slot_ok sl" "adj (compact_slot sl) = None" for sl
    using that compact_slot_entries(3) [OF that(1)] by (simp add: live_count_def entries_def buffer_def)
  have "sum_list (map degree (filter (\<lambda>sl. adj sl \<noteq> None) (map compact_slot xs))) = sum_list (map live_count xs)"
    if "\<forall>sl\<in>set xs. slot_ok sl" for xs
    using that by (induction xs) (auto simp: lc z)
  from this [of "slots s"] ok
  have "sum_list (map degree (filter (\<lambda>sl. adj sl \<noteq> None) ?c)) = sum_list (map live_count (slots s))" by blast
  then have "csr_compact s = Inr (s \<lparr> slots := ?c \<rparr>)"
    using assms inv_readable [OF assms] by (simp add: csr_compact_def csr_inv_def)
  moreover have "csr_inv (s \<lparr> slots := ?c \<rparr>)"
    using assms ok by (auto simp: csr_inv_def compact_slot_entries(1) lc comp_def cong: map_cong)
  moreover have "csr_live (s \<lparr> slots := ?c \<rparr>) = csr_live s"
    using ok by (auto simp: fun_eq_iff csr_live_def compact_slot_entries(2) filter_map comp_def)
  ultimately show ?thesis by auto
qed


lemma live_count_filter: "live_count sl = length (filter (\<lambda>e. live_nbr e \<and> P e) (entries sl)) + length (filter (\<lambda>e. live_nbr e \<and> \<not> P e) (entries sl))"
  unfolding live_count_def by (rule length_filter_split)

lemma clear_source_entries:
  assumes "slot_ok sl"
  shows "slot_ok (fst (clear_source S v sl))" "entries (fst (clear_source S v sl)) = (if v \<in> S then [] else entries sl)"
    "live_count (fst (clear_source S v sl)) + snd (clear_source S v sl) = live_count sl"
  using assms by (auto simp: clear_source_def slot_ok_def entries_def live_count_def buffer_def)

lemma batch_delete_vertices_ok:
  assumes "csr_inv s"
  shows "\<exists>s'. batch_delete_vertices S D s = Inr s' \<and> csr_inv s' \<and> length (slots s') = length (slots s) \<and>
    csr_live s' = without_vertices S D (csr_live s) \<and> unsorted_since s' = 0"
proof -
  let ?f = "\<lambda>v sl. fst (remove_targets D (fst (clear_source S v sl)))"
  let ?g = "\<lambda>v sl. snd (clear_source S v sl) + snd (remove_targets D (fst (clear_source S v sl)))"
  let ?first = "map_slots (clear_source S) s" let ?second = "map (remove_targets D \<circ> fst) ?first"
  define s' where "s' = s \<lparr> slots := map fst ?second, unsorted_since := 0,
          edge_num := edge_num s - of_nat (sum_list (map snd ?first)) - of_nat (sum_list (map snd ?second)) \<rparr>"
  have d: "batch_delete_vertices S D s = Inr s'" "unsorted_since s' = 0"
    using inv_readable [OF assms] by (simp_all add: batch_delete_vertices_def Let_def s'_def)
  have sl: "slots s' = map_slots ?f s" by (simp add: map_slots_def s'_def)
  have "edge_num s' = edge_num s - of_nat (sum_list (map snd ?first)) - of_nat (sum_list (map snd ?second))"
    by (simp add: s'_def)
  also have "\<dots> = edge_num s - of_nat (sum_list (map snd ?first) + sum_list (map snd ?second))"
    by (simp only: of_nat_add diff_diff_eq)
  also have "sum_list (map snd ?first) + sum_list (map snd ?second) = sum_list (map_slots ?g s)"
    by (simp add: map_slots_def comp_def sum_list_addf)
  finally have e: "edge_num s' = edge_num s - of_nat (sum_list (map_slots ?g s))" .
  have step: "slot_ok (?f v sl) \<and> live_count (?f v sl) + ?g v sl = live_count sl" if "slot_ok sl" for v sl
  proof -
    note c = clear_source_entries [OF that, of S v]
    note r = remove_targets_entries [OF c(1), of D]
    have "live_count (?f v sl) + snd (remove_targets D (fst (clear_source S v sl))) = live_count (fst (clear_source S v sl))"
      using live_count_filter [of "fst (clear_source S v sl)" "\<lambda>e. neighbor e \<notin> D"]
      by (simp add: live_count_def [of "?f v sl"] r conj_commute)
    then show ?thesis using c(3) r(1) by simp
  qed
  have i: "csr_inv s'" by (rule inv_slotwise [OF assms sl e]) (rule step)
  have "csr_live s' v = without_vertices S D (csr_live s) v" for v
  proof (cases "v < length (slots s)")
    case True
    have "entries (?f v (slots s ! v)) = (if v \<in> S then [] else filter (\<lambda>e. neighbor e \<notin> D) (entries (slots s ! v)))"
      using csr_inv_slot [OF assms True] by (simp add: remove_targets_entries clear_source_entries)
    then show ?thesis
      using True by (simp add: csr_live_def sl without_vertices_def filter_map comp_def medge_def conj_commute)
  next
    case False
    then show ?thesis by (simp add: csr_live_def sl without_vertices_def)
  qed
  then have "csr_live s' = without_vertices S D (csr_live s)" by blast
  with d i sl show ?thesis by simp
qed

lemma batch_mark_inv:
  assumes "csr_inv s"
  shows "csr_inv (batch_mark P s)" "length (slots (batch_mark P s)) = length (slots s)" "unsorted_since (batch_mark P s) = 0"
    "v < length (slots s) \<Longrightarrow> slots (batch_mark P s) ! v = fst (mark_slot (P v) (slots s ! v))"
proof -
  have sl: "slots (batch_mark P s) = map_slots (\<lambda>v sl. fst (mark_slot (P v) sl)) s"
    and e: "edge_num (batch_mark P s) = edge_num s - of_nat (sum_list (map_slots (\<lambda>v sl. snd (mark_slot (P v) sl)) s))"
    by (simp_all add: batch_mark_def Let_def map_slots_def comp_def)
  show "csr_inv (batch_mark P s)"
    by (rule inv_slotwise [OF assms sl e]) (simp add: mark_slot_ok mark_slot_count)
  show "length (slots (batch_mark P s)) = length (slots s)" "unsorted_since (batch_mark P s) = 0"
    "v < length (slots s) \<Longrightarrow> slots (batch_mark P s) ! v = fst (mark_slot (P v) (slots s ! v))"
    by (simp_all add: sl) (simp add: batch_mark_def Let_def)
qed

lemma batch_delete_edges_ok:
  assumes "csr_inv s" "length srcs = length dsts"
  shows "\<exists>s'. batch_delete_edges srcs dsts s = Inr s' \<and> csr_inv s' \<and> length (slots s') = length (slots s) \<and>
    csr_live s' = without_pairs (set (zip srcs dsts)) (csr_live s) \<and> unsorted_since s' = 0"
proof -
  let ?P = "\<lambda>v e. (v, neighbor e) \<in> set (zip srcs dsts)"
  let ?s' = "batch_mark (\<lambda>v i e. ?P v e) s"
  have "batch_delete_edges srcs dsts s = Inr ?s'" using assms inv_readable by (simp add: batch_delete_edges_def)
  moreover have "csr_live ?s' = without_pairs (set (zip srcs dsts)) (csr_live s)"
    using batch_mark_inv(2,4) [OF assms(1)] mark_slot_entries [OF csr_inv_slot [OF assms(1)]]
    by (auto simp: fun_eq_iff csr_live_def without_pairs_def filter_map comp_def medge_def conj_commute)
  ultimately show ?thesis using batch_mark_inv(1-3) [OF assms(1)] by blast
qed


text \<open>An operation on one slot.\<close>

lemma inv_update:
  assumes "csr_inv s" "v < length (slots s)" "slot_ok sl" "slots s' = (slots s)[v := sl]"
    "edge_num s' = edge_num s + of_nat (live_count sl) - of_nat (live_count (slots s ! v))"
  shows "csr_inv s'"
proof -
  have "map live_count (slots s') = (map live_count (slots s))[v := live_count sl]" by (simp add: assms(4) map_update)
  then have "edge_num s' = of_nat (sum_list (map live_count (slots s')))"
    using word_of_sum_update [of v "map live_count (slots s)" "live_count sl"] assms(1,2,5) by (simp add: csr_inv_def)
  moreover have "\<forall>x\<in>set (slots s'). slot_ok x"
    using assms(1,3) by (auto simp: assms(4) csr_inv_def dest: subsetD [OF set_update_subset_insert])
  ultimately show ?thesis by (simp add: csr_inv_def)
qed

lemma put_edge_ok:
  assumes "csr_inv s" "src < vertex_capacity s" "ts \<noteq> INVALID_TIMESTAMP"
  shows "\<exists>s'. put_edge junk src dst d ts s = Inr (degree (slots s ! src), s') \<and> csr_inv s' \<and>
    length (slots s') = length (slots s) \<and>
    (\<forall>v<length (slots s). entries (slots s' ! v) = entries (slots s ! v) @
       (if v = src then [\<lparr> neighbor = dst, timestamp = ts, edata = d \<rparr>] else [])) \<and>
    unsorted_since s' = (if ts < unsorted_since s then 0 else unsorted_since s)"
proof -
  let ?e = "\<lparr> neighbor = dst, timestamp = ts, edata = d \<rparr>" let ?g = "grow_slot junk (slots s ! src)"
  have v: "src < length (slots s)" using assms(2) by (simp add: vertex_capacity_def)
  note g = grow_slot_room [OF csr_inv_slot [OF assms(1) v], of junk]
  obtain sl where a: "append_slot ?e ?g = Inr sl" "slot_ok sl" "entries sl = entries (slots s ! src) @ [?e]"
    using append_slot_spec [OF g(1,2), of ?e] g(3) by auto
  define s' where "s' = s \<lparr> slots := (slots s)[src := sl], edge_num := edge_num s + 1,
            unsorted_since := (if ts < unsorted_since s then 0 else unsorted_since s) \<rparr>"
  have "put_edge junk src dst d ts s = Inr (degree (slots s ! src), s')"
    using assms(2) a(1) g(4) by (simp add: put_edge_def s'_def)
  moreover have "csr_inv s'"
    by (rule inv_update [OF assms(1) v a(2)])
      (use assms(3) in \<open>simp_all add: s'_def live_count_def a(3) live_nbr_def\<close>)
  ultimately show ?thesis using a(3) v by (auto simp: s'_def nth_list_update)
qed

lemma put_edge_range: "src \<ge> vertex_capacity s \<Longrightarrow> put_edge junk src dst d ts s = Inl InvalidArgument"
  by (simp add: put_edge_def)

lemma entry_at_ok:
  assumes "csr_inv s" "0 \<le> offset"
  shows "entry_at src offset s =
    (if src < vertex_capacity s \<and> nat offset < degree (slots s ! src)
     then Inr (entries (slots s ! src) ! nat offset) else Inl InvalidArgument)"
proof (cases "src < vertex_capacity s")
  case True
  then have "slot_ok (slots s ! src)" using csr_inv_slot [OF assms(1)] by (simp add: vertex_capacity_def)
  then show ?thesis using assms(2) True
    by (cases "adj (slots s ! src)") (auto simp: entry_at_def slot_ok_def buffer_def entries_def)
qed (simp add: entry_at_def)

lemma set_timestamp_ok:
  assumes "csr_inv s" "src < length (slots s)" "i < degree (slots s ! src)"
    "edge_num s' = edge_num s + (if t = INVALID_TIMESTAMP then 0 else 1) - (if live_nbr (entries (slots s ! src) ! i) then 1 else 0)"
    "slots s' = slots (set_timestamp src (int i) t s)"
  shows "csr_inv s'" "length (slots s') = length (slots s)"
    "v < length (slots s) \<Longrightarrow> entries (slots s' ! v) =
      (if v = src then (entries (slots s ! v))[i := (entries (slots s ! v) ! i) \<lparr> timestamp := t \<rparr>] else entries (slots s ! v))"
proof -
  let ?sl = "slots s ! src" let ?b = "buffer ?sl"
  let ?new = "?sl \<lparr> adj := Some (?b[i := (?b ! i) \<lparr> timestamp := t \<rparr>]) \<rparr>"
  note ok = csr_inv_slot [OF assms(1,2)]
  have sl: "slots s' = (slots s)[src := ?new]" by (simp add: assms(5) set_timestamp_def Let_def)
  have b: "i < length ?b" using ok assms(3) by (simp add: slot_ok_def)
  have n: "slot_ok ?new" using ok by (simp add: slot_ok_def buffer_def)
  have e: "entries ?new = (entries ?sl)[i := (entries ?sl ! i) \<lparr> timestamp := t \<rparr>]"
    using assms(3) by (simp add: entries_def buffer_def [of ?new] take_update_swap)
  have i: "i < length (entries ?sl)" using slot_okD(2) [OF ok] assms(3) by simp
  define p q :: nat where "p = (if live_nbr (entries ?sl ! i) then 1 else 0)" and "q = (if t = INVALID_TIMESTAMP then 0 else 1)"
  have "live_count ?new + p = live_count ?sl + q"
    using length_filter_update [OF i, of live_nbr "(entries ?sl ! i) \<lparr> timestamp := t \<rparr>"]
    unfolding live_count_def e p_def q_def by simp
  from arg_cong [OF this, of "of_nat :: nat \<Rightarrow> u64"]
  have w: "of_nat (live_count ?new) = of_nat (live_count ?sl) + of_nat q - (of_nat p :: u64)" by (simp add: algebra_simps)
  have "edge_num s' = edge_num s + of_nat q - of_nat p" using assms(4) by (simp add: p_def q_def)
  then show "csr_inv s'" by (intro inv_update [OF assms(1,2) n sl]) (simp add: w)
  show "length (slots s') = length (slots s)" by (simp add: sl)
  show "v < length (slots s) \<Longrightarrow> entries (slots s' ! v) =
      (if v = src then (entries (slots s ! v))[i := (entries (slots s ! v) ! i) \<lparr> timestamp := t \<rparr>] else entries (slots s ! v))"
    using e assms(2) by (simp add: sl nth_list_update)
qed


definition retimed :: "nat \<Rightarrow> nat \<Rightarrow> nat \<Rightarrow> 'd MutableCsr \<Rightarrow> 'd MutableCsr \<Rightarrow> bool" where
  "retimed src i t s s' \<longleftrightarrow> length (slots s') = length (slots s) \<and>
     (\<forall>v<length (slots s). entries (slots s' ! v) =
        (if v = src then (entries (slots s ! v))[i := (entries (slots s ! v) ! i) \<lparr> timestamp := t \<rparr>] else entries (slots s ! v)))"

lemma delete_edge_ok:
  assumes "csr_inv s" "src < vertex_capacity s" "i < degree (slots s ! src)" "ts < INVALID_TIMESTAMP"
  shows "\<exists>s'. delete_edge src (int i) ts s = Inr s' \<and> csr_inv s' \<and>
    (if timestamp (entries (slots s ! src) ! i) \<le> ts then retimed src i INVALID_TIMESTAMP s s' \<and> unsorted_since s' = 0 else s' = s)"
proof (cases "timestamp (entries (slots s ! src) ! i) \<le> ts")
  case True
  let ?s1 = "set_timestamp src (int i) INVALID_TIMESTAMP s"
  let ?s' = "?s1 \<lparr> edge_num := edge_num s - 1, unsorted_since := 0 \<rparr>"
  have l: "live_nbr (entries (slots s ! src) ! i)" using True assms(4) by (simp add: live_nbr_def)
  have v: "src < length (slots s)" using assms(2) by (simp add: vertex_capacity_def)
  have "edge_num ?s' = edge_num s + (if INVALID_TIMESTAMP = INVALID_TIMESTAMP then 0 else 1) -
      (if live_nbr (entries (slots s ! src) ! i) then 1 else 0)" using l by simp
  note t = set_timestamp_ok [OF assms(1) v assms(3) this]
  have "delete_edge src (int i) ts s = Inr ?s'"
    using True assms(2,3) by (simp add: delete_edge_def entry_at_ok [OF assms(1)] Let_def)
  then show ?thesis using t True by (simp add: retimed_def)
next
  case False
  then show ?thesis using assms by (simp add: delete_edge_def entry_at_ok [OF assms(1)])
qed

lemma revert_delete_edge_ok:
  assumes "csr_inv s" "src < vertex_capacity s" "i < degree (slots s ! src)" "ts < INVALID_TIMESTAMP"
    "neighbor (entries (slots s ! src) ! i) = nbr" "\<not> live_nbr (entries (slots s ! src) ! i)"
  shows "\<exists>s'. revert_delete_edge src nbr (int i) ts s = Inr s' \<and> csr_inv s' \<and> retimed src i ts s s' \<and>
    unsorted_since s' = unsorted_since s"
proof -
  let ?s1 = "set_timestamp src (int i) ts s" let ?s' = "?s1 \<lparr> edge_num := edge_num s + 1 \<rparr>"
  have v: "src < length (slots s)" using assms(2) by (simp add: vertex_capacity_def)
  have "edge_num ?s' = edge_num s + (if ts = INVALID_TIMESTAMP then 0 else 1) -
      (if live_nbr (entries (slots s ! src) ! i) then 1 else 0)" using assms(4,6) by simp
  note t = set_timestamp_ok [OF assms(1) v assms(3) this]
  have "revert_delete_edge src nbr (int i) ts s = Inr ?s'"
    using assms(2,3,5,6) by (simp add: revert_delete_edge_def entry_at_ok [OF assms(1)] live_nbr_def Let_def)
  then show ?thesis using t by (simp add: retimed_def set_timestamp_def Let_def)
qed

section \<open>Batch insertion\<close>

definition new_nbr :: "nat \<Rightarrow> 'd edge \<Rightarrow> 'd MutableNbr" where
  "new_nbr ts e = \<lparr> neighbor = fst e, timestamp = ts, edata = snd e \<rparr>"

lemma added_at_simps [simp]: "added_at [] v = 0" "added_at (x # xs) v = (if x = v then Suc (added_at xs v) else added_at xs v)"
  by (simp_all add: added_at_def)

lemma added_at_map: "added_at (map fst es) v = length (filter (\<lambda>e. fst e = v) es)"
  by (simp add: added_at_def filter_map comp_def)

lemma put_loop_ok:
  assumes "\<forall>sl\<in>set sls. slot_ok sl"
    "\<forall>v<length sls. degree (sls ! v) + added_at (map fst es) v \<le> length (buffer (sls ! v))"
  shows "\<exists>sls'. put_loop ts es sls = Inr sls' \<and> length sls' = length sls \<and> (\<forall>sl\<in>set sls'. slot_ok sl) \<and>
    (\<forall>v<length sls. entries (sls' ! v) = entries (sls ! v) @ map (new_nbr ts \<circ> snd) (filter (\<lambda>e. fst e = v) es))"
  using assms
proof (induction es arbitrary: sls)
  case (Cons x es)
  obtain src dst d where x: "x = (src, dst, d)" by (metis prod_cases3)
  show ?case
  proof (cases "src < length sls")
    case True
    have room: "degree (sls ! src) < length (buffer (sls ! src))"
      using Cons.prems(2) [rule_format, OF True] by (simp add: x)
    have ok: "slot_ok (sls ! src)" using Cons.prems(1) True by simp
    obtain sl where a: "append_slot (new_nbr ts (dst, d)) (sls ! src) = Inr sl" "slot_ok sl"
      "entries sl = entries (sls ! src) @ [new_nbr ts (dst, d)]" "degree sl = Suc (degree (sls ! src))"
      "length (buffer sl) = length (buffer (sls ! src))"
      using append_slot_spec [OF ok room] by blast
    have p1: "\<forall>y\<in>set (sls[src := sl]). slot_ok y"
      using Cons.prems(1) a(2) by (auto dest: subsetD [OF set_update_subset_insert])
    have p2: "\<forall>v<length (sls[src := sl]). degree (sls[src := sl] ! v) + added_at (map fst es) v \<le> length (buffer (sls[src := sl] ! v))"
    proof (intro allI impI)
      fix v assume "v < length (sls[src := sl])"
      then show "degree (sls[src := sl] ! v) + added_at (map fst es) v \<le> length (buffer (sls[src := sl] ! v))"
        using Cons.prems(2) [rule_format, of v] a(4,5) by (cases "v = src") (simp_all add: x)
    qed
    from Cons.IH [OF p1 p2] obtain sls' where r: "put_loop ts es (sls[src := sl]) = Inr sls'" "length sls' = length sls"
      "\<forall>sl\<in>set sls'. slot_ok sl"
      "\<forall>v<length sls. entries (sls' ! v) = entries (sls[src := sl] ! v) @ map (new_nbr ts \<circ> snd) (filter (\<lambda>e. fst e = v) es)"
      by auto
    have "put_loop ts (x # es) sls = Inr sls'" using True a(1) r(1) by (simp add: x new_nbr_def)
    moreover have "\<forall>v<length sls. entries (sls' ! v) = entries (sls ! v) @ map (new_nbr ts \<circ> snd) (filter (\<lambda>e. fst e = v) (x # es))"
      using r(4) a(3) True by (auto simp: x nth_list_update)
    ultimately show ?thesis using r(2,3) by blast
  next
    case False
    have p: "\<forall>v<length sls. degree (sls ! v) + added_at (map fst es) v \<le> length (buffer (sls ! v))"
      using Cons.prems(2) False by (auto simp: x)
    from Cons.IH [OF Cons.prems(1) p] show ?thesis using False by (auto simp: x)
  qed
qed auto

lemma move_slot_ok:
  assumes "slot_ok sl" "added + degree sl \<le> reserve (added + degree sl)" "allocated \<or> reserve (added + degree sl) = 0"
  shows "slot_ok (move_slot reserve junk allocated added sl)" "entries (move_slot reserve junk allocated added sl) = entries sl"
    "degree (move_slot reserve junk allocated added sl) = degree sl"
    "degree sl + added \<le> length (buffer (move_slot reserve junk allocated added sl))"
  using assms slot_okD(2) [OF assms(1)]
  by (auto simp: move_slot_def Let_def slot_ok_def buffer_def entries_def [of "sl \<lparr> adj := x, cap := y \<rparr>" for x y])

lemma sum_added: "sum_list (map (added_at srcs) [0..<n]) = length (filter (\<lambda>v. v < n) srcs)"
proof (induction srcs)
  case (Cons x srcs)
  have "sum_list (map (\<lambda>v. if x = v then 1 else 0) [0..<n]) = (if x < n then 1 else (0 :: nat))"
    by (induction n) auto
  moreover have "map (added_at (x # srcs)) [0..<n] = map (\<lambda>v. (if x = v then 1 else 0) + added_at srcs v) [0..<n]" by simp
  then have "sum_list (map (added_at (x # srcs)) [0..<n]) = sum_list (map (\<lambda>v. if x = v then 1 else 0) [0..<n]) + sum_list (map (added_at srcs) [0..<n])"
    by (simp only: sum_list_addf)
  ultimately show ?case using Cons by (simp del: added_at_simps)
qed simp


lemma inv_grow:
  assumes "csr_inv s" "length (slots s') = length (slots s)" "\<forall>sl\<in>set (slots s'). slot_ok sl"
    "edge_num s' = edge_num s + of_nat (sum_list (map g [0..<length (slots s)]))"
    "\<forall>v<length (slots s). live_count (slots s' ! v) = live_count (slots s ! v) + g v"
  shows "csr_inv s'"
proof -
  have "map live_count (slots s') = map (\<lambda>v. live_count (slots s ! v) + g v) [0..<length (slots s)]"
    using assms(2,5) by (intro nth_equalityI) auto
  then have "sum_list (map live_count (slots s')) =
      sum_list (map (\<lambda>v. live_count (slots s ! v)) [0..<length (slots s)]) + sum_list (map g [0..<length (slots s)])"
    by (simp only: sum_list_addf)
  also have "map (\<lambda>v. live_count (slots s ! v)) [0..<length (slots s)] = map live_count (slots s)"
    by (rule nth_equalityI) auto
  finally show ?thesis using assms(1,3,4) by (simp add: csr_inv_def)
qed

lemma batch_put_edges_ok:
  assumes "csr_inv s" "length dsts = length srcs" "length datas = length srcs" "ts \<noteq> INVALID_TIMESTAMP" "\<forall>n. n \<le> reserve n"
  shows "\<exists>s'. batch_put_edges reserve junk srcs dsts datas ts s = Inr s' \<and> csr_inv s' \<and> length (slots s') = length (slots s) \<and>
    (\<forall>v<length (slots s). entries (slots s' ! v) = entries (slots s ! v) @
       map (new_nbr ts \<circ> snd) (filter (\<lambda>e. fst e = v) (zip srcs (zip dsts datas)))) \<and>
    unsorted_since s' = (if ts < unsorted_since s \<and> vertex_capacity s \<noteq> 0 then 0 else unsorted_since s)"
proof (cases "vertex_capacity s = 0")
  case True
  then show ?thesis using assms(1) by (simp add: batch_put_edges_def vertex_capacity_def)
next
  case False
  let ?es = "zip srcs (zip dsts datas)"
  define total where "total = sum_list (map_slots (\<lambda>v sl. reserve (added_at srcs v + degree sl)) s)"
  define moved where "moved = map_slots (\<lambda>v. move_slot reserve junk (total > 0) (added_at srcs v)) s"
  have f: "map fst ?es = srcs" using assms(2,3) by simp
  have alloc: "total > 0 \<or> reserve (added_at srcs v + degree (slots s ! v)) = 0" if "v < length (slots s)" for v
  proof -
    have "reserve (added_at srcs v + degree (slots s ! v)) \<in> set (map_slots (\<lambda>v sl. reserve (added_at srcs v + degree sl)) s)"
      using that by (auto simp: set_map_slots)
    then show ?thesis using member_le_sum_list by (fastforce simp: total_def)
  qed
  have m: "slot_ok (moved ! v)" "entries (moved ! v) = entries (slots s ! v)" "degree (moved ! v) = degree (slots s ! v)"
    "degree (moved ! v) + added_at srcs v \<le> length (buffer (moved ! v))" if "v < length (slots s)" for v
    using move_slot_ok [where reserve = reserve and junk = junk and added = "added_at srcs v", OF csr_inv_slot [OF assms(1) that]
        assms(5) [rule_format] alloc [OF that]] that by (simp_all add: moved_def)
  have l: "length moved = length (slots s)" by (simp add: moved_def)
  have p1: "\<forall>sl\<in>set moved. slot_ok sl" using m(1) l by (auto simp: in_set_conv_nth)
  have p2: "\<forall>v<length moved. degree (moved ! v) + added_at (map fst ?es) v \<le> length (buffer (moved ! v))"
    using m(4) l unfolding f by simp
  from put_loop_ok [OF p1 p2, of ts] obtain sls where r: "put_loop ts ?es moved = Inr sls" "length sls = length (slots s)"
    "\<forall>sl\<in>set sls. slot_ok sl"
    "\<forall>v<length (slots s). entries (sls ! v) = entries (slots s ! v) @ map (new_nbr ts \<circ> snd) (filter (\<lambda>e. fst e = v) ?es)"
    using l m(2) by auto
  define s' where "s' = s \<lparr> slots := sls,
    edge_num := edge_num s + of_nat (length (filter (\<lambda>v. v < vertex_capacity s) srcs)),
    unsorted_since := (if ts < unsorted_since s then 0 else unsorted_since s) \<rparr>"
  have "batch_put_edges reserve junk srcs dsts datas ts s = Inr s'"
    using False inv_readable [OF assms(1)] assms(2,3) r(1) by (simp add: batch_put_edges_def Let_def s'_def moved_def total_def)
  moreover have "csr_inv s'"
  proof (rule inv_grow [OF assms(1), of _ "added_at srcs"])
    have "live_count (sls ! v) = live_count (slots s ! v) + length (filter (\<lambda>e. fst e = v) ?es)" if "v < length (slots s)" for v
      using r(4) that assms(4) by (simp add: live_count_def new_nbr_def live_nbr_def comp_def filter_map)
    moreover have "length (filter (\<lambda>e. fst e = v) ?es) = added_at srcs v" for v
      using added_at_map [of ?es v] unfolding f by simp
    ultimately show "\<forall>v<length (slots s). live_count (slots s' ! v) = live_count (slots s ! v) + added_at srcs v"
      by (simp add: s'_def)
  qed (use r in \<open>simp_all add: s'_def sum_added vertex_capacity_def\<close>)
  ultimately show ?thesis using r(2,4) False by (auto simp: s'_def)
qed


section \<open>Resizing, detaching, sorting\<close>

lemma empty_slot [simp]: "live_count \<lparr> adj = None, degree = 0, cap = 0 \<rparr> = 0" "slot_ok \<lparr> adj = None, degree = 0, cap = 0 \<rparr>"
    "entries \<lparr> adj = None, degree = 0, cap = 0 \<rparr> = []"
  by (simp_all add: live_count_def entries_def slot_ok_def buffer_def)

lemma csr_resize_ok:
  assumes "csr_inv s" "\<forall>sl\<in>set (drop n (slots s)). live_count sl = 0"
  shows "csr_inv (csr_resize n s)" "length (slots (csr_resize n s)) = n" "csr_live (csr_resize n s) = csr_live s"
    "unsorted_since (csr_resize n s) = unsorted_since s"
proof -
  have "sum_list (map live_count (drop n (slots s))) = 0" using assms(2) by (simp add: sum_list_eq_0_iff)
  then have t: "sum_list (map live_count (slots s)) = sum_list (map live_count (take n (slots s)))"
    by (metis add.right_neutral append_take_drop_id map_append sum_list_append)
  have ok: "\<And>sl. sl \<in> set (slots s) \<Longrightarrow> slot_ok sl" using assms(1) by (simp add: csr_inv_def)
  show "csr_inv (csr_resize n s)"
  proof (cases "n > vertex_capacity s")
    case True
    then show ?thesis using assms(1) by (auto simp: csr_inv_def csr_resize_def sum_list_replicate)
  next
    case False
    then show ?thesis using assms(1) t ok by (auto simp: csr_inv_def csr_resize_def dest: in_set_takeD)
  qed
  show "length (slots (csr_resize n s)) = n" by (simp add: csr_resize_def vertex_capacity_def)
  show "unsorted_since (csr_resize n s) = unsorted_since s" by (simp add: csr_resize_def)
  have o: "csr_live s v = []" if "n \<le> v" for v
  proof (cases "v < length (slots s)")
    case True
    then have "drop n (slots s) ! (v - n) = slots s ! v" "v - n < length (drop n (slots s))" using that by auto
    then have "slots s ! v \<in> set (drop n (slots s))" by (metis nth_mem)
    then show ?thesis using assms(2) by (simp add: csr_live_def live_count_def)
  qed (simp add: csr_live_def)
  show "csr_live (csr_resize n s) = csr_live s"
  proof
    fix v
    show "csr_live (csr_resize n s) v = csr_live s v"
    proof (cases "n \<le> v")
      case True
      then show ?thesis using o [OF True] by (simp add: csr_live_def csr_resize_def vertex_capacity_def)
    next
      case False
      then show ?thesis by (auto simp: csr_live_def csr_resize_def vertex_capacity_def nth_append)
    qed
  qed
qed

lemma DetachVertex_ok:
  assumes "csr_inv s" "v < vertex_capacity s"
  shows "\<exists>s'. DetachVertex junk v s = Inr s' \<and> csr_inv s' \<and> map entries (slots s') = map entries (slots s) \<and>
    unsorted_since s' = unsorted_since s"
proof -
  let ?sl = "slots s ! v" let ?n = "?sl \<lparr> adj := Some (entries ?sl @ replicate (cap ?sl - degree ?sl) junk) \<rparr>"
  have v: "v < length (slots s)" using assms(2) by (simp add: vertex_capacity_def)
  note ok = csr_inv_slot [OF assms(1) v]
  have n: "slot_ok ?n" "entries ?n = entries ?sl"
    using slot_okD(2) [OF ok] ok by (simp_all add: slot_ok_def)
  then have "live_count ?n = live_count ?sl" by (simp add: live_count_def)
  then have "csr_inv (s \<lparr> slots := (slots s)[v := ?n] \<rparr>)" by (intro inv_update [OF assms(1) v n(1)]) simp_all
  moreover have "map entries ((slots s)[v := ?n]) = map entries (slots s)" using v n(2) by (simp add: map_update list_update_same_conv)
  ultimately show ?thesis using assms ok by (auto simp: DetachVertex_def Let_def slot_ok_def)
qed

definition sorts :: "('d :: linorder MutableNbr list \<Rightarrow> 'd MutableNbr list) \<Rightarrow> bool" where
  "sorts srt \<longleftrightarrow> (\<forall>xs. mset (srt xs) = mset xs \<and> sorted (map edata (srt xs)))"

lemma sorts_witness: "sorts (sort_key edata)" by (simp add: sorts_def)

lemma sort_slot_ok:
  assumes "slot_ok sl" "sorts srt"
  shows "slot_ok (sort_slot srt sl)" "mset (entries (sort_slot srt sl)) = mset (entries sl)" "sorted (map edata (entries (sort_slot srt sl)))"
    "live_count (sort_slot srt sl) = live_count sl"
proof -
  have p: "mset (srt xs) = mset xs" "sorted (map edata (srt xs))" "length (srt xs) = length xs" for xs
    using assms(2) by (auto simp: sorts_def dest: mset_eq_length)
  show "slot_ok (sort_slot srt sl)" "sorted (map edata (entries (sort_slot srt sl)))"
    and m: "mset (entries (sort_slot srt sl)) = mset (entries sl)"
    using assms(1) by (auto simp: slot_ok_def sort_slot_def entries_def buffer_def p split: option.splits)
  then show "live_count (sort_slot srt sl) = live_count sl"
    unfolding live_count_def by (metis mset_filter size_mset)
qed

lemma batch_sort_ok:
  assumes "csr_inv s" "sorts srt"
  shows "\<exists>s'. batch_sort_by_edge_data srt ts s = Inr s' \<and> csr_inv s' \<and> slots s' = map (sort_slot srt) (slots s) \<and> unsorted_since s' = ts"
proof -
  have c: "map (live_count \<circ> sort_slot srt) (slots s) = map live_count (slots s)"
    using assms by (simp add: csr_inv_def sort_slot_ok(4))
  have "csr_inv (s \<lparr> slots := map (sort_slot srt) (slots s), unsorted_since := ts \<rparr>)"
    using assms by (auto simp: csr_inv_def sort_slot_ok(1) c)
  then show ?thesis using inv_readable [OF assms(1)] by (simp add: batch_sort_by_edge_data_def)
qed

lemma batch_export_ok:
  assumes "csr_inv s"
  shows "batch_export s = (let es = concat (map (\<lambda>v. map (Pair v) (csr_live s v)) [0..<vertex_capacity s]) in
    Inr (map fst es, map (fst \<circ> snd) es, map (snd \<circ> snd) es))"
proof -
  let ?es = "concat (map_slots (\<lambda>v sl. map (Pair v) (filter live_nbr (entries sl))) s)"
  have "concat (map (\<lambda>v. map (Pair v) (csr_live s v)) [0..<vertex_capacity s]) = map (apsnd medge) ?es"
    by (auto simp: map_slots_def vertex_capacity_def csr_live_def map_concat comp_def intro!: arg_cong [of _ _ concat])
  then show ?thesis using inv_readable [OF assms] by (simp add: batch_export_def Let_def medge_def comp_def)
qed


section \<open>The contract\<close>

lemma csr_live_entries:
  assumes "length (slots s') = length (slots s)" "\<forall>v<length (slots s). entries (slots s' ! v) = entries (slots s ! v) @ f v"
  shows "csr_live s' = (\<lambda>v. csr_live s v @ (if v < length (slots s) then map medge (filter live_nbr (f v)) else []))"
  using assms by (auto simp: csr_live_def fun_eq_iff)

definition put_all :: "(nat \<Rightarrow> nat) \<Rightarrow> 'd MutableNbr \<Rightarrow> (nat \<times> 'd edge) list \<Rightarrow> nat \<Rightarrow> 'd MutableCsr \<Rightarrow> 'd MutableCsr res" where
  "put_all reserve junk es ts s =
     batch_put_edges reserve junk (map fst es) (map (fst \<circ> snd) es) (map (snd \<circ> snd) es) ts s"

lemma zip_parts: "zip (map fst es) (zip (map (fst \<circ> snd) es) (map (snd \<circ> snd) es)) = es"
  by (induction es) auto

lemma put_all_ok:
  assumes "csr_inv s" "ts < INVALID_TIMESTAMP" "\<forall>n. n \<le> reserve n"
  shows "\<exists>s'. put_all reserve junk es ts s = Inr s' \<and> csr_inv s' \<and> vertex_capacity s' = vertex_capacity s \<and>
    csr_live s' = with_edges (vertex_capacity s) es (csr_live s)"
proof -
  obtain s' where s': "put_all reserve junk es ts s = Inr s'" "csr_inv s'" "length (slots s') = length (slots s)"
    "\<forall>v<length (slots s). entries (slots s' ! v) = entries (slots s ! v) @ map (new_nbr ts \<circ> snd) (filter (\<lambda>e. fst e = v) es)"
    using batch_put_edges_ok [OF assms(1), of "map (fst \<circ> snd) es" "map fst es" "map (snd \<circ> snd) es" ts reserve junk] assms(2,3)
    unfolding put_all_def zip_parts by auto
  have "map medge (filter live_nbr (map (new_nbr ts \<circ> snd) xs)) = map snd xs" for xs :: "(nat \<times> 'a edge) list"
    using assms(2) by (induction xs) (auto simp: medge_def new_nbr_def live_nbr_def)
  then have "csr_live s' = with_edges (vertex_capacity s) es (csr_live s)"
    unfolding csr_live_entries [OF s'(3,4)] by (auto simp: with_edges_def vertex_capacity_def)
  with s'(1-3) show ?thesis by (auto simp: vertex_capacity_def)
qed

interpretation mutable_csr: csr_deletes csr_inv vertex_capacity csr_live edge_num batch_delete_vertices batch_delete_edges csr_compact
proof unfold_locales
  fix s :: "'a MutableCsr" and v
  assume i: "csr_inv s"
  show "csr_live s v = []" if "vertex_capacity s \<le> v" using that by (simp add: csr_live_def vertex_capacity_def)
  show "edge_num s = of_nat (edge_total (vertex_capacity s) (csr_live s))"
    using i by (simp add: csr_inv_def live_count_total vertex_capacity_def)
  show "\<exists>s'. batch_delete_vertices S D s = Inr s' \<and> csr_inv s' \<and> vertex_capacity s' = vertex_capacity s \<and>
      csr_live s' = without_vertices S D (csr_live s)" for S D
    using batch_delete_vertices_ok [OF i] by (auto simp: vertex_capacity_def)
  show "\<exists>s'. batch_delete_edges srcs dsts s = Inr s' \<and> csr_inv s' \<and> vertex_capacity s' = vertex_capacity s \<and>
      csr_live s' = without_pairs (set (zip srcs dsts)) (csr_live s)" if "length srcs = length dsts" for srcs dsts
    using batch_delete_edges_ok [OF i that] by (auto simp: vertex_capacity_def)
  show "\<exists>s'. csr_compact s = Inr s' \<and> csr_inv s' \<and> vertex_capacity s' = vertex_capacity s \<and> csr_live s' = csr_live s"
    using csr_compact_ok [OF i] by (auto simp: vertex_capacity_def)
qed

text \<open>The exact value of the reserve ratio 1.2; the float product of the code may round up further.\<close>

definition reserve_ratio :: "nat \<Rightarrow> nat" where "reserve_ratio n = (6 * n + 4) div 5"

lemma reserve_ratio_enough: "\<forall>n. n \<le> reserve_ratio n" by (auto simp: reserve_ratio_def)

interpretation mutable_store: csr_store csr_inv vertex_capacity csr_live edge_num batch_delete_vertices batch_delete_edges csr_compact
  "put_all reserve_ratio junk" for junk
  by unfold_locales (rule put_all_ok [OF _ _ reserve_ratio_enough])

end
