(* ===== verification/Csr_View.thy ===== *)
theory Csr_View
  imports Mutable_Csr
begin

text \<open>
  Reading adjacency lists (\<open>include/neug/storages/csr/csr_view.h\<close>): the iterator that skips entries
  newer than the view, and the range scans \<open>foreach_nbr_gt\<close> and \<open>foreach_nbr_lt\<close>, which read the
  entries backwards and stop early in the part sorted by edge data. The scans are right because of
  how \<open>unsorted_since\<close> is kept by the store and set by \<open>EdgeTable::Compact\<close>.
\<close>

section \<open>The iterator\<close>

text \<open>The iterator as the entries from its position to the end of the list.\<close>

fun skip_newer :: "nat \<Rightarrow> 'd MutableNbr list \<Rightarrow> 'd MutableNbr list" where
  "skip_newer ts [] = []"
| "skip_newer ts (e # es) = (if timestamp e > ts then skip_newer ts es else e # es)"

definition iter_begin :: "nat \<Rightarrow> 'd MutableNbr list \<Rightarrow> 'd MutableNbr list" where
  "iter_begin ts es = skip_newer ts es"

definition iter_next :: "nat \<Rightarrow> 'd MutableNbr list \<Rightarrow> 'd MutableNbr list" where
  "iter_next ts it = skip_newer ts (tl it)"

lemma skip_newer_length: "length (skip_newer ts es) \<le> length es"
  by (induction es) auto

function iterate :: "nat \<Rightarrow> 'd MutableNbr list \<Rightarrow> 'd MutableNbr list" where
  "iterate ts it = (case it of [] \<Rightarrow> [] | e # _ \<Rightarrow> e # iterate ts (iter_next ts it))"
  by pat_completeness auto
termination
  by (relation "measure (\<lambda>(_, it). length it)")
    (auto simp: iter_next_def less_Suc_eq_le skip_newer_length)

declare iterate.simps [simp del]

lemma iterate_visible: "iterate ts (skip_newer ts es) = filter (\<lambda>e. timestamp e \<le> ts) es"
proof (induction es)
  case (Cons e es)
  then show ?case by (simp add: iterate.simps [of ts "e # es"] iter_next_def not_less)
qed (simp add: iterate.simps)

text \<open>\<open>NbrList\<close> of a vertex, as a view at timestamp \<open>ts\<close> sees it.\<close>

definition get_edges :: "nat \<Rightarrow> nat \<Rightarrow> 'd MutableCsr \<Rightarrow> 'd MutableNbr list" where
  "get_edges ts v s = iterate ts (iter_begin ts (case adj (slots s ! v) of None \<Rightarrow> [] | Some b \<Rightarrow> take (degree (slots s ! v)) b))"

lemma get_edges_visible: "get_edges ts v s = filter (\<lambda>e. timestamp e \<le> ts) (entries (slots s ! v))"
  by (auto simp: get_edges_def iter_begin_def iterate_visible entries_def buffer_def split: option.split)

section \<open>Binary search\<close>

text \<open>\<open>std::lower_bound\<close> over \<open>xs\<close> from \<open>first\<close>, of length \<open>len\<close>.\<close>

function lower_bound_from :: "'d MutableNbr list \<Rightarrow> 'd :: linorder \<Rightarrow> nat \<Rightarrow> nat \<Rightarrow> nat" where
  "lower_bound_from xs a first len =
     (if len = 0 then first
      else let half = len div 2; mid = first + half in
        if edata (xs ! mid) < a then lower_bound_from xs a (mid + 1) (len - half - 1)
        else lower_bound_from xs a first half)"
  by pat_completeness auto
termination by (relation "measure (\<lambda>(_, _, _, len). len)") auto

declare lower_bound_from.simps [simp del]

lemma lower_bound_from_spec:
  assumes "sorted (map edata xs)" "first + len \<le> length xs"
    "\<forall>i<first. edata (xs ! i) < a" "\<forall>i<length xs. first + len \<le> i \<longrightarrow> \<not> edata (xs ! i) < a"
  shows "lower_bound_from xs a first len = length (filter (\<lambda>e. edata e < a) xs) \<and>
    (\<forall>i<length xs. edata (xs ! i) < a \<longleftrightarrow> i < lower_bound_from xs a first len)"
  using assms
proof (induction xs a first len rule: lower_bound_from.induct)
  case (1 xs a first len)
  have mono: "edata (xs ! i) \<le> edata (xs ! j)" if "i \<le> j" "j < length xs" for i j
    using 1(3) that by (auto dest: sorted_nth_mono [of "map edata xs" i j])
  show ?case
  proof (cases "len = 0")
    case True
    have c: "edata (xs ! i) < a \<longleftrightarrow> i < first" if "i < length xs" for i using 1(5,6) True that by (metis add_0_right not_le)
    have "length (filter (\<lambda>e. edata e < a) xs) = card {i. i < length xs \<and> edata (xs ! i) < a}"
      by (simp add: length_filter_conv_card)
    also have "{i. i < length xs \<and> edata (xs ! i) < a} = {..<first}" using c 1(4) True by auto
    finally show ?thesis using c True by (simp add: lower_bound_from.simps [of xs a first 0])
  next
    case False
    let ?h = "len div 2" let ?m = "first + ?h"
    have m: "?m < length xs" "?m < first + len" using 1(4) False by auto
    show ?thesis
    proof (cases "edata (xs ! ?m) < a")
      case True
      have "\<forall>i<?m + 1. edata (xs ! i) < a" using mono [of _ ?m] m(1) True by (auto simp: less_Suc_eq_le intro: le_less_trans)
      moreover have "?m + 1 + (len - ?h - 1) = first + len" using False by auto
      moreover have eq: "lower_bound_from xs a first len = lower_bound_from xs a (?m + 1) (len - ?h - 1)"
        using False True by (subst lower_bound_from.simps) (simp add: Let_def)
      ultimately show ?thesis unfolding eq by (intro 1(1) [OF False refl refl True 1(3)]) (use 1(4,6) in simp_all)
    next
      case F: False
      have "\<forall>i<length xs. first + ?h \<le> i \<longrightarrow> \<not> edata (xs ! i) < a" using mono [of ?m] F by (auto simp: not_less intro: order_trans)
      moreover have eq: "lower_bound_from xs a first len = lower_bound_from xs a first ?h"
        using False F by (subst lower_bound_from.simps) (simp add: Let_def)
      ultimately show ?thesis unfolding eq by (intro 1(2) [OF False refl refl F 1(3)]) (use 1(5) m in simp_all)
    qed
  qed
qed

section \<open>Range scans\<close>

text \<open>
  The first loop, over the entries from the last to the first: newer entries are skipped, and the
  first visible entry older than \<open>unsorted_since\<close> ends it. It returns what it emitted and what is
  left.
\<close>

fun scan_unsorted :: "('d \<Rightarrow> bool) \<Rightarrow> nat \<Rightarrow> nat \<Rightarrow> 'd MutableNbr list \<Rightarrow> 'd edge list \<times> 'd MutableNbr list" where
  "scan_unsorted P ts us [] = ([], [])"
| "scan_unsorted P ts us (e # es) =
     (if timestamp e > ts then scan_unsorted P ts us es
      else if timestamp e < us then ([], e # es)
      else let (out, rest) = scan_unsorted P ts us es in
        (if P (edata e) then medge e # out else out, rest))"

fun scan_sorted :: "('d \<Rightarrow> bool) \<Rightarrow> 'd MutableNbr list \<Rightarrow> 'd edge list" where
  "scan_sorted P [] = []"
| "scan_sorted P (e # es) = (if P (edata e) then medge e # scan_sorted P es else [])"

definition foreach_nbr_gt :: "nat \<Rightarrow> nat \<Rightarrow> 'd :: linorder \<Rightarrow> 'd MutableCsr \<Rightarrow> 'd edge list" where
  "foreach_nbr_gt ts v threshold s =
     (let sl = slots s ! v in
      if degree sl = 0 \<or> adj sl = None then []
      else let (out, rest) = scan_unsorted (\<lambda>x. threshold < x) ts (unsorted_since s) (rev (entries sl)) in
        out @ scan_sorted (\<lambda>x. threshold < x) rest)"

definition foreach_nbr_lt :: "nat \<Rightarrow> nat \<Rightarrow> 'd :: linorder \<Rightarrow> 'd MutableCsr \<Rightarrow> 'd edge list" where
  "foreach_nbr_lt ts v threshold s =
     (let sl = slots s ! v in
      if degree sl = 0 \<or> adj sl = None then []
      else let (out, rest) = scan_unsorted (\<lambda>x. x < threshold) ts (unsorted_since s) (rev (entries sl)) in
        if rest = [] then out
        else out @ map medge (rev (take (lower_bound_from (rev rest) threshold 0 (length rest)) (rev rest))))"

section \<open>What keeps the scans right\<close>

text \<open>
  A list splits into entries sorted by data, written before \<open>us\<close> and neither deleted nor newer than
  any view, and entries written at or after \<open>us\<close>. Deleted entries carry the largest timestamp.
\<close>

definition scan_ok :: "nat \<Rightarrow> 'd :: linorder MutableNbr list \<Rightarrow> bool" where
  "scan_ok us es \<longleftrightarrow> (\<exists>A B. es = A @ B \<and> sorted (map edata A) \<and> (\<forall>e\<in>set A. timestamp e = 0 \<and> 0 < us) \<and>
     (\<forall>e\<in>set B. us \<le> timestamp e \<and> (0 < us \<longrightarrow> live_nbr e)))"

definition scans_ok :: "'d :: linorder MutableCsr \<Rightarrow> bool" where
  "scans_ok s \<longleftrightarrow> (\<forall>sl\<in>set (slots s). scan_ok (unsorted_since s) (entries sl))"

lemma scan_ok_zero: "scan_ok 0 es" unfolding scan_ok_def by (intro exI [of _ "[]"] exI [of _ es]) simp

lemma scan_ok_append:
  "scan_ok us es \<Longrightarrow> \<forall>e\<in>set xs. us \<le> timestamp e \<and> live_nbr e \<Longrightarrow> scan_ok us (es @ xs)"
  unfolding scan_ok_def by (metis append_assoc UnE set_append)

lemma scan_ok_sorted: "sorted (map edata es) \<Longrightarrow> \<forall>e\<in>set es. timestamp e = 0 \<Longrightarrow> scan_ok 1 es"
  unfolding scan_ok_def by (intro exI [of _ es] exI [of _ "[]"]) simp

lemma scan_unsorted_append:
  assumes "\<forall>e\<in>set B. us \<le> timestamp e"
  shows "scan_unsorted P ts us (B @ rest) =
    (let (out, r) = scan_unsorted P ts us rest in
     (map medge (filter (\<lambda>e. timestamp e \<le> ts \<and> P (edata e)) B) @ out, r))"
  using assms by (induction B) (auto simp: Let_def split: prod.splits)

lemma scan_unsorted_old: "\<forall>e\<in>set A. timestamp e = 0 \<and> 0 < us \<Longrightarrow> scan_unsorted P ts us A = ([], A)"
  by (cases A) auto

lemma scan_sorted_takeWhile: "scan_sorted P es = map medge (takeWhile (\<lambda>e. P (edata e)) es)"
  by (induction es) auto

lemma takeWhile_filter_gt:
  "sorted (map edata A) \<Longrightarrow> takeWhile (\<lambda>e. t < edata e) (rev A) = filter (\<lambda>e. t < edata e) (rev A)"
proof (induction A rule: rev_induct)
  case (snoc x A)
  then have "\<forall>e\<in>set A. edata e \<le> edata x" by (auto simp: sorted_append)
  then have "filter (\<lambda>e. t < edata e) (rev A) = []" if "\<not> t < edata x"
    using that by (auto simp: filter_empty_conv not_less intro: order_trans)
  then show ?case using snoc by (simp add: sorted_append)
qed simp

lemma take_lower_bound:
  assumes "sorted (map edata A)"
  shows "take (lower_bound_from A t 0 (length A)) A = filter (\<lambda>e. edata e < t) A"
proof -
  have l: "lower_bound_from A t 0 (length A) = length (filter (\<lambda>e. edata e < t) A)"
    using lower_bound_from_spec [OF assms, of 0 "length A" t] by simp
  have "filter (\<lambda>e. edata e < t) A = takeWhile (\<lambda>e. edata e < t) A" using assms
  proof (induction A)
    case (Cons x A)
    have "filter (\<lambda>e. edata e < t) A = []" if "\<not> edata x < t"
      using that Cons.prems by (auto simp: filter_empty_conv not_less intro: order_trans)
    then show ?case using Cons by simp
  qed simp
  then show ?thesis unfolding l by (metis takeWhile_eq_take)
qed

lemma scan_result:
  assumes "es = A @ B" "\<forall>e\<in>set A. timestamp e = 0 \<and> 0 < us" "\<forall>e\<in>set B. us \<le> timestamp e"
  shows "scan_unsorted P ts us (rev es) = (map medge (filter (\<lambda>e. timestamp e \<le> ts \<and> P (edata e)) (rev B)), rev A)"
  using assms scan_unsorted_append [of "rev B" us P ts "rev A"] scan_unsorted_old [of "rev A" us P ts] by simp


lemma scans_exact:
  assumes "csr_inv s" "scans_ok s" "v < vertex_capacity s"
  shows "foreach_nbr_gt ts v t s = map medge (filter (\<lambda>e. timestamp e \<le> ts \<and> t < edata e) (rev (entries (slots s ! v))))"
    "foreach_nbr_lt ts v t s = map medge (filter (\<lambda>e. timestamp e \<le> ts \<and> edata e < t) (rev (entries (slots s ! v))))"
proof -
  let ?us = "unsorted_since s" let ?es = "entries (slots s ! v)"
  have v: "v < length (slots s)" using assms(3) by (simp add: vertex_capacity_def)
  obtain A B where ab: "?es = A @ B" "sorted (map edata A)" "\<forall>e\<in>set A. timestamp e = 0 \<and> 0 < ?us" "\<forall>e\<in>set B. ?us \<le> timestamp e"
    using assms(2) v unfolding scans_ok_def scan_ok_def by (meson nth_mem)
  note r = scan_result [OF ab(1,3,4)]
  have e: "?es = []" if "degree (slots s ! v) = 0 \<or> adj (slots s ! v) = None"
    using that by (auto simp: entries_def buffer_def)
  have f: "filter (\<lambda>e. timestamp e \<le> ts \<and> P (edata e)) (rev ?es) =
      filter (\<lambda>e. timestamp e \<le> ts \<and> P (edata e)) (rev B) @ filter (\<lambda>e. P (edata e)) (rev A)" for P
    using ab(3) by (simp add: ab(1)) (rule filter_cong, auto)
  show "foreach_nbr_gt ts v t s = map medge (filter (\<lambda>e. timestamp e \<le> ts \<and> t < edata e) (rev ?es))"
  proof (cases "degree (slots s ! v) = 0 \<or> adj (slots s ! v) = None")
    case True
    then show ?thesis using e [OF True] by (simp add: foreach_nbr_gt_def Let_def)
  next
    case False
    then have "foreach_nbr_gt ts v t s = map medge (filter (\<lambda>e. timestamp e \<le> ts \<and> t < edata e) (rev B)) @
        map medge (filter (\<lambda>e. t < edata e) (rev A))"
      using r takeWhile_filter_gt [OF ab(2)] by (auto simp: foreach_nbr_gt_def Let_def scan_sorted_takeWhile)
    then show ?thesis by (simp only: f [of "\<lambda>x. t < x"] map_append)
  qed
  have "foreach_nbr_lt ts v t s = map medge (filter (\<lambda>e. timestamp e \<le> ts \<and> edata e < t) (rev B)) @
      map medge (rev (take (lower_bound_from A t 0 (length A)) A))"
    using e r ab(1) by (auto simp: foreach_nbr_lt_def Let_def)
  also have "rev (take (lower_bound_from A t 0 (length A)) A) = filter (\<lambda>e. edata e < t) (rev A)"
    by (simp add: take_lower_bound [OF ab(2)] rev_filter)
  finally show "foreach_nbr_lt ts v t s = map medge (filter (\<lambda>e. timestamp e \<le> ts \<and> edata e < t) (rev ?es))"
    by (simp only: f [of "\<lambda>x. x < t"] map_append)
qed

section \<open>Histories of a store\<close>

text \<open>\<open>EdgeTable::Compact\<close> for one of its two stores: the sort key is a property of the edge label.\<close>

definition edge_compact :: "('d :: linorder MutableNbr list \<Rightarrow> 'd MutableNbr list) \<Rightarrow> bool \<Rightarrow> 'd MutableCsr \<Rightarrow> 'd MutableCsr res" where
  "edge_compact srt keyed s = res_bind (csr_compact s) (\<lambda>s'.
     if keyed then batch_sort_by_edge_data srt 1 s' else Inr s')"

inductive csr_reach :: "('d :: linorder MutableNbr list \<Rightarrow> 'd MutableNbr list) \<Rightarrow> (nat \<Rightarrow> nat) \<Rightarrow> 'd MutableNbr \<Rightarrow> bool \<Rightarrow>
    'd MutableCsr \<Rightarrow> bool" for srt reserve junk keyed where
  start: "csr_reach srt reserve junk keyed \<lparr> slots = [], unsorted_since = 0, edge_num = 0 \<rparr>"
| resize: "csr_reach srt reserve junk keyed s \<Longrightarrow> vertex_capacity s \<le> n \<Longrightarrow> csr_reach srt reserve junk keyed (csr_resize n s)"
| put: "csr_reach srt reserve junk keyed s \<Longrightarrow> put_edge junk src dst d ts s = Inr (off, s') \<Longrightarrow> ts < INVALID_TIMESTAMP \<Longrightarrow>
    csr_reach srt reserve junk keyed s'"
| batch_put: "csr_reach srt reserve junk keyed s \<Longrightarrow> put_all reserve junk es ts s = Inr s' \<Longrightarrow> ts < INVALID_TIMESTAMP \<Longrightarrow>
    csr_reach srt reserve junk keyed s'"
| delete: "csr_reach srt reserve junk keyed s \<Longrightarrow> delete_edge src (int i) ts s = Inr s' \<Longrightarrow> ts < INVALID_TIMESTAMP \<Longrightarrow>
    csr_reach srt reserve junk keyed s'"
| revert: "csr_reach srt reserve junk keyed s \<Longrightarrow> revert_delete_edge src dst (int i) ts s = Inr s' \<Longrightarrow> ts < INVALID_TIMESTAMP \<Longrightarrow>
    csr_reach srt reserve junk keyed s'"
| delete_vertices: "csr_reach srt reserve junk keyed s \<Longrightarrow> batch_delete_vertices S D s = Inr s' \<Longrightarrow> csr_reach srt reserve junk keyed s'"
| delete_pairs: "csr_reach srt reserve junk keyed s \<Longrightarrow> batch_delete_edges srcs dsts s = Inr s' \<Longrightarrow> length srcs = length dsts \<Longrightarrow>
    csr_reach srt reserve junk keyed s'"
| delete_offsets: "csr_reach srt reserve junk keyed s \<Longrightarrow> batch_delete_offsets es s = Inr s' \<Longrightarrow> csr_reach srt reserve junk keyed s'"
| detach: "csr_reach srt reserve junk keyed s \<Longrightarrow> DetachVertex junk v s = Inr s' \<Longrightarrow> csr_reach srt reserve junk keyed s'"
| compact: "csr_reach srt reserve junk keyed s \<Longrightarrow> edge_compact srt keyed s = Inr s' \<Longrightarrow> csr_reach srt reserve junk keyed s'"

definition history_inv :: "bool \<Rightarrow> 'd :: linorder MutableCsr \<Rightarrow> bool" where
  "history_inv keyed s \<longleftrightarrow> csr_inv s \<and> scans_ok s \<and> (\<not> keyed \<longrightarrow> unsorted_since s = 0)"

lemma scans_ok_zero: "unsorted_since s = 0 \<Longrightarrow> scans_ok s" by (simp add: scans_ok_def scan_ok_zero)

lemma scans_ok_entries:
  assumes "scans_ok s" "length (slots s') = length (slots s)" "unsorted_since s' = unsorted_since s"
    "\<forall>v<length (slots s). entries (slots s' ! v) = entries (slots s ! v) @ f v \<and> (\<forall>e\<in>set (f v). unsorted_since s \<le> timestamp e \<and> live_nbr e)"
  shows "scans_ok s'"
  unfolding scans_ok_def
proof
  fix sl assume "sl \<in> set (slots s')"
  then obtain v where v: "v < length (slots s)" "sl = slots s' ! v" using assms(2) by (metis in_set_conv_nth)
  then have "scan_ok (unsorted_since s) (entries (slots s ! v) @ f v)"
    using assms(1,4) by (intro scan_ok_append) (auto simp: scans_ok_def)
  then show "scan_ok (unsorted_since s') (entries sl)" using assms(3,4) v by simp
qed

lemma edge_compact_ok:
  assumes "history_inv keyed s" "sorts srt"
  shows "\<exists>s'. edge_compact srt keyed s = Inr s' \<and> history_inv keyed s'"
proof -
  have i: "csr_inv s" using assms(1) by (simp add: history_inv_def)
  obtain s1 where s1: "csr_compact s = Inr s1" "csr_inv s1" "slots s1 = map compact_slot (slots s)" "unsorted_since s1 = unsorted_since s"
    using csr_compact_ok [OF i] by blast
  show ?thesis
  proof (cases keyed)
    case False
    then show ?thesis using assms(1) s1 by (simp add: edge_compact_def history_inv_def scans_ok_zero)
  next
    case True
    obtain s2 where s2: "batch_sort_by_edge_data srt 1 s1 = Inr s2" "csr_inv s2" "slots s2 = map (sort_slot srt) (slots s1)"
      "unsorted_since s2 = 1" using batch_sort_ok [OF s1(2) assms(2)] by blast
    have "scan_ok 1 (entries (sort_slot srt (compact_slot sl)))" if "sl \<in> set (slots s)" for sl
    proof (rule scan_ok_sorted)
      have ok: "slot_ok sl" using i that by (simp add: csr_inv_def)
      note c = compact_slot_entries [OF ok] and q = sort_slot_ok [OF compact_slot_entries(1) [OF ok] assms(2)]
      show "sorted (map edata (entries (sort_slot srt (compact_slot sl))))" by (rule q(3))
      show "\<forall>e\<in>set (entries (sort_slot srt (compact_slot sl))). timestamp e = 0"
        unfolding mset_eq_setD [OF q(2)] c(2) by auto
    qed
    then have "scans_ok s2" by (simp add: scans_ok_def s2 s1)
    then show ?thesis using True s1 s2 by (simp add: edge_compact_def history_inv_def)
  qed
qed


lemma history_zero:
  assumes "history_inv keyed s" "csr_inv s'" "unsorted_since s' = 0"
  shows "history_inv keyed s'"
  using assms by (simp add: history_inv_def scans_ok_zero)

lemma history_append:
  assumes "history_inv keyed s" "csr_inv s'" "length (slots s') = length (slots s)"
    "\<forall>v<length (slots s). entries (slots s' ! v) = entries (slots s ! v) @ f v"
    "\<forall>v. \<forall>e\<in>set (f v). timestamp e = ts" "ts < INVALID_TIMESTAMP"
    "unsorted_since s' = (if ts < unsorted_since s then 0 else unsorted_since s)"
  shows "history_inv keyed s'"
proof (cases "ts < unsorted_since s")
  case True
  then show ?thesis using assms by (intro history_zero [OF assms(1,2)]) simp
next
  case False
  have "scans_ok s'"
    by (rule scans_ok_entries [where f = f and s = s]) (use assms False in \<open>auto simp: history_inv_def live_nbr_def\<close>)
  then show ?thesis using assms False by (simp add: history_inv_def)
qed

lemma history_same:
  assumes "history_inv keyed s" "csr_inv s'" "unsorted_since s' = unsorted_since s" "map entries (slots s') = map entries (slots s)"
  shows "history_inv keyed s'"
proof -
  have "entries ` set (slots s') = entries ` set (slots s)" by (metis assms(4) set_map)
  moreover have "scans_ok x \<longleftrightarrow> (\<forall>es\<in>entries ` set (slots x). scan_ok (unsorted_since x) es)" for x :: "'a MutableCsr"
    by (simp add: scans_ok_def)
  ultimately have "scans_ok s' \<longleftrightarrow> scans_ok s" by (simp only: assms(3))
  then show ?thesis using assms(1-3) by (simp add: history_inv_def)
qed

lemma history_delete:
  assumes "history_inv keyed s" "delete_edge src (int i) ts s = Inr s'" "ts < INVALID_TIMESTAMP"
  shows "history_inv keyed s'"
proof -
  have i: "csr_inv s" using assms(1) by (simp add: history_inv_def)
  have b: "src < vertex_capacity s \<and> i < degree (slots s ! src)"
    using assms(2) by (auto simp: delete_edge_def entry_at_ok [OF i] split: if_splits)
  have "csr_inv s' \<and> (unsorted_since s' = 0 \<or> s' = s)"
    using delete_edge_ok [OF i conjunct1 [OF b] conjunct2 [OF b] assms(3)] assms(2) by (auto split: if_splits)
  then show ?thesis using assms(1) history_zero by blast
qed

lemma history_revert:
  assumes "history_inv keyed s" "revert_delete_edge src dst (int i) ts s = Inr s'" "ts < INVALID_TIMESTAMP"
  shows "history_inv keyed s'"
proof -
  have i: "csr_inv s" using assms(1) by (simp add: history_inv_def)
  let ?e = "entries (slots s ! src) ! i"
  have b: "src < vertex_capacity s" "i < degree (slots s ! src)" "neighbor ?e = dst" "\<not> live_nbr ?e"
    using assms(2) by (auto simp: revert_delete_edge_def entry_at_ok [OF i] live_nbr_def split: if_splits)
  have v: "src < length (slots s)" using b(1) by (simp add: vertex_capacity_def)
  have "?e \<in> set (entries (slots s ! src))" using slot_okD(2) [OF csr_inv_slot [OF i v]] b(2) by simp
  moreover have "scan_ok (unsorted_since s) (entries (slots s ! src))" using assms(1) v by (auto simp: history_inv_def scans_ok_def)
  ultimately have "unsorted_since s = 0" using b(4) unfolding scan_ok_def by (auto simp: live_nbr_def)
  then show ?thesis using revert_delete_edge_ok [OF i b(1,2) assms(3) b(3,4)] assms(2) history_zero [OF assms(1)] by auto
qed

lemma history_resize:
  assumes "history_inv keyed s" "vertex_capacity s \<le> n"
  shows "history_inv keyed (csr_resize n s)"
proof -
  have i: "csr_inv s" using assms(1) by (simp add: history_inv_def)
  have d: "drop n (slots s) = []" using assms(2) by (simp add: vertex_capacity_def)
  have "scan_ok us []" for us unfolding scan_ok_def by simp
  then have "scans_ok (csr_resize n s)" using assms by (auto simp: scans_ok_def history_inv_def csr_resize_def vertex_capacity_def)
  then show ?thesis using csr_resize_ok(1,4) [OF i, of n] assms(1) d by (simp add: history_inv_def)
qed

lemma reach_inv:
  assumes "csr_reach srt reserve junk keyed s" "sorts srt" "\<forall>n. n \<le> reserve n"
  shows "history_inv keyed s"
  using assms
proof (induction rule: csr_reach.induct)
  case start
  then show ?case by (simp add: history_inv_def csr_inv_def scans_ok_def)
next
  case (resize s n)
  then show ?case by (simp add: history_resize)
next
  case (put s src dst d ts off s')
  then have h: "history_inv keyed s" and i: "csr_inv s" by (simp_all add: history_inv_def)
  have c: "src < vertex_capacity s" using put(2) by (auto simp: put_edge_def split: if_splits)
  let ?f = "\<lambda>v. if v = src then [\<lparr> neighbor = dst, timestamp = ts, edata = d \<rparr>] else []"
  have "csr_inv s' \<and> length (slots s') = length (slots s) \<and>
      (\<forall>v<length (slots s). entries (slots s' ! v) = entries (slots s ! v) @ ?f v) \<and>
      unsorted_since s' = (if ts < unsorted_since s then 0 else unsorted_since s)"
    using put_edge_ok [OF i c, of ts junk dst d] put(2,3) by auto
  then show ?case using put(3) by (intro history_append [OF h, where f = ?f and ts = ts]) auto
next
  case (batch_put s es ts s')
  then have h: "history_inv keyed s" and i: "csr_inv s" by (simp_all add: history_inv_def)
  let ?f = "\<lambda>v. map (new_nbr ts \<circ> snd) (filter (\<lambda>e. fst e = v) es)"
  have o: "csr_inv s' \<and> length (slots s') = length (slots s) \<and>
      (\<forall>v<length (slots s). entries (slots s' ! v) = entries (slots s ! v) @ ?f v) \<and>
      unsorted_since s' = (if ts < unsorted_since s \<and> vertex_capacity s \<noteq> 0 then 0 else unsorted_since s)"
    using batch_put_edges_ok [OF i, of "map (fst \<circ> snd) es" "map fst es" "map (snd \<circ> snd) es" ts reserve junk] batch_put(2,3,6)
    unfolding put_all_def zip_parts by auto
  show ?case
  proof (cases "vertex_capacity s = 0")
    case True
    then show ?thesis using o h by (simp add: history_inv_def scans_ok_def vertex_capacity_def)
  next
    case False
    then show ?thesis using o batch_put(3) by (intro history_append [OF h, where f = ?f and ts = ts]) (auto simp: new_nbr_def)
  qed
next
  case (delete s src i ts s')
  then show ?case using history_delete by blast
next
  case (revert s src dst i ts s')
  then show ?case using history_revert by blast
next
  case (delete_vertices s S D s')
  then have h: "history_inv keyed s" and i: "csr_inv s" by (simp_all add: history_inv_def)
  show ?case using batch_delete_vertices_ok [OF i, of S D] delete_vertices(2) by (intro history_zero [OF h]) auto
next
  case (delete_pairs s srcs dsts s')
  then have h: "history_inv keyed s" and i: "csr_inv s" by (simp_all add: history_inv_def)
  show ?case using batch_delete_edges_ok [OF i delete_pairs(3)] delete_pairs(2) by (intro history_zero [OF h]) auto
next
  case (delete_offsets s es s')
  then have h: "history_inv keyed s" and i: "csr_inv s" by (simp_all add: history_inv_def)
  show ?case using batch_mark_inv(1,3) [OF i] delete_offsets(2)
    by (intro history_zero [OF h]) (auto simp: batch_delete_offsets_def split: if_splits)
next
  case (detach s v s')
  then have h: "history_inv keyed s" and i: "csr_inv s" by (simp_all add: history_inv_def)
  have c: "v < vertex_capacity s" using detach(2) by (auto simp: DetachVertex_def split: if_splits)
  show ?case using DetachVertex_ok [OF i c, of junk] detach(2) by (intro history_same [OF h]) auto
next
  case (compact s s')
  then show ?case using edge_compact_ok [of keyed s srt] by auto
qed


section \<open>Properties\<close>

lemma live_compact:
  assumes "csr_inv s" "sorts srt" "edge_compact srt keyed s = Inr s'"
  shows "mset (csr_live s' v) = mset (csr_live s v)"
proof -
  obtain s1 where s1: "csr_compact s = Inr s1" "csr_inv s1" "csr_live s1 = csr_live s" using csr_compact_ok [OF assms(1)] by blast
  show ?thesis
  proof (cases keyed)
    case False
    then show ?thesis using assms(3) s1 by (simp add: edge_compact_def)
  next
    case True
    have s': "slots s' = map (sort_slot srt) (slots s1)"
      using assms(3) s1(1) True batch_sort_ok [OF s1(2) assms(2), of 1] by (auto simp: edge_compact_def)
    have "mset (entries (sort_slot srt (slots s1 ! v))) = mset (entries (slots s1 ! v))" if "v < length (slots s1)"
      by (rule sort_slot_ok(2) [OF csr_inv_slot [OF s1(2) that] assms(2)])
    then have "mset (csr_live s' v) = mset (csr_live s1 v)"
      by (cases "v < length (slots s1)") (simp_all add: csr_live_def s' mset_filter)
    then show ?thesis by (simp add: s1(3))
  qed
qed


text \<open>A history of one vertex: two insertions, a compaction that sorts, and a later insertion.\<close>

definition sample_junk :: "nat MutableNbr" where "sample_junk = \<lparr> neighbor = 0, timestamp = 0, edata = 0 \<rparr>"

definition sample_csr :: "nat \<Rightarrow> nat MutableNbr list \<Rightarrow> nat MutableCsr" where
  "sample_csr us es = \<lparr> slots = [\<lparr> adj = Some (es @ replicate (8 - length es) sample_junk), degree = length es, cap = 8 \<rparr>],
     unsorted_since = us, edge_num = of_nat (length es) \<rparr>"

definition sample_nbr :: "nat \<Rightarrow> nat \<Rightarrow> nat \<Rightarrow> nat MutableNbr" where
  "sample_nbr v t d = \<lparr> neighbor = v, timestamp = t, edata = d \<rparr>"

lemma sample_put:
  assumes "length es < 8" "us \<le> ts"
  shows "put_edge sample_junk 0 v d ts (sample_csr us es) = Inr (length es, sample_csr us (es @ [sample_nbr v ts d]))"
proof -
  have r: "replicate (8 - length es) sample_junk = sample_junk # replicate (8 - Suc (length es)) sample_junk"
    using assms(1) by (metis Suc_diff_Suc replicate_Suc)
  show ?thesis using assms
    by (simp add: put_edge_def sample_csr_def vertex_capacity_def grow_slot_def append_slot_def buffer_def r list_update_append sample_nbr_def)
qed

lemma sample_first: "put_edge sample_junk 0 v d ts (csr_resize 1 \<lparr> slots = [], unsorted_since = 0, edge_num = 0 \<rparr>) =
    Inr (0, sample_csr 0 [sample_nbr v ts d])"
  by (simp add: put_edge_def csr_resize_def sample_csr_def vertex_capacity_def grow_slot_def append_slot_def buffer_def
    entries_def sample_nbr_def eval_nat_numeral)

lemma squeeze_steps:
  "e \<le> r \<Longrightarrow> squeeze a keep touch buf r e w removed = (buf, w, removed)"
  "r < e \<Longrightarrow> \<not> keep (buf ! r) \<Longrightarrow> squeeze a keep touch buf r e w removed = squeeze a keep touch buf (Suc r) e w (Suc removed)"
  "r < e \<Longrightarrow> keep (buf ! r) \<Longrightarrow> squeeze a keep touch buf r e w removed =
     (let buf' = (if a \<or> removed > 0 then buf[w := buf ! r] else buf) in
      squeeze a keep touch (buf'[w := touch (buf' ! w)]) (Suc r) e (Suc w) removed)"
  by (subst squeeze.simps, simp)+

lemma sample_compact:
  "edge_compact (sort_key edata) True (sample_csr 0 [sample_nbr 7 3 5, sample_nbr 8 4 2]) =
     Inr (sample_csr 1 [sample_nbr 8 0 2, sample_nbr 7 0 5])"
proof -
  let ?b = "[sample_nbr 7 3 5, sample_nbr 8 4 2] @ replicate 6 sample_junk"
  have i: "INVALID_TIMESTAMP = 4294967295" by (simp add: INVALID_TIMESTAMP_def)
  have "squeeze False live_nbr (\<lambda>e. e \<lparr> timestamp := 0 \<rparr>) ?b 0 2 0 0 =
      ([sample_nbr 7 0 5, sample_nbr 8 0 2] @ replicate 6 sample_junk, 2, 0)"
    by (simp add: squeeze_steps sample_nbr_def live_nbr_def i numeral_2_eq_2)
  then have c: "csr_compact (sample_csr 0 [sample_nbr 7 3 5, sample_nbr 8 4 2]) = Inr (sample_csr 0 [sample_nbr 7 0 5, sample_nbr 8 0 2])"
    by (simp add: csr_compact_def sample_csr_def readable_def buffer_def compact_slot_def squeeze_slot_def flip: numeral_2_eq_2)
  have "sort_key edata [sample_nbr 7 0 5, sample_nbr 8 0 2] = [sample_nbr 8 0 2, sample_nbr 7 0 5]"
    by (simp add: sample_nbr_def)
  then show ?thesis using c
    by (simp add: edge_compact_def batch_sort_by_edge_data_def sample_csr_def readable_def buffer_def sort_slot_def)
qed

lemma sample_reach:
  "csr_reach (sort_key edata) (\<lambda>n. n) sample_junk True (sample_csr 1 [sample_nbr 8 0 2, sample_nbr 7 0 5, sample_nbr 9 5 6])"
proof -
  note r = csr_reach.put [where junk = sample_junk and keyed = True and srt = "sort_key edata" and reserve = "\<lambda>n. n"]
  have i: "(3 :: nat) < INVALID_TIMESTAMP" "(4 :: nat) < INVALID_TIMESTAMP" "(5 :: nat) < INVALID_TIMESTAMP"
    by (simp_all add: INVALID_TIMESTAMP_def)
  have "csr_reach (sort_key edata) (\<lambda>n. n) sample_junk True (csr_resize 1 \<lparr> slots = [], unsorted_since = 0, edge_num = 0 \<rparr>)"
    by (rule csr_reach.resize [OF csr_reach.start]) (simp add: vertex_capacity_def)
  from r [OF this sample_first i(1), of 7 5]
  have "csr_reach (sort_key edata) (\<lambda>n. n) sample_junk True (sample_csr 0 [sample_nbr 7 3 5])" .
  from r [OF this sample_put i(2), of 8 2]
  have "csr_reach (sort_key edata) (\<lambda>n. n) sample_junk True (sample_csr 0 [sample_nbr 7 3 5, sample_nbr 8 4 2])" by simp
  from csr_reach.compact [OF this sample_compact]
  have "csr_reach (sort_key edata) (\<lambda>n. n) sample_junk True (sample_csr 1 [sample_nbr 8 0 2, sample_nbr 7 0 5])" .
  from r [OF this sample_put i(3), of 9 6] show ?thesis by simp
qed





end
