(* ===== verification/Immutable_Csr.thy ===== *)
theory Immutable_Csr
  imports Mutable_Csr
begin

text \<open>
  \<open>ImmutableCsr\<close> (\<open>include/neug/storages/csr/immutable_csr.h\<close>, \<open>src/storages/csr/immutable_csr.cc\<close>):
  the adjacency lists of all vertices lie one after the other in a single array, and a vertex has a
  pointer to its list. Pointers are offsets into the array, \<open>None\<close> for the null pointer. Deleted
  entries carry the largest vertex id. The operations move entries inside the array; the proofs
  chop the array into the lists of the vertices.
\<close>

section \<open>State\<close>

record 'd ImmutableCsr =
  nbr_list :: "'d ImmutableNbr list"
  adj_ptr :: "nat option list"
  ideg :: "nat list"
  iunsorted :: nat
  iedge_num :: u64

definition icsr_size :: "'d ImmutableCsr \<Rightarrow> nat" where "icsr_size s = length (ideg s)"

text \<open>Pointers to consecutive lists.\<close>

definition offset_of :: "nat list \<Rightarrow> nat \<Rightarrow> nat" where "offset_of ds v = sum_list (take v ds)"

definition ptrs_of :: "nat list \<Rightarrow> nat option list" where
  "ptrs_of ds = map (\<lambda>v. Some (offset_of ds v)) [0..<length ds]"

section \<open>Operations\<close>

definition icsr_Open :: "nat \<Rightarrow> u64 \<Rightarrow> nat list \<Rightarrow> 'd ImmutableNbr list \<Rightarrow> 'd ImmutableCsr" where
  "icsr_Open us n ds nbrs =
     \<lparr> nbr_list = nbrs, adj_ptr = map (\<lambda>v. if ds ! v \<noteq> 0 then Some (offset_of ds v) else None) [0..<length ds],
       ideg = ds, iunsorted = us, iedge_num = n \<rparr>"

text \<open>
  A vertex's part of the compaction loop. The write pointer starts at the pointer of the first
  vertex: when that is null, copying an entry writes through a null pointer.
\<close>

fun copies :: "('a \<Rightarrow> bool) \<Rightarrow> nat \<Rightarrow> 'a list \<Rightarrow> bool" where
  "copies keep removed [] = False"
| "copies keep removed (x # xs) = (if keep x then removed > 0 \<or> copies keep removed xs else copies keep (Suc removed) xs)"

fun icompact_loop :: "bool \<Rightarrow> nat option list \<Rightarrow> nat list \<Rightarrow> 'd ImmutableNbr list \<times> nat list \<times> nat \<times> nat \<Rightarrow>
    ('d ImmutableNbr list \<times> nat list \<times> nat \<times> nat) res" where
  "icompact_loop null adjs [] st = Inr st"
| "icompact_loop null adjs (i # is) (nbrs, degs, w, removed) =
     (if degs ! i = 0 then icompact_loop null adjs is (nbrs, degs, w, removed)
      else case adjs ! i of None \<Rightarrow> Inl UndefinedBehaviour
      | Some p \<Rightarrow>
          if length nbrs < p + degs ! i \<or> null \<and> copies exists_nbr removed (take (degs ! i) (drop p nbrs)) then Inl UndefinedBehaviour
          else let (nbrs', w', removed') = squeeze False exists_nbr (\<lambda>e. e) nbrs p (p + degs ! i) w removed in
            icompact_loop null adjs is (nbrs', degs[i := degs ! i - (removed' - removed)], w', removed'))"

definition icsr_compact :: "'d ImmutableCsr \<Rightarrow> 'd ImmutableCsr res" where
  "icsr_compact s =
     (if icsr_size s = 0 then Inr s
      else res_bind (icompact_loop (adj_ptr s ! 0 = None) (adj_ptr s) [0..<icsr_size s]
             (nbr_list s, ideg s, (case adj_ptr s ! 0 of None \<Rightarrow> 0 | Some p \<Rightarrow> p), 0))
        (\<lambda>(nbrs, degs, w, removed).
          Inr (s \<lparr> nbr_list := take (length nbrs - removed) nbrs, ideg := degs, adj_ptr := ptrs_of degs \<rparr>)))"

definition icsr_resize :: "nat \<Rightarrow> 'd ImmutableCsr \<Rightarrow> 'd ImmutableCsr" where
  "icsr_resize vnum s =
     (if vnum > icsr_size s
      then s \<lparr> adj_ptr := adj_ptr s @ replicate (vnum - icsr_size s) None, ideg := ideg s @ replicate (vnum - icsr_size s) 0 \<rparr>
      else s \<lparr> adj_ptr := take vnum (adj_ptr s), ideg := take vnum (ideg s) \<rparr>)"

fun idelete_loop :: "nat set \<Rightarrow> nat set \<Rightarrow> nat option list \<Rightarrow> nat list \<Rightarrow> 'd ImmutableNbr list \<times> nat list \<times> nat \<times> u64 \<Rightarrow>
    ('d ImmutableNbr list \<times> nat list \<times> nat \<times> u64) res" where
  "idelete_loop S D adjs [] st = Inr st"
| "idelete_loop S D adjs (i # is) (nbrs, degs, removed, n) =
     (if degs ! i = 0 then idelete_loop S D adjs is (nbrs, degs, removed, n)
      else case adjs ! i of None \<Rightarrow> Inl UndefinedBehaviour
      | Some p \<Rightarrow>
          if length nbrs < p + degs ! i then Inl UndefinedBehaviour
          else let seg = take (degs ! i) (drop p nbrs) in
            if i \<in> S
            then idelete_loop S D adjs is (nbrs, degs[i := 0], removed + degs ! i, n - of_nat (length (filter exists_nbr seg)))
            else let (nbrs', w', removed') = squeeze True (\<lambda>e. ineighbor e \<notin> D) (\<lambda>e. e) nbrs p (p + degs ! i) (p - removed) removed in
              idelete_loop S D adjs is (nbrs', degs[i := degs ! i - (removed' - removed)], removed',
                n - of_nat (length (filter (\<lambda>e. exists_nbr e \<and> ineighbor e \<in> D) seg))))"

definition ibatch_delete_vertices :: "nat set \<Rightarrow> nat set \<Rightarrow> 'd ImmutableCsr \<Rightarrow> 'd ImmutableCsr res" where
  "ibatch_delete_vertices S D s =
     res_bind (idelete_loop S D (adj_ptr s) [0..<icsr_size s] (nbr_list s, ideg s, 0, iedge_num s))
       (\<lambda>(nbrs, degs, removed, n).
         Inr (s \<lparr> nbr_list := take (length nbrs - removed) nbrs, ideg := degs, adj_ptr := ptrs_of degs,
                 iunsorted := 0, iedge_num := n \<rparr>))"

text \<open>Overwriting a part of the array, as \<open>memmove\<close> and the marking loops do.\<close>

definition blit :: "'a list \<Rightarrow> nat \<Rightarrow> 'a list \<Rightarrow> 'a list" where
  "blit arr p seg = take p arr @ seg @ drop (p + length seg) arr"

definition drop_nbr :: "'d ImmutableNbr \<Rightarrow> 'd ImmutableNbr" where "drop_nbr e = e \<lparr> ineighbor := NO_VERTEX \<rparr>"

fun imark_loop :: "(nat \<Rightarrow> nat \<Rightarrow> 'd ImmutableNbr \<Rightarrow> bool) \<Rightarrow> nat option list \<Rightarrow> nat list \<Rightarrow> nat list \<Rightarrow>
    'd ImmutableNbr list \<times> u64 \<Rightarrow> ('d ImmutableNbr list \<times> u64) res" where
  "imark_loop P adjs degs [] st = Inr st"
| "imark_loop P adjs degs (i # is) (nbrs, n) =
     (if degs ! i = 0 then imark_loop P adjs degs is (nbrs, n)
      else case adjs ! i of None \<Rightarrow> Inl UndefinedBehaviour
      | Some p \<Rightarrow>
          if length nbrs < p + degs ! i then Inl UndefinedBehaviour
          else let seg = take (degs ! i) (drop p nbrs);
                   hit = (\<lambda>k. exists_nbr (seg ! k) \<and> P i k (seg ! k)) in
            imark_loop P adjs degs is
              (blit nbrs p (map (\<lambda>k. if hit k then drop_nbr (seg ! k) else seg ! k) [0..<degs ! i]),
               n - of_nat (length (filter hit [0..<degs ! i]))))"

definition imark :: "(nat \<Rightarrow> nat \<Rightarrow> 'd ImmutableNbr \<Rightarrow> bool) \<Rightarrow> 'd ImmutableCsr \<Rightarrow> 'd ImmutableCsr res" where
  "imark P s = res_bind (imark_loop P (adj_ptr s) (ideg s) [0..<icsr_size s] (nbr_list s, iedge_num s))
     (\<lambda>(nbrs, n). Inr (s \<lparr> nbr_list := nbrs, iedge_num := n, iunsorted := 0 \<rparr>))"

text \<open>A batch whose second list is too short: the code reads it at the sources in range.\<close>

definition overrun :: "nat \<Rightarrow> nat list \<Rightarrow> 'a list \<Rightarrow> bool" where
  "overrun n srcs xs \<longleftrightarrow> (\<exists>i<length srcs. srcs ! i < n \<and> length xs \<le> i)"

lemma overrun_enough [simp]: "length srcs \<le> length xs \<Longrightarrow> \<not> overrun n srcs xs" by (auto simp: overrun_def)

definition ibatch_delete_edges :: "nat list \<Rightarrow> nat list \<Rightarrow> 'd ImmutableCsr \<Rightarrow> 'd ImmutableCsr res" where
  "ibatch_delete_edges src_list dst_list s =
     (if overrun (icsr_size s) src_list dst_list then Inl UndefinedBehaviour
      else imark (\<lambda>v k e. (v, ineighbor e) \<in> set (zip src_list dst_list)) s)"

text \<open>
  The offsets of a batch are used as indices from the vertex's pointer, so a negative one reaches
  the lists before it.
\<close>

definition offset_targets :: "(nat \<times> int) list \<Rightarrow> 'd ImmutableCsr \<Rightarrow> (nat option \<times> int) list" where
  "offset_targets edges s = map (\<lambda>(v, off). (adj_ptr s ! v, off))
     (filter (\<lambda>(v, off). v < icsr_size s \<and> off < int (ideg s ! v) \<and> ideg s ! v \<noteq> 0) edges)"

definition index_of :: "'d ImmutableCsr \<Rightarrow> nat option \<Rightarrow> int \<Rightarrow> nat res" where
  "index_of s ptr off = (case ptr of None \<Rightarrow> Inl UndefinedBehaviour
     | Some p \<Rightarrow> if int p + off < 0 \<or> int (length (nbr_list s)) \<le> int p + off then Inl UndefinedBehaviour else Inr (nat (int p + off)))"

definition ibatch_delete_offsets :: "(nat \<times> int) list \<Rightarrow> 'd ImmutableCsr \<Rightarrow> 'd ImmutableCsr res" where
  "ibatch_delete_offsets edges s =
     (let targets = map (\<lambda>(ptr, off). index_of s ptr off) (offset_targets edges s);
          hit = (\<lambda>k. Inr k \<in> set targets \<and> exists_nbr (nbr_list s ! k)) in
      if Inl UndefinedBehaviour \<in> set targets then Inl UndefinedBehaviour
      else Inr (s \<lparr> nbr_list := map (\<lambda>k. if hit k then drop_nbr (nbr_list s ! k) else nbr_list s ! k) [0..<length (nbr_list s)],
        iedge_num := iedge_num s - of_nat (length (filter hit [0..<length (nbr_list s)])), iunsorted := 0 \<rparr>))"

definition islot_at :: "nat \<Rightarrow> int \<Rightarrow> 'd ImmutableCsr \<Rightarrow> nat res" where
  "islot_at src offset s =
     (if src \<ge> icsr_size s \<or> offset \<ge> int (ideg s ! src) then Inl InvalidArgument else index_of s (adj_ptr s ! src) offset)"

definition idelete_edge :: "nat \<Rightarrow> int \<Rightarrow> 'd ImmutableCsr \<Rightarrow> 'd ImmutableCsr res" where
  "idelete_edge src offset s = res_bind (islot_at src offset s) (\<lambda>k.
     if exists_nbr (nbr_list s ! k)
     then Inr (s \<lparr> nbr_list := (nbr_list s)[k := drop_nbr (nbr_list s ! k)], iedge_num := iedge_num s - 1, iunsorted := 0 \<rparr>)
     else Inr s)"

definition irevert_delete_edge :: "nat \<Rightarrow> nat \<Rightarrow> int \<Rightarrow> 'd ImmutableCsr \<Rightarrow> 'd ImmutableCsr res" where
  "irevert_delete_edge src nbr offset s = res_bind (islot_at src offset s) (\<lambda>k.
     if exists_nbr (nbr_list s ! k) then Inl InvalidArgument
     else Inr (s \<lparr> nbr_list := (nbr_list s)[k := (nbr_list s ! k) \<lparr> ineighbor := nbr \<rparr>], iedge_num := iedge_num s + 1 \<rparr>))"

text \<open>Sorting the list of every vertex; \<open>std::sort\<close> is the argument \<open>srt\<close>.\<close>

fun isort_loop :: "('d ImmutableNbr list \<Rightarrow> 'd ImmutableNbr list) \<Rightarrow> nat option list \<Rightarrow> nat list \<Rightarrow> nat list \<Rightarrow>
    'd ImmutableNbr list \<Rightarrow> 'd ImmutableNbr list res" where
  "isort_loop srt adjs degs [] nbrs = Inr nbrs"
| "isort_loop srt adjs degs (i # is) nbrs =
     (if degs ! i = 0 then isort_loop srt adjs degs is nbrs
      else case adjs ! i of None \<Rightarrow> Inl UndefinedBehaviour
      | Some p \<Rightarrow>
          if length nbrs < p + degs ! i then Inl UndefinedBehaviour
          else isort_loop srt adjs degs is (blit nbrs p (srt (take (degs ! i) (drop p nbrs)))))"

definition ibatch_sort_by_edge_data :: "('d ImmutableNbr list \<Rightarrow> 'd ImmutableNbr list) \<Rightarrow> nat \<Rightarrow> 'd ImmutableCsr \<Rightarrow> 'd ImmutableCsr res" where
  "ibatch_sort_by_edge_data srt ts s =
     res_bind (isort_loop srt (adj_ptr s) (ideg s) [0..<icsr_size s] (nbr_list s))
       (\<lambda>nbrs. Inr (s \<lparr> nbr_list := nbrs, iunsorted := ts \<rparr>))"

text \<open>
  Batch insertion grows the array, moves the lists from the last vertex to the first, and fills
  the room behind each. The source vertices are used as indices without a check.
\<close>

fun move_loop :: "nat \<Rightarrow> nat list \<Rightarrow> nat list \<Rightarrow> 'a list \<Rightarrow> nat \<Rightarrow> nat \<Rightarrow> 'a list \<times> nat option list" where
  "move_loop 0 nd od arr noff ooff = (arr, [])"
| "move_loop (Suc i) nd od arr noff ooff =
     (let noff' = noff - nd ! i; ooff' = ooff - od ! i;
          (arr', ptrs) = move_loop i nd od (blit arr noff' (take (od ! i) (drop ooff' arr))) noff' ooff' in
      (arr', ptrs @ [Some noff']))"

fun iput_loop :: "(nat \<times> 'd edge) list \<Rightarrow> nat option list \<Rightarrow> nat list \<Rightarrow> 'd ImmutableNbr list \<Rightarrow> 'd ImmutableNbr list" where
  "iput_loop [] ptrs cur arr = arr"
| "iput_loop ((src, dst, d) # es) ptrs cur arr =
     iput_loop es ptrs (cur[src := Suc (cur ! src)]) (arr[the (ptrs ! src) + cur ! src := \<lparr> ineighbor = dst, idata = d \<rparr>])"

definition ibatch_put_edges :: "'d ImmutableNbr \<Rightarrow> nat list \<Rightarrow> nat list \<Rightarrow> 'd list \<Rightarrow> nat \<Rightarrow> 'd ImmutableCsr \<Rightarrow> 'd ImmutableCsr res" where
  "ibatch_put_edges junk src_list dst_list data_list ts s =
     (if (\<exists>v\<in>set src_list. icsr_size s \<le> v) \<or> length dst_list < length src_list \<or> length data_list < length src_list
      then Inl UndefinedBehaviour
      else let nd = map (\<lambda>v. ideg s ! v + added_at src_list v) [0..<icsr_size s];
               new_edge_num = length (nbr_list s) + length src_list;
               (arr, ptrs) = move_loop (icsr_size s) nd (ideg s) (nbr_list s @ replicate (length src_list) junk)
                 new_edge_num (length (nbr_list s)) in
        Inr (s \<lparr> nbr_list := iput_loop (zip src_list (zip dst_list data_list)) ptrs (ideg s) arr, ideg := nd, adj_ptr := ptrs,
          iedge_num := iedge_num s + of_nat (length src_list),
          iunsorted := (if ts < iunsorted s then 0 else iunsorted s) \<rparr>))"

section \<open>Chopping the array\<close>

fun chop :: "nat list \<Rightarrow> 'a list \<Rightarrow> 'a list list" where
  "chop [] xs = []"
| "chop (d # ds) xs = take d xs # chop ds (drop d xs)"

lemma length_chop [simp]: "length (chop ds xs) = length ds"
  by (induction ds arbitrary: xs) auto

lemma nth_chop: "v < length ds \<Longrightarrow> chop ds xs ! v = take (ds ! v) (drop (offset_of ds v) xs)"
proof (induction ds arbitrary: xs v)
  case (Cons d ds)
  then show ?case by (cases v) (auto simp: offset_of_def add.commute)
qed simp

lemma concat_chop: "sum_list ds = length xs \<Longrightarrow> concat (chop ds xs) = xs"
proof (induction ds arbitrary: xs)
  case (Cons d ds)
  then show ?case by (simp add: Cons.IH [of "drop d xs"])
qed simp

lemma map_length_chop: "sum_list ds = length xs \<Longrightarrow> map length (chop ds xs) = ds"
proof (induction ds arbitrary: xs)
  case (Cons d ds)
  then show ?case by (simp add: Cons.IH [of "drop d xs"])
qed simp

lemma chop_concat: "map length xss = ds \<Longrightarrow> chop ds (concat xss) = xss"
  by (induction xss arbitrary: ds) auto

lemma offset_0 [simp]: "offset_of ds 0 = 0" by (simp add: offset_of_def)

lemma offset_Suc: "v < length ds \<Longrightarrow> offset_of ds (Suc v) = offset_of ds v + ds ! v"
  by (simp add: offset_of_def take_Suc_conv_app_nth)

lemma offset_length: "offset_of ds (length ds) = sum_list ds" by (simp add: offset_of_def)

lemma offset_mono: "v \<le> length ds \<Longrightarrow> offset_of ds v \<le> sum_list ds"
  unfolding offset_of_def by (metis append_take_drop_id le_add1 sum_list_append)

lemma offset_end: "v < length ds \<Longrightarrow> offset_of ds v + ds ! v \<le> sum_list ds"
  using offset_mono [of "Suc v" ds] by (simp add: offset_Suc)

lemma blit_concat:
  assumes "map length xss = ds" "v < length ds" "length seg = ds ! v"
  shows "blit (concat xss) (offset_of ds v) seg = concat (xss[v := seg])"
  using assms
proof (induction xss arbitrary: ds v)
  case (Cons x xss)
  then show ?case using Cons.IH [of "map length xss" "v - 1"] by (cases v) (auto simp: blit_def offset_of_def)
qed simp

lemma update_concat:
  assumes "map length xss = ds" "v < length ds" "k < ds ! v"
  shows "(concat xss)[offset_of ds v + k := y] = concat (xss[v := (xss ! v)[k := y]])"
  using assms
proof (induction xss arbitrary: ds v)
  case (Cons x xss)
  then show ?case using Cons.IH [of "map length xss" "v - 1"] by (cases v) (auto simp: offset_of_def list_update_append)
qed simp


section \<open>The invariant\<close>

definition icsr_shape :: "'d ImmutableCsr \<Rightarrow> bool" where
  "icsr_shape s \<longleftrightarrow> length (adj_ptr s) = icsr_size s \<and> sum_list (ideg s) = length (nbr_list s) \<and>
     (\<forall>v<icsr_size s. ideg s ! v \<noteq> 0 \<longrightarrow> adj_ptr s ! v = Some (offset_of (ideg s) v)) \<and>
     (\<forall>p. 0 < icsr_size s \<and> adj_ptr s ! 0 = Some p \<longrightarrow> p = 0) \<and>
     iedge_num s = of_nat (length (filter exists_nbr (nbr_list s)))"

text \<open>Compaction also needs a pointer for the first vertex.\<close>

definition icsr_inv :: "'d ImmutableCsr \<Rightarrow> bool" where
  "icsr_inv s \<longleftrightarrow> icsr_shape s \<and> (nbr_list s \<noteq> [] \<longrightarrow> adj_ptr s ! 0 = Some 0)"

definition isegs :: "'d ImmutableCsr \<Rightarrow> 'd ImmutableNbr list list" where
  "isegs s = chop (ideg s) (nbr_list s)"

definition icsr_live :: "'d ImmutableCsr \<Rightarrow> nat \<Rightarrow> 'd edge list" where
  "icsr_live s v = (if v < icsr_size s then map iedge (filter exists_nbr (isegs s ! v)) else [])"

lemma inv_shape: "icsr_inv s \<Longrightarrow> icsr_shape s" by (simp add: icsr_inv_def)

lemma isegs_ok:
  assumes "icsr_shape s"
  shows "concat (isegs s) = nbr_list s" "map length (isegs s) = ideg s" "length (isegs s) = icsr_size s"
  using assms by (simp_all add: isegs_def icsr_shape_def concat_chop map_length_chop icsr_size_def)

text \<open>A state built from the lists of its vertices.\<close>

lemma from_segs:
  assumes "nbr_list s = concat xss" "ideg s = map length xss" "adj_ptr s = ptrs_of (ideg s)"
    "iedge_num s = of_nat (length (filter exists_nbr (concat xss)))"
  shows "icsr_inv s" "isegs s = xss"
proof -
  have "xss \<noteq> []" if "concat xss \<noteq> []" using that by auto
  then show "icsr_inv s" using assms by (auto simp: icsr_inv_def icsr_shape_def icsr_size_def ptrs_of_def length_concat)
  show "isegs s = xss" using assms by (simp add: isegs_def chop_concat)
qed

lemma length_filter_concat: "length (filter P (concat xss)) = sum_list (map (length \<circ> filter P) xss)"
  by (induction xss) auto

lemma icsr_count:
  assumes "icsr_shape s"
  shows "iedge_num s = of_nat (edge_total (icsr_size s) (icsr_live s))"
proof -
  have "map (\<lambda>v. length (icsr_live s v)) [0..<icsr_size s] = map (length \<circ> filter exists_nbr) (isegs s)"
    using isegs_ok(3) [OF assms] by (intro nth_equalityI) (auto simp: icsr_live_def)
  then have "edge_total (icsr_size s) (icsr_live s) = length (filter exists_nbr (concat (isegs s)))"
    by (simp add: edge_total_def length_filter_concat)
  then show ?thesis using assms isegs_ok(1) [OF assms] by (simp add: icsr_shape_def)
qed

section \<open>The flat loops\<close>

text \<open>
  After the vertices below \<open>i\<close>: their lists, rewritten to \<open>F\<close>, lie at the front of the array, and the
  lists from \<open>i\<close> on are untouched.
\<close>

definition flat_inv :: "(nat \<Rightarrow> 'a list) \<Rightarrow> 'a list \<Rightarrow> nat list \<Rightarrow> nat \<Rightarrow> 'a list \<Rightarrow> nat list \<Rightarrow> nat \<Rightarrow> bool" where
  "flat_inv F orig ds i nbrs degs removed \<longleftrightarrow>
     length nbrs = length orig \<and> length (concat (map F [0..<i])) + removed = offset_of ds i \<and>
     take (length (concat (map F [0..<i]))) nbrs = concat (map F [0..<i]) \<and>
     drop (offset_of ds i) nbrs = drop (offset_of ds i) orig \<and>
     degs = map (length \<circ> F) [0..<i] @ drop i ds"

lemma flat_inv_start: "flat_inv F orig ds 0 orig ds 0" by (simp add: flat_inv_def)

lemma flat_inv_deg: "flat_inv F orig ds i nbrs degs removed \<Longrightarrow> i < length ds \<Longrightarrow> degs ! i = ds ! i"
  by (simp add: flat_inv_def nth_append)

lemma flat_inv_seg:
  "flat_inv F orig ds i nbrs degs removed \<Longrightarrow> i < length ds \<Longrightarrow> take (ds ! i) (drop (offset_of ds i) nbrs) = chop ds orig ! i"
  by (simp add: flat_inv_def nth_chop)

lemma flat_degs: "i < length ds \<Longrightarrow> (map (length \<circ> F) [0..<i] @ drop i ds)[i := k] = map (length \<circ> F) [0..<i] @ k # drop (Suc i) ds"
  by (simp add: list_update_append flip: Cons_nth_drop_Suc)

lemma flat_skip:
  assumes "flat_inv F orig ds i nbrs degs removed" "i < length ds" "F i = []"
  shows "flat_inv F orig ds (Suc i) nbrs (degs[i := 0]) (removed + ds ! i)"
proof -
  have "drop (ds ! i) (drop (offset_of ds i) nbrs) = drop (ds ! i) (drop (offset_of ds i) orig)"
    using assms(1) by (simp only: flat_inv_def)
  then show ?thesis using assms by (auto simp: flat_inv_def flat_degs offset_Suc add.commute)
qed

lemma flat_step:
  assumes "flat_inv F orig ds i nbrs degs removed" "i < length ds" "sum_list ds = length orig"
    "F i = filter keep (chop ds orig ! i)"
    "squeeze a keep (\<lambda>e. e) nbrs (offset_of ds i) (offset_of ds i + ds ! i) (offset_of ds i - removed) removed = (nbrs', w', removed')"
  shows "flat_inv F orig ds (Suc i) nbrs' (degs[i := ds ! i - (removed' - removed)]) removed'"
    "w' = offset_of ds (Suc i) - removed'"
proof -
  let ?p = "offset_of ds i" let ?w = "length (concat (map F [0..<i]))"
  note f = assms(1) [unfolded flat_inv_def]
  have w: "?p - removed = ?w" "?w + removed = ?p" using f by auto
  have e: "?p + ds ! i \<le> length nbrs" using offset_end [OF assms(2)] assms(3) f by simp
  have seg: "take (?p + ds ! i - ?p) (drop ?p nbrs) = chop ds orig ! i" using flat_inv_seg [OF assms(1,2)] by simp
  from squeeze_spec [OF w(2) _ e, of a keep "\<lambda>e. e"] assms(5) seg assms(4)
  have q: "length nbrs' = length nbrs" "w' = ?w + length (F i)" "w' + removed' = ?p + ds ! i"
    "take w' nbrs' = take ?w nbrs @ F i" "drop (?p + ds ! i) nbrs' = drop (?p + ds ! i) nbrs"
    by (auto simp: w)
  have "drop (ds ! i) (drop ?p nbrs) = drop (ds ! i) (drop ?p orig)" using f by (simp only:)
  then have d: "drop (?p + ds ! i) nbrs' = drop (?p + ds ! i) orig" using q(5) by (simp add: add.commute)
  have "length (F i) \<le> ds ! i" using assms(2,4) by (simp add: nth_chop) (metis length_filter_le le_trans length_take min.cobounded2)
  then have l: "ds ! i - (removed' - removed) = length (F i)" using q(2,3) w(2) by linarith
  show "flat_inv F orig ds (Suc i) nbrs' (degs[i := ds ! i - (removed' - removed)]) removed'"
    unfolding l using f q(1-4) d assms(2) by (simp add: flat_inv_def flat_degs offset_Suc)
  show "w' = offset_of ds (Suc i) - removed'" using q(3) assms(2) by (simp add: offset_Suc)
qed

lemma flat_end:
  assumes "flat_inv F orig ds (length ds) nbrs degs removed" "sum_list ds = length orig"
  shows "take (length nbrs - removed) nbrs = concat (map F [0..<length ds])" "degs = map length (map F [0..<length ds])"
proof -
  have "length nbrs - removed = length (concat (map F [0..<length ds]))"
    using assms by (auto simp: flat_inv_def offset_length)
  then show "take (length nbrs - removed) nbrs = concat (map F [0..<length ds])"
    using assms(1) by (simp add: flat_inv_def)
  show "degs = map length (map F [0..<length ds])" using assms(1) by (simp add: flat_inv_def)
qed


lemma squeeze_removed:
  assumes "squeeze a keep touch buf r e w removed = (buf', w', removed')" "w + removed = r" "r \<le> e" "e \<le> length buf"
  shows "removed' = removed + length (filter (\<lambda>x. \<not> keep x) (take (e - r) (drop r buf)))"
proof -
  have "w' = w + length (filter keep (take (e - r) (drop r buf)))" "w' + removed' = e"
    using squeeze_spec [OF assms(2-4), of a keep touch] assms(1) by auto
  moreover have "length (filter keep xs) + length (filter (\<lambda>x. \<not> keep x) xs) = length xs" for xs
    by (rule sum_length_filter_compl)
  from this [of "take (e - r) (drop r buf)"] have "length (filter keep (take (e - r) (drop r buf))) +
      length (filter (\<lambda>x. \<not> keep x) (take (e - r) (drop r buf))) = e - r" using assms(3,4) by simp
  ultimately show ?thesis using assms(2,3) by linarith
qed

lemma copies_append: "copies keep removed (xs @ ys) \<longleftrightarrow> copies keep removed xs \<or> copies keep (removed + length (filter (\<lambda>x. \<not> keep x) xs)) ys"
  by (induction xs arbitrary: removed) auto

end
