(* ===== verification/Immutable_Refines.thy ===== *)
theory Immutable_Refines
  imports Immutable_Csr
begin

text \<open>
  The operations of \<open>ImmutableCsr\<close> do what the contract of a store says, and what compaction does
  when the first vertex of an opened store has no edges.
\<close>

section \<open>Compaction\<close>

lemma icompact_loop_ok:
  fixes orig :: "'d ImmutableNbr list"
  assumes "\<forall>v<length ds. ds ! v \<noteq> 0 \<longrightarrow> adjs ! v = Some (offset_of ds v)" "sum_list ds = length orig"
    "\<forall>v<length ds. F v = filter exists_nbr (chop ds orig ! v)"
  shows "flat_inv F orig ds i nbrs degs removed \<Longrightarrow> w = offset_of ds i - removed \<Longrightarrow> i \<le> length ds \<Longrightarrow>
    (if null \<and> copies exists_nbr removed (drop (offset_of ds i) orig)
     then icompact_loop null adjs [i..<length ds] (nbrs, degs, w, removed) = Inl UndefinedBehaviour
     else \<exists>nbrs' degs' w' removed'. icompact_loop null adjs [i..<length ds] (nbrs, degs, w, removed) = Inr (nbrs', degs', w', removed') \<and>
       flat_inv F orig ds (length ds) nbrs' degs' removed')"
proof (induction "length ds - i" arbitrary: i nbrs degs w removed)
  case 0
  then have "i = length ds" by simp
  then show ?case using 0 assms(2) by (simp add: offset_length)
next
  case (Suc k)
  then have i: "i < length ds" by simp
  let ?p = "offset_of ds i"
  have up: "[i..<length ds] = i # [Suc i..<length ds]" using i by (simp add: upt_conv_Cons)
  have rest: "drop ?p orig = chop ds orig ! i @ drop (offset_of ds (Suc i)) orig"
    using i by (simp add: nth_chop offset_Suc) (metis append_take_drop_id drop_drop add.commute)
  have deg: "degs ! i = ds ! i" by (rule flat_inv_deg [OF Suc.prems(1) i])
  have k: "k = length ds - Suc i" "Suc i \<le> length ds" using Suc(2) i by auto
  have len: "length nbrs = length orig" using Suc.prems(1) by (simp add: flat_inv_def)
  show ?case
  proof (cases "ds ! i = 0")
    case True
    have e: "chop ds orig ! i = []" using True i by (simp add: nth_chop)
    have "degs[i := 0] = degs" using deg True by (metis list_update_id)
    then have f: "flat_inv F orig ds (Suc i) nbrs degs removed"
      using flat_skip [OF Suc.prems(1) i] assms(3) i e True by simp
    have w: "w = offset_of ds (Suc i) - removed" using Suc.prems(2) True i by (simp add: offset_Suc)
    have "icompact_loop null adjs [i..<length ds] (nbrs, degs, w, removed) =
        icompact_loop null adjs [Suc i..<length ds] (nbrs, degs, w, removed)" unfolding up using deg True by simp
    moreover have "drop ?p orig = drop (offset_of ds (Suc i)) orig" unfolding rest e by simp
    ultimately show ?thesis using Suc.hyps(1) [OF k(1) f w k(2)] by (simp only:)
  next
    case False
    have a: "adjs ! i = Some ?p" using assms(1) i False by simp
    have b: "\<not> length nbrs < ?p + ds ! i" using offset_end [OF i] assms(2) len by simp
    have seg: "take (ds ! i) (drop ?p nbrs) = chop ds orig ! i" by (rule flat_inv_seg [OF Suc.prems(1) i])
    obtain nbrs' w' removed' where q: "squeeze False exists_nbr (\<lambda>e. e) nbrs ?p (?p + ds ! i) w removed = (nbrs', w', removed')"
      by (metis prod_cases3)
    have f: "F i = filter exists_nbr (chop ds orig ! i)" using assms(3) i by simp
    note st = flat_step [OF Suc.prems(1) i assms(2) f q [unfolded Suc.prems(2)]]
    have wr: "w + removed = ?p" using Suc.prems(1,2) unfolding flat_inv_def by linarith
    have "removed' = removed + length (filter (\<lambda>x. \<not> exists_nbr x) (chop ds orig ! i))"
      using squeeze_removed [OF q wr] b seg by simp
    then have c: "copies exists_nbr removed (drop ?p orig) \<longleftrightarrow>
        copies exists_nbr removed (chop ds orig ! i) \<or> copies exists_nbr removed' (drop (offset_of ds (Suc i)) orig)"
      by (simp only: rest copies_append)
    have loop: "icompact_loop null adjs [i..<length ds] (nbrs, degs, w, removed) =
        (if null \<and> copies exists_nbr removed (chop ds orig ! i) then Inl UndefinedBehaviour
         else icompact_loop null adjs [Suc i..<length ds] (nbrs', degs[i := ds ! i - (removed' - removed)], w', removed'))"
      unfolding up using False a b seg deg q by simp
    show ?thesis
    proof (cases "null \<and> copies exists_nbr removed (chop ds orig ! i)")
      case True
      then show ?thesis unfolding loop c by simp
    next
      case nc: False
      then have "(null \<and> copies exists_nbr removed (drop ?p orig)) = (null \<and> copies exists_nbr removed' (drop (offset_of ds (Suc i)) orig))"
        using c by blast
      then show ?thesis using Suc.hyps(1) [OF k(1) st k(2)] unfolding loop if_not_P [OF nc] by (simp only:)
    qed
  qed
qed


lemma map_isegs: "icsr_shape s \<Longrightarrow> map (\<lambda>v. f (chop (ideg s) (nbr_list s) ! v)) [0..<length (ideg s)] = map f (isegs s)"
  by (rule nth_equalityI) (auto simp: isegs_def)

lemma concat_map_filter: "concat (map (filter P) xss) = filter P (concat xss)"
  by (induction xss) auto

text \<open>Compaction of a well-shaped store writes through a null pointer, or keeps the live entries of every vertex.\<close>

lemma icsr_compact_cases:
  assumes "icsr_shape s"
  shows "if 0 < icsr_size s \<and> adj_ptr s ! 0 = None \<and> copies exists_nbr 0 (nbr_list s)
    then icsr_compact s = Inl UndefinedBehaviour
    else \<exists>s'. icsr_compact s = Inr s' \<and> icsr_shape s' \<and> (0 < icsr_size s \<or> icsr_inv s \<longrightarrow> icsr_inv s') \<and> icsr_size s' = icsr_size s \<and>
      isegs s' = map (filter exists_nbr) (isegs s)"
proof (cases "icsr_size s = 0")
  case True
  then show ?thesis using assms by (simp add: icsr_compact_def isegs_def icsr_size_def)
next
  case False
  let ?ds = "ideg s" let ?o = "nbr_list s"
  define F where "F = (\<lambda>v. filter exists_nbr (chop ?ds ?o ! v))"
  define w where "w = (case adj_ptr s ! 0 of None \<Rightarrow> 0 | Some p \<Rightarrow> p)"
  have n: "icsr_size s = length ?ds" by (simp add: icsr_size_def)
  have sh: "\<forall>v<length ?ds. ?ds ! v \<noteq> 0 \<longrightarrow> adj_ptr s ! v = Some (offset_of ?ds v)" "sum_list ?ds = length ?o"
    "w = offset_of ?ds 0 - 0"
    using assms False unfolding w_def by (auto simp: icsr_shape_def icsr_size_def split: option.split)
  note loop = icompact_loop_ok [OF sh(1,2) _ flat_inv_start sh(3), where F = F and null = "adj_ptr s ! 0 = None"]
  have "\<forall>v<length ?ds. F v = filter exists_nbr (chop ?ds ?o ! v)" by (simp add: F_def)
  note loop = loop [OF this le0]
  show ?thesis
  proof (cases "adj_ptr s ! 0 = None \<and> copies exists_nbr 0 ?o")
    case True
    then have "icompact_loop (adj_ptr s ! 0 = None) (adj_ptr s) [0..<length ?ds] (?o, ?ds, w, 0) = Inl UndefinedBehaviour"
      using loop by simp
    then have "icsr_compact s = Inl UndefinedBehaviour" using False by (simp add: icsr_compact_def n w_def)
    then show ?thesis using True False by simp
  next
    case nc: False
    obtain nbrs degs w' removed where l: "icompact_loop (adj_ptr s ! 0 = None) (adj_ptr s) [0..<length ?ds] (?o, ?ds, w, 0) = Inr (nbrs, degs, w', removed)"
      and fi: "flat_inv F ?o ?ds (length ?ds) nbrs degs removed"
      using loop nc by auto
    let ?x = "map (filter exists_nbr) (isegs s)"
    define s' where "s' = s \<lparr> nbr_list := take (length nbrs - removed) nbrs, ideg := degs, adj_ptr := ptrs_of degs \<rparr>"
    have F: "map F [0..<length ?ds] = ?x" unfolding F_def by (rule map_isegs [OF assms])
    note fe = flat_end [OF fi sh(2), unfolded F]
    have "iedge_num s = of_nat (length (filter exists_nbr (concat ?x)))"
      using assms isegs_ok(1) [OF assms] by (simp add: icsr_shape_def concat_map_filter)
    then have "icsr_inv s'" "isegs s' = ?x" using from_segs [of s' ?x] fe by (simp_all add: s'_def)
    moreover have "icsr_compact s = Inr s'" using False l by (simp add: icsr_compact_def n w_def s'_def)
    moreover have "icsr_size s' = icsr_size s" using fe(2) isegs_ok(3) [OF assms] by (simp add: s'_def icsr_size_def)
    ultimately show ?thesis using nc by (auto simp: icsr_inv_def)
  qed
qed

lemma icsr_compact_ok:
  assumes "icsr_inv s"
  shows "\<exists>s'. icsr_compact s = Inr s' \<and> icsr_inv s' \<and> icsr_size s' = icsr_size s \<and> icsr_live s' = icsr_live s"
proof -
  have "\<not> (adj_ptr s ! 0 = None \<and> copies exists_nbr 0 (nbr_list s))" using assms by (auto simp: icsr_inv_def)
  then obtain s' where s': "icsr_compact s = Inr s'" "icsr_inv s'" "icsr_size s' = icsr_size s" "isegs s' = map (filter exists_nbr) (isegs s)"
    using icsr_compact_cases [OF inv_shape [OF assms]] assms by auto
  moreover have "icsr_live s' = icsr_live s"
    using s'(3,4) isegs_ok(3) [OF inv_shape [OF assms]] by (auto simp: fun_eq_iff icsr_live_def)
  ultimately show ?thesis by blast
qed

section \<open>Deleting vertices\<close>

section \<open>Deletion of vertices\<close>

lemma idelete_step:
  fixes orig :: "'d ImmutableNbr list"
  assumes "flat_inv F orig ds i nbrs degs removed" "i < length ds" "ds ! i \<noteq> 0 \<longrightarrow> adjs ! i = Some (offset_of ds i)"
    "sum_list ds = length orig" "F i = (if i \<in> S then [] else filter (\<lambda>e. ineighbor e \<notin> D) (chop ds orig ! i))"
  shows "\<exists>nbrs1 degs1 removed1 gone.
    (\<forall>is n. idelete_loop S D adjs (i # is) (nbrs, degs, removed, n) = idelete_loop S D adjs is (nbrs1, degs1, removed1, n - of_nat gone)) \<and>
    flat_inv F orig ds (Suc i) nbrs1 degs1 removed1 \<and>
    length (filter exists_nbr (F i)) + gone = length (filter exists_nbr (chop ds orig ! i))"
proof -
  let ?p = "offset_of ds i" let ?seg = "chop ds orig ! i"
  have deg: "degs ! i = ds ! i" by (rule flat_inv_deg [OF assms(1,2)])
  have seg: "take (ds ! i) (drop ?p nbrs) = ?seg" by (rule flat_inv_seg [OF assms(1,2)])
  have b: "\<not> length nbrs < ?p + ds ! i" using offset_end [OF assms(2)] assms(1,4) by (simp add: flat_inv_def)
  consider (zero) "ds ! i = 0" | (source) "ds ! i \<noteq> 0" "i \<in> S" | (keep) "ds ! i \<noteq> 0" "i \<notin> S" by blast
  then show ?thesis
  proof cases
    case zero
    then have e: "?seg = []" using assms(2) by (simp add: nth_chop)
    have "degs[i := 0] = degs" using deg zero by (metis list_update_id)
    then have "flat_inv F orig ds (Suc i) nbrs degs removed" using flat_skip [OF assms(1,2)] assms(5) e zero by simp
    then show ?thesis using deg zero e assms(5)
      by (intro exI [of _ nbrs] exI [of _ degs] exI [of _ removed] exI [of _ 0]) simp
  next
    case source
    have "flat_inv F orig ds (Suc i) nbrs (degs[i := 0]) (removed + ds ! i)" using flat_skip [OF assms(1,2)] assms(5) source by simp
    then show ?thesis using deg source assms(3,5) b seg
      by (intro exI [of _ nbrs] exI [of _ "degs[i := 0]"] exI [of _ "removed + ds ! i"] exI [of _ "length (filter exists_nbr ?seg)"]) simp
  next
    case keep
    have f: "F i = filter (\<lambda>e. ineighbor e \<notin> D) ?seg" using assms(5) keep by simp
    obtain nbrs' w' removed' where q: "squeeze True (\<lambda>e. ineighbor e \<notin> D) (\<lambda>e. e) nbrs ?p (?p + ds ! i) (?p - removed) removed = (nbrs', w', removed')"
      by (metis prod_cases3)
    have "length (filter exists_nbr (F i)) + length (filter (\<lambda>e. exists_nbr e \<and> ineighbor e \<in> D) ?seg) = length (filter exists_nbr ?seg)"
      using length_filter_split [of exists_nbr ?seg "\<lambda>e. ineighbor e \<notin> D"] by (simp add: f conj_commute)
    then show ?thesis using deg keep assms(3) b seg q flat_step(1) [OF assms(1,2,4) f q]
      by (intro exI [of _ nbrs'] exI [of _ "degs[i := ds ! i - (removed' - removed)]"] exI [of _ removed']
        exI [of _ "length (filter (\<lambda>e. exists_nbr e \<and> ineighbor e \<in> D) ?seg)"]) simp
  qed
qed

lemma chop_rest: "i < length ds \<Longrightarrow> drop (offset_of ds i) orig = chop ds orig ! i @ drop (offset_of ds (Suc i)) orig"
  by (simp add: nth_chop offset_Suc) (metis append_take_drop_id drop_drop add.commute)

lemma idelete_loop_ok:
  fixes orig :: "'d ImmutableNbr list"
  assumes "\<forall>v<length ds. ds ! v \<noteq> 0 \<longrightarrow> adjs ! v = Some (offset_of ds v)" "sum_list ds = length orig"
    "\<forall>v<length ds. F v = (if v \<in> S then [] else filter (\<lambda>e. ineighbor e \<notin> D) (chop ds orig ! v))"
  shows "flat_inv F orig ds i nbrs degs removed \<Longrightarrow> i \<le> length ds \<Longrightarrow>
    \<exists>nbrs' degs' removed' gone. (\<forall>n. idelete_loop S D adjs [i..<length ds] (nbrs, degs, removed, n) = Inr (nbrs', degs', removed', n - of_nat gone)) \<and>
       flat_inv F orig ds (length ds) nbrs' degs' removed' \<and>
       length (filter exists_nbr (concat (map F [i..<length ds]))) + gone = length (filter exists_nbr (drop (offset_of ds i) orig))"
proof (induction "length ds - i" arbitrary: i nbrs degs removed)
  case 0
  then have i: "i = length ds" by simp
  then show ?case using 0 assms(2) by (intro exI [of _ nbrs] exI [of _ degs] exI [of _ removed] exI [of _ 0]) (simp add: offset_length)
next
  case (Suc k)
  then have i: "i < length ds" by simp
  have up: "[i..<length ds] = i # [Suc i..<length ds]" using i by (simp add: upt_conv_Cons)
  have k: "k = length ds - Suc i" "Suc i \<le> length ds" using Suc(2) i by auto
  from idelete_step [OF Suc.prems(1) i, of adjs S D] assms i
  obtain nbrs1 degs1 removed1 g1 where st:
    "\<And>is n. idelete_loop S D adjs (i # is) (nbrs, degs, removed, n) = idelete_loop S D adjs is (nbrs1, degs1, removed1, n - of_nat g1)"
    "flat_inv F orig ds (Suc i) nbrs1 degs1 removed1"
    "length (filter exists_nbr (F i)) + g1 = length (filter exists_nbr (chop ds orig ! i))" by blast
  from Suc.hyps(1) [OF k(1) st(2) k(2)] obtain nbrs' degs' removed' g2 where ih:
    "\<And>n. idelete_loop S D adjs [Suc i..<length ds] (nbrs1, degs1, removed1, n) = Inr (nbrs', degs', removed', n - of_nat g2)"
    "flat_inv F orig ds (length ds) nbrs' degs' removed'"
    "length (filter exists_nbr (concat (map F [Suc i..<length ds]))) + g2 = length (filter exists_nbr (drop (offset_of ds (Suc i)) orig))"
    by blast
  have "idelete_loop S D adjs [i..<length ds] (nbrs, degs, removed, n) = Inr (nbrs', degs', removed', n - of_nat (g1 + g2))" for n
    unfolding up st(1) ih(1) by (simp add: diff_diff_eq)
  moreover have "length (filter exists_nbr (concat (map F [i..<length ds]))) + (g1 + g2) =
      length (filter exists_nbr (drop (offset_of ds i) orig))"
    using st(3) ih(3) unfolding up chop_rest [OF i] by simp
  ultimately show ?case using ih(2) by blast
qed

lemma ibatch_delete_vertices_ok:
  assumes "icsr_inv s" "NO_VERTEX \<notin> D"
  shows "\<exists>s'. ibatch_delete_vertices S D s = Inr s' \<and> icsr_inv s' \<and> icsr_size s' = icsr_size s \<and>
    icsr_live s' = without_vertices S D (icsr_live s)"
proof -
  let ?ds = "ideg s" let ?o = "nbr_list s"
  note sh = inv_shape [OF assms(1)]
  define F where "F = (\<lambda>v. if v \<in> S then [] else filter (\<lambda>e. ineighbor e \<notin> D) (chop ?ds ?o ! v))"
  have p: "\<forall>v<length ?ds. ?ds ! v \<noteq> 0 \<longrightarrow> adj_ptr s ! v = Some (offset_of ?ds v)" "sum_list ?ds = length ?o"
    using sh by (auto simp: icsr_shape_def icsr_size_def)
  have f: "\<forall>v<length ?ds. F v = (if v \<in> S then [] else filter (\<lambda>e. ineighbor e \<notin> D) (chop ?ds ?o ! v))" by (simp add: F_def)
  have z: "drop (offset_of ?ds 0) ?o = ?o" by (simp add: offset_of_def)
  from idelete_loop_ok [OF p f flat_inv_start le0, unfolded z]
  obtain nbrs degs removed gone where l:
    "\<And>n. idelete_loop S D (adj_ptr s) [0..<length ?ds] (?o, ?ds, 0, n) = Inr (nbrs, degs, removed, n - of_nat gone)"
    "flat_inv F ?o ?ds (length ?ds) nbrs degs removed"
    "length (filter exists_nbr (concat (map F [0..<length ?ds]))) + gone = length (filter exists_nbr ?o)"
    by blast
  let ?x = "map F [0..<length ?ds]"
  define s' where "s' = s \<lparr> nbr_list := take (length nbrs - removed) nbrs, ideg := degs, adj_ptr := ptrs_of degs,
                 iunsorted := 0, iedge_num := iedge_num s - of_nat gone \<rparr>"
  note fe = flat_end [OF l(2) p(2)]
  have "iedge_num s = of_nat (length (filter exists_nbr (concat ?x)) + gone)" unfolding l(3) using sh by (simp add: icsr_shape_def)
  then have "iedge_num s' = of_nat (length (filter exists_nbr (concat ?x)))" by (simp add: s'_def)
  then have i: "icsr_inv s'" "isegs s' = ?x" using from_segs [of s' ?x] fe by (simp_all add: s'_def)
  have n: "icsr_size s' = icsr_size s" using fe(2) by (simp add: s'_def icsr_size_def)
  have "icsr_live s' = without_vertices S D (icsr_live s)"
    using n i(2) by (auto simp: fun_eq_iff icsr_live_def without_vertices_def F_def isegs_def icsr_size_def filter_map comp_def iedge_def conj_commute)
  moreover have "ibatch_delete_vertices S D s = Inr s'" by (simp add: ibatch_delete_vertices_def icsr_size_def l(1) s'_def)
  ultimately show ?thesis using i(1) n by blast
qed

section \<open>Deletion of edges\<close>

definition mark_seg :: "(nat \<Rightarrow> 'd ImmutableNbr \<Rightarrow> bool) \<Rightarrow> 'd ImmutableNbr list \<Rightarrow> 'd ImmutableNbr list" where
  "mark_seg P seg = map (\<lambda>k. if exists_nbr (seg ! k) \<and> P k (seg ! k) then drop_nbr (seg ! k) else seg ! k) [0..<length seg]"

lemma length_mark_seg [simp]: "length (mark_seg P seg) = length seg" by (simp add: mark_seg_def)

lemma drop_nbr_gone [simp]: "\<not> exists_nbr (drop_nbr e)" by (simp add: exists_nbr_def drop_nbr_def)

lemma filter_nth_upt: "length (filter Q xs) = length (filter (\<lambda>k. Q (xs ! k)) [0..<length xs])"
proof -
  have "filter Q xs = filter Q (map (\<lambda>k. xs ! k) [0..<length xs])" by (simp add: map_nth)
  then show ?thesis by (simp add: filter_map comp_def)
qed

lemma mark_count:
  "length (filter exists_nbr (mark_seg P seg)) + length (filter (\<lambda>k. exists_nbr (seg ! k) \<and> P k (seg ! k)) [0..<length seg]) =
    length (filter exists_nbr seg)"
proof -
  have "filter (exists_nbr \<circ> (\<lambda>k. if exists_nbr (seg ! k) \<and> P k (seg ! k) then drop_nbr (seg ! k) else seg ! k)) [0..<length seg] =
      filter (\<lambda>k. exists_nbr (seg ! k) \<and> \<not> P k (seg ! k)) [0..<length seg]" by (rule filter_cong) auto
  then have "length (filter exists_nbr (mark_seg P seg)) = length (filter (\<lambda>k. exists_nbr (seg ! k) \<and> \<not> P k (seg ! k)) [0..<length seg])"
    by (simp add: mark_seg_def filter_map)
  then show ?thesis unfolding filter_nth_upt [of exists_nbr seg]
    using length_filter_split [of "\<lambda>k. exists_nbr (seg ! k)" "[0..<length seg]" "\<lambda>k. P k (seg ! k)"] by linarith
qed

lemma mark_live: "filter exists_nbr (mark_seg (\<lambda>k. P) seg) = filter (\<lambda>e. exists_nbr e \<and> \<not> P e) seg"
proof -
  have "mark_seg (\<lambda>k. P) seg = map (\<lambda>e. if exists_nbr e \<and> P e then drop_nbr e else e) seg"
    by (rule nth_equalityI) (auto simp: mark_seg_def)
  moreover have "filter exists_nbr (map (\<lambda>e. if exists_nbr e \<and> P e then drop_nbr e else e) xs) =
      filter (\<lambda>e. exists_nbr e \<and> \<not> P e) xs" for xs by (induction xs) auto
  ultimately show ?thesis by simp
qed

lemma count_update:
  assumes "v < length xss"
  shows "length (filter P (concat (xss[v := seg]))) + length (filter P (xss ! v)) = length (filter P (concat xss)) + length (filter P seg)"
  using sum_list_update_nat [of v "map (length \<circ> filter P) xss" "length (filter P seg)"] assms
  by (simp add: length_filter_concat map_update)

lemma imark_loop_ok:
  assumes "\<forall>v<length ds. ds ! v \<noteq> 0 \<longrightarrow> adjs ! v = Some (offset_of ds v)" 
  shows "map length xss = ds \<Longrightarrow> distinct is \<Longrightarrow> set is \<subseteq> {..<length ds} \<Longrightarrow>
    \<exists>gone. (\<forall>n. imark_loop P adjs ds is (concat xss, n) =
        Inr (concat (map (\<lambda>v. if v \<in> set is then mark_seg (P v) (xss ! v) else xss ! v) [0..<length ds]), n - of_nat gone)) \<and>
      length (filter exists_nbr (concat (map (\<lambda>v. if v \<in> set is then mark_seg (P v) (xss ! v) else xss ! v) [0..<length ds]))) + gone =
        length (filter exists_nbr (concat xss))"
proof (induction "is" arbitrary: xss)
  case Nil
  have "map ((!) xss) [0..<length ds] = xss" using Nil(1) by (auto intro: nth_equalityI)
  then show ?case by (intro exI [of _ 0]) simp
next
  case (Cons i "is")
  have i: "i < length ds" "i < length xss" "ds ! i = length (xss ! i)" using Cons.prems by auto
  let ?seg = "mark_seg (P i) (xss ! i)" let ?y = "xss[i := ?seg]"
  let ?g = "length (filter (\<lambda>k. exists_nbr (xss ! i ! k) \<and> P i k (xss ! i ! k)) [0..<length (xss ! i)])"
  have seg: "take (ds ! i) (drop (offset_of ds i) (concat xss)) = xss ! i"
    using nth_chop [OF i(1), of "concat xss"] chop_concat [OF Cons.prems(1)] by simp
  have len: "length (concat xss) = sum_list ds" using Cons.prems(1) by (simp add: length_concat)
  have step: "imark_loop P adjs ds (i # is) (concat xss, n) = imark_loop P adjs ds is (concat ?y, n - of_nat ?g)" for n
  proof (cases "ds ! i = 0")
    case True
    then have "xss ! i = []" using i by simp
    moreover from this have "?y = xss" by (simp add: mark_seg_def) (metis list_update_id)
    ultimately show ?thesis using True by simp
  next
    case False
    then have a: "adjs ! i = Some (offset_of ds i)" using assms i by simp
    have b: "\<not> length (concat xss) < offset_of ds i + ds ! i" using offset_end [OF i(1)] len by simp
    have "blit (concat xss) (offset_of ds i) ?seg = concat ?y" using blit_concat [OF Cons.prems(1) i(1)] i by simp
    then show ?thesis using False a b seg i(3) by (simp add: mark_seg_def [symmetric] Let_def)
  qed
  have y: "map length ?y = ds" using Cons.prems(1) i by (simp add: map_update) (metis list_update_id)
  have eq: "map (\<lambda>v. if v \<in> set is then mark_seg (P v) (?y ! v) else ?y ! v) [0..<length ds] =
      map (\<lambda>v. if v \<in> set (i # is) then mark_seg (P v) (xss ! v) else xss ! v) [0..<length ds]"
    using Cons.prems i by (intro map_cong) (auto simp: nth_list_update)
  obtain g where g: "\<And>n. imark_loop P adjs ds is (concat ?y, n) =
        Inr (concat (map (\<lambda>v. if v \<in> set (i # is) then mark_seg (P v) (xss ! v) else xss ! v) [0..<length ds]), n - of_nat g)"
      "length (filter exists_nbr (concat (map (\<lambda>v. if v \<in> set (i # is) then mark_seg (P v) (xss ! v) else xss ! v) [0..<length ds]))) + g =
        length (filter exists_nbr (concat ?y))"
    using Cons.IH [OF y] Cons.prems(2,3) unfolding eq by auto
  have "length (filter exists_nbr (concat ?y)) + ?g = length (filter exists_nbr (concat xss))"
    using count_update [OF i(2), of exists_nbr ?seg] mark_count [of "P i" "xss ! i"] by linarith
  then show ?case using g(2) by (intro exI [of _ "?g + g"]) (simp only: step g(1), simp)
qed

lemma imark_ok:
  assumes "icsr_inv s"
  shows "\<exists>s'. imark (\<lambda>v k. P v) s = Inr s' \<and> icsr_inv s' \<and> icsr_size s' = icsr_size s \<and>
    isegs s' = map (\<lambda>v. mark_seg (\<lambda>k. P v) (isegs s ! v)) [0..<icsr_size s]"
proof -
  let ?ds = "ideg s"
  note sh = inv_shape [OF assms]
  note ok = isegs_ok [OF sh]
  have p: "\<forall>v<length ?ds. ?ds ! v \<noteq> 0 \<longrightarrow> adj_ptr s ! v = Some (offset_of ?ds v)" using sh by (simp add: icsr_shape_def icsr_size_def)
  let ?x = "map (\<lambda>v. mark_seg (\<lambda>k. P v) (isegs s ! v)) [0..<length ?ds]"
  have x: "map (\<lambda>v. if v \<in> set [0..<length ?ds] then mark_seg (\<lambda>k. P v) (isegs s ! v) else isegs s ! v) [0..<length ?ds] = ?x" by simp
  have sub: "set [0..<length ?ds] \<subseteq> {..<length ?ds}" by auto
  obtain g where g: "\<And>n. imark_loop (\<lambda>v k. P v) (adj_ptr s) ?ds [0..<length ?ds] (nbr_list s, n) = Inr (concat ?x, n - of_nat g)"
      "length (filter exists_nbr (concat ?x)) + g = length (filter exists_nbr (nbr_list s))"
    using imark_loop_ok [OF p ok(2) distinct_upt sub, of "\<lambda>v k. P v"] unfolding x ok(1) by blast
  have "map length ?x = map length (isegs s)" using ok(3) by (auto simp: icsr_size_def intro!: nth_equalityI)
  then have lens: "map length ?x = ?ds" using ok(2) by simp
  then have l: "length (concat ?x) = length (nbr_list s)" using sh by (simp add: length_concat icsr_shape_def)
  obtain y where y: "y = concat ?x" by simp
  define s' where "s' = s \<lparr> nbr_list := y, iedge_num := iedge_num s - of_nat g, iunsorted := 0 \<rparr>"
  have "iedge_num s = of_nat (length (filter exists_nbr y) + g)" using g(2) sh by (simp add: icsr_shape_def y)
  then have n: "iedge_num s' = of_nat (length (filter exists_nbr y))" by (simp add: s'_def)
  have "length y = length (nbr_list s)" using l y by simp
  then have e: "length y = length (nbr_list s)" "y = [] \<longleftrightarrow> nbr_list s = []" by (simp, metis length_0_conv)
  have "icsr_inv s'" using assms n e by (simp add: icsr_inv_def icsr_shape_def icsr_size_def s'_def)
  moreover have "nbr_list s' = y" "ideg s' = ?ds" by (simp_all add: s'_def)
  then have "isegs s' = chop ?ds (concat ?x)" by (simp only: isegs_def [of s'] y)
  then have "isegs s' = ?x" using chop_concat [OF lens] by (rule trans)
  moreover have "imark (\<lambda>v k. P v) s = Inr s'" unfolding imark_def icsr_size_def g(1) y [symmetric] by (simp add: s'_def)
  moreover have "icsr_size s' = icsr_size s" by (simp add: s'_def icsr_size_def)
  ultimately show ?thesis unfolding icsr_size_def by blast
qed

lemma ibatch_delete_edges_ok:
  assumes "icsr_inv s" "length srcs = length dsts"
  shows "\<exists>s'. ibatch_delete_edges srcs dsts s = Inr s' \<and> icsr_inv s' \<and> icsr_size s' = icsr_size s \<and>
    icsr_live s' = without_pairs (set (zip srcs dsts)) (icsr_live s)"
proof -
  obtain s' where s': "imark (\<lambda>v k e. (v, ineighbor e) \<in> set (zip srcs dsts)) s = Inr s'" "icsr_inv s'" "icsr_size s' = icsr_size s"
    "isegs s' = map (\<lambda>v. mark_seg (\<lambda>k e. (v, ineighbor e) \<in> set (zip srcs dsts)) (isegs s ! v)) [0..<icsr_size s]"
    using imark_ok [OF assms(1), of "\<lambda>v e. (v, ineighbor e) \<in> set (zip srcs dsts)"] by auto
  have "icsr_live s' = without_pairs (set (zip srcs dsts)) (icsr_live s)"
    by (auto simp: fun_eq_iff icsr_live_def without_pairs_def s'(3,4) mark_live filter_map comp_def iedge_def conj_commute)
  then show ?thesis using s' assms(2) by (auto simp: ibatch_delete_edges_def)
qed

section \<open>Batch insertion\<close>

lemma move_loop_ok:
  assumes "length od = length nd" "\<forall>v<length nd. od ! v \<le> nd ! v"
  shows "i \<le> length nd \<Longrightarrow> offset_of nd i \<le> length arr \<Longrightarrow> take (offset_of od i) arr = take (offset_of od i) orig \<Longrightarrow>
    move_loop i nd od arr (offset_of nd i) (offset_of od i) = (arr', ptrs) \<Longrightarrow>
    length arr' = length arr \<and> drop (offset_of nd i) arr' = drop (offset_of nd i) arr \<and> ptrs = map (\<lambda>v. Some (offset_of nd v)) [0..<i] \<and>
    (\<forall>v<i. take (od ! v) (drop (offset_of nd v) arr') = take (od ! v) (drop (offset_of od v) orig))"
proof (induction i arbitrary: arr arr' ptrs)
  case (Suc i)
  have i: "i < length nd" "i < length od" using Suc.prems(1) assms(1) by auto
  let ?n = "offset_of nd i" let ?o = "offset_of od i"
  note S = offset_Suc [OF i(1)] offset_Suc [OF i(2)]
  have le: "?o \<le> ?n" unfolding offset_of_def using assms i
    by (intro sum_list_mono2) auto
  define seg where "seg = take (od ! i) (drop ?o arr)"
  have "?n + nd ! i \<le> length arr" "od ! i \<le> nd ! i" using Suc.prems(2) assms(2) i by (auto simp: S)
  then have segl: "length seg = od ! i" using le by (simp add: seg_def)
  have pre: "take k arr = take k orig" if "k \<le> ?o + od ! i" for k
    using arg_cong [OF Suc.prems(3), of "take k"] that by (simp add: S min_absorb1)
  have sego: "seg = take (od ! i) (drop ?o orig)" using pre [of "?o + od ! i"] unfolding seg_def by (simp add: take_drop add.commute)
  let ?a = "blit arr ?n seg"
  have nl: "?n + nd ! i \<le> length arr" "od ! i \<le> nd ! i" using Suc.prems(2) assms(2) i by (auto simp: S)
  have al: "length ?a = length arr" "take ?o ?a = take ?o orig" "drop (?n + nd ! i) ?a = drop (?n + nd ! i) arr" "take (od ! i) (drop ?n ?a) = seg"
    using nl segl le pre [of ?o] by (auto simp: blit_def min_absorb1 add.commute)
  obtain b q where m: "move_loop i nd od ?a ?n ?o = (b, q)" by force
  have h: "length b = length ?a \<and> drop ?n b = drop ?n ?a \<and> q = map (\<lambda>v. Some (offset_of nd v)) [0..<i] \<and>
      (\<forall>v<i. take (od ! v) (drop (offset_of nd v) b) = take (od ! v) (drop (offset_of od v) orig))"
    using Suc.IH [OF _ _ al(2) m] i nl al(1) by simp
  then have "drop (nd ! i) (drop ?n b) = drop (nd ! i) (drop ?n ?a)" by (simp only:)
  then have "drop (?n + nd ! i) b = drop (?n + nd ! i) arr" using al(3) by (simp add: add.commute)
  moreover have "arr' = b" "ptrs = q @ [Some ?n]" using Suc.prems(4) m by (auto simp: S seg_def)
  ultimately show ?case using al(1,4) h sego by (auto simp: S less_Suc_eq)
qed simp

lemma iput_loop_ok:
  "map length xss = nd \<Longrightarrow> length cur = length nd \<Longrightarrow> \<forall>e\<in>set es. fst e < length nd \<Longrightarrow>
   \<forall>v<length nd. cur ! v + added_at (map fst es) v = nd ! v \<Longrightarrow>
   iput_loop es (ptrs_of nd) cur (concat xss) =
     concat (map (\<lambda>v. take (cur ! v) (xss ! v) @ map (\<lambda>e. \<lparr> ineighbor = fst (snd e), idata = snd (snd e) \<rparr>) (filter (\<lambda>e. fst e = v) es)) [0..<length nd])"
proof (induction es arbitrary: xss cur)
  case Nil
  then have "map (\<lambda>v. take (cur ! v) (xss ! v)) [0..<length nd] = xss" by (auto intro!: nth_equalityI)
  then show ?case by simp
next
  case (Cons e es)
  obtain src dst d where e: "e = (src, dst, d)" by (cases e)
  let ?y = "\<lparr> ineighbor = dst, idata = d \<rparr>" let ?k = "cur ! src"
  have s: "src < length nd" "src < length xss" "src < length cur" using Cons.prems e by auto
  have "?k + added_at (map fst (e # es)) src = nd ! src" using Cons.prems(4) s(1) by blast
  then have k: "?k < nd ! src" "?k < length (xss ! src)" using e s Cons.prems(1) by auto
  let ?x = "xss[src := (xss ! src)[?k := ?y]]" let ?c = "cur[src := Suc ?k]"
  have "\<forall>v<length nd. ?c ! v + added_at (map fst es) v = nd ! v"
    using Cons.prems(4) s e by (auto simp: nth_list_update split: if_splits)
  moreover have "map length ?x = nd" using Cons.prems(1) s by (simp add: map_update) (metis list_update_id nth_map)
  ultimately have ih: "iput_loop es (ptrs_of nd) ?c (concat ?x) =
     concat (map (\<lambda>v. take (?c ! v) (?x ! v) @ map (\<lambda>e. \<lparr> ineighbor = fst (snd e), idata = snd (snd e) \<rparr>) (filter (\<lambda>e. fst e = v) es)) [0..<length nd])"
    using Cons.IH [of ?x ?c] Cons.prems(2,3) by simp
  have "take (Suc ?k) ((xss ! src)[?k := ?y]) = take ?k (xss ! src) @ [?y]" using k(2) by (simp add: take_Suc_conv_app_nth)
  then have eq: "map (\<lambda>v. take (?c ! v) (?x ! v) @ map (\<lambda>e. \<lparr> ineighbor = fst (snd e), idata = snd (snd e) \<rparr>) (filter (\<lambda>e. fst e = v) es)) [0..<length nd] =
    map (\<lambda>v. take (cur ! v) (xss ! v) @ map (\<lambda>e. \<lparr> ineighbor = fst (snd e), idata = snd (snd e) \<rparr>) (filter (\<lambda>e. fst e = v) (e # es))) [0..<length nd]"
    using s e by (intro map_cong) (auto simp: nth_list_update)
  have "the (ptrs_of nd ! src) = offset_of nd src" using s by (simp add: ptrs_of_def)
  then have "iput_loop (e # es) (ptrs_of nd) cur (concat xss) = iput_loop es (ptrs_of nd) ?c (concat ?x)"
    using update_concat [OF Cons.prems(1) s(1) k(1), of ?y] e by simp
  then show ?case unfolding ih eq .
qed

lemma moved_segs:
  assumes "length od = length nd" "\<forall>v<length nd. od ! v \<le> nd ! v" "sum_list od = length nbrs" "sum_list nd = length nbrs + length pad"
    "move_loop (length nd) nd od (nbrs @ pad) (length nbrs + length pad) (length nbrs) = (arr, ptrs)"
  shows "length arr = sum_list nd" "ptrs = ptrs_of nd" "v < length nd \<Longrightarrow> take (od ! v) (chop nd arr ! v) = chop od nbrs ! v"
proof -
  have offs: "offset_of nd (length nd) = length nbrs + length pad" "offset_of od (length nd) = length nbrs"
    using offset_length [of nd] offset_length [of od] assms(1,3,4) by simp_all
  have mv: "length arr = length (nbrs @ pad)" "ptrs = map (\<lambda>v. Some (offset_of nd v)) [0..<length nd]"
    "\<forall>v<length nd. take (od ! v) (drop (offset_of nd v) arr) = take (od ! v) (drop (offset_of od v) (nbrs @ pad))"
    using move_loop_ok [OF assms(1,2) le_refl, of "nbrs @ pad" "nbrs @ pad" arr ptrs] unfolding offs using assms(5) by auto
  show "length arr = sum_list nd" using mv(1) assms(4) by simp
  show "ptrs = ptrs_of nd" using mv(2) by (simp add: ptrs_of_def)
  show "take (od ! v) (chop nd arr ! v) = chop od nbrs ! v" if "v < length nd"
  proof -
    have "od ! v \<le> nd ! v" using assms(2) that by simp
    then have "take (od ! v) (chop nd arr ! v) = take (od ! v) (drop (offset_of od v) (nbrs @ pad))"
      using mv(3) that by (simp add: nth_chop min_absorb1)
    moreover have "offset_of od v + od ! v \<le> length nbrs" using offset_end [of v od] that assms(1,3) by simp
    ultimately show ?thesis using that assms(1) by (simp add: nth_chop)
  qed
qed

definition new_inbr :: "nat \<times> 'd edge \<Rightarrow> 'd ImmutableNbr" where "new_inbr e = \<lparr> ineighbor = fst (snd e), idata = snd (snd e) \<rparr>"

lemma ibatch_put_segs:
  assumes "icsr_shape s" "\<forall>e\<in>set es. fst e < icsr_size s"
  shows "\<exists>s'. ibatch_put_edges junk (map fst es) (map (fst \<circ> snd) es) (map (snd \<circ> snd) es) ts s = Inr s' \<and>
    nbr_list s' = concat (map (\<lambda>v. isegs s ! v @ map new_inbr (filter (\<lambda>e. fst e = v) es)) [0..<icsr_size s]) \<and>
    ideg s' = map (\<lambda>v. ideg s ! v + added_at (map fst es) v) [0..<icsr_size s] \<and>
    adj_ptr s' = ptrs_of (ideg s') \<and> iedge_num s' = iedge_num s + of_nat (length es)"
proof -
  let ?od = "ideg s" let ?N = "icsr_size s" let ?srcs = "map fst es"
  have N: "?N = length ?od" by (simp add: icsr_size_def)
  define nd where "nd = map (\<lambda>v. ?od ! v + added_at ?srcs v) [0..<?N]"
  have nl: "length ?od = length nd" "\<forall>v<length nd. ?od ! v \<le> nd ! v" by (simp_all add: nd_def N)
  have od: "map (\<lambda>v. ?od ! v) [0..<?N] = ?od" unfolding N by (rule map_nth)
  have ods: "sum_list ?od = length (nbr_list s)" using assms(1) by (simp add: icsr_shape_def)
  have "filter (\<lambda>v. v < ?N) ?srcs = ?srcs" using assms(2) by (auto simp: filter_id_conv)
  then have sum: "sum_list nd = length (nbr_list s) + length (replicate (length es) junk)"
    using sum_added [of ?srcs ?N] ods unfolding nd_def sum_list_addf [of "\<lambda>v. ?od ! v"] od by simp
  obtain arr ptrs where m: "move_loop (length nd) nd ?od (nbr_list s @ replicate (length es) junk)
      (length (nbr_list s) + length (replicate (length es) junk)) (length (nbr_list s)) = (arr, ptrs)" by force
  note mv = moved_segs [OF nl ods sum m]
  have x: "concat (chop nd arr) = arr" "map length (chop nd arr) = nd" using mv(1) by (simp_all add: concat_chop map_length_chop)
  have "iput_loop es (ptrs_of nd) ?od (concat (chop nd arr)) =
      concat (map (\<lambda>v. take (?od ! v) (chop nd arr ! v) @ map new_inbr (filter (\<lambda>e. fst e = v) es)) [0..<length nd])"
    unfolding new_inbr_def by (rule iput_loop_ok [OF x(2) nl(1)]) (use assms(2) in \<open>simp_all add: nd_def\<close>)
  moreover have "map (\<lambda>v. take (?od ! v) (chop nd arr ! v) @ map new_inbr (filter (\<lambda>e. fst e = v) es)) [0..<length nd] =
      map (\<lambda>v. isegs s ! v @ map new_inbr (filter (\<lambda>e. fst e = v) es)) [0..<?N]"
    using mv(3) nl N by (intro map_cong) (auto simp: isegs_def)
  ultimately have put: "iput_loop es ptrs ?od arr = concat (map (\<lambda>v. isegs s ! v @ map new_inbr (filter (\<lambda>e. fst e = v) es)) [0..<?N])"
    unfolding x(1) mv(2) by simp
  have "ibatch_put_edges junk ?srcs (map (fst \<circ> snd) es) (map (snd \<circ> snd) es) ts s =
    Inr (s \<lparr> nbr_list := iput_loop es ptrs ?od arr, ideg := nd, adj_ptr := ptrs,
          iedge_num := iedge_num s + of_nat (length es), iunsorted := (if ts < iunsorted s then 0 else iunsorted s) \<rparr>)"
    using assms(2) m nl(1) N unfolding ibatch_put_edges_def zip_parts nd_def [symmetric] by (auto simp: not_le)
  then show ?thesis unfolding put using mv(2) by (simp add: nd_def)
qed

definition iput_all :: "'d ImmutableNbr \<Rightarrow> (nat \<times> 'd edge) list \<Rightarrow> nat \<Rightarrow> 'd ImmutableCsr \<Rightarrow> 'd ImmutableCsr res" where
  "iput_all junk es ts s = ibatch_put_edges junk (map fst es) (map (fst \<circ> snd) es) (map (snd \<circ> snd) es) ts s"

lemma iput_all_ok:
  assumes "icsr_inv s" "\<forall>e\<in>set es. fst e < icsr_size s \<and> fst (snd e) \<noteq> NO_VERTEX"
  shows "\<exists>s'. iput_all junk es ts s = Inr s' \<and> icsr_inv s' \<and> icsr_size s' = icsr_size s \<and>
    icsr_live s' = with_edges (icsr_size s) es (icsr_live s)"
proof -
  note sh = inv_shape [OF assms(1)]
  let ?N = "icsr_size s"
  let ?y = "map (\<lambda>v. isegs s ! v @ map new_inbr (filter (\<lambda>e. fst e = v) es)) [0..<?N]"
  obtain s' where s': "iput_all junk es ts s = Inr s'" "nbr_list s' = concat ?y"
    "ideg s' = map (\<lambda>v. ideg s ! v + added_at (map fst es) v) [0..<?N]"
    "adj_ptr s' = ptrs_of (ideg s')" "iedge_num s' = iedge_num s + of_nat (length es)"
    using ibatch_put_segs [OF sh, of es junk ts] assms(2) by (auto simp: iput_all_def)
  have seglen: "length (isegs s ! v) = ideg s ! v" if "v < ?N" for v
    using that isegs_ok [OF sh] by (metis nth_map)
  then have d: "ideg s' = map length ?y" unfolding s'(3) by (auto simp: added_at_map)
  have ex: "filter exists_nbr (map new_inbr (filter (\<lambda>e. fst e = v) es)) = map new_inbr (filter (\<lambda>e. fst e = v) es)" for v
    using assms(2) by (auto simp: filter_id_conv exists_nbr_def new_inbr_def)
  have all: "filter (\<lambda>v. v < ?N) (map fst es) = map fst es" using assms(2) by (auto simp: filter_id_conv)
  have segs: "map (\<lambda>v. length (filter exists_nbr (isegs s ! v))) [0..<?N] = map (length \<circ> filter exists_nbr) (isegs s)"
    using isegs_ok(3) [OF sh] by (auto intro!: nth_equalityI)
  have "map (length \<circ> filter exists_nbr) ?y = map (\<lambda>v. length (filter exists_nbr (isegs s ! v)) + added_at (map fst es) v) [0..<?N]"
    by (simp add: ex added_at_map)
  then have "length (filter exists_nbr (concat ?y)) = length (filter exists_nbr (nbr_list s)) + length es"
    using sum_added [of "map fst es" ?N] isegs_ok(1) [OF sh] unfolding length_filter_concat [of _ ?y] all
    by (simp only: sum_list_addf segs length_filter_concat [symmetric]) simp
  then have "iedge_num s' = of_nat (length (filter exists_nbr (concat ?y)))" using s'(5) sh by (simp add: icsr_shape_def)
  note i = from_segs [OF s'(2) d s'(4) this]
  have n: "icsr_size s' = ?N" by (simp add: icsr_size_def s'(3))
  have "map (iedge \<circ> new_inbr) xs = map snd xs" for xs :: "(nat \<times> 'a edge) list" by (simp add: iedge_def new_inbr_def)
  then have "icsr_live s' = with_edges ?N es (icsr_live s)"
    using ex by (auto simp: fun_eq_iff icsr_live_def with_edges_def n i(2))
  then show ?thesis using s'(1) i(1) n by blast
qed

section \<open>The contract\<close>

interpretation immutable_csr: csr_deletes icsr_inv icsr_size icsr_live iedge_num ibatch_delete_vertices ibatch_delete_edges icsr_compact
proof unfold_locales
  fix s :: "'a ImmutableCsr" and v
  assume i: "icsr_inv s"
  show "icsr_live s v = []" if "icsr_size s \<le> v" using that by (simp add: icsr_live_def)
  show "iedge_num s = of_nat (edge_total (icsr_size s) (icsr_live s))" by (rule icsr_count [OF inv_shape [OF i]])
  show "\<exists>s'. ibatch_delete_vertices S D s = Inr s' \<and> icsr_inv s' \<and> icsr_size s' = icsr_size s \<and>
      icsr_live s' = without_vertices S D (icsr_live s)" if "NO_VERTEX \<notin> D" for S D
    by (rule ibatch_delete_vertices_ok [OF i that])
  show "\<exists>s'. ibatch_delete_edges srcs dsts s = Inr s' \<and> icsr_inv s' \<and> icsr_size s' = icsr_size s \<and>
      icsr_live s' = without_pairs (set (zip srcs dsts)) (icsr_live s)" if "length srcs = length dsts" for srcs dsts
    by (rule ibatch_delete_edges_ok [OF i that])
  show "\<exists>s'. icsr_compact s = Inr s' \<and> icsr_inv s' \<and> icsr_size s' = icsr_size s \<and> icsr_live s' = icsr_live s"
    by (rule icsr_compact_ok [OF i])
qed

interpretation immutable_store: csr_store icsr_inv icsr_size icsr_live iedge_num ibatch_delete_vertices ibatch_delete_edges icsr_compact
  "iput_all junk" for junk
  by unfold_locales (rule iput_all_ok)

section \<open>The two stores agree\<close>

definition mutable_op :: "'d MutableNbr \<Rightarrow> 'd csr_op \<Rightarrow> 'd MutableCsr \<Rightarrow> 'd MutableCsr res" where
  "mutable_op junk oper s = (case oper of DeleteVertices S D \<Rightarrow> batch_delete_vertices S D s
     | DeletePairs srcs dsts \<Rightarrow> batch_delete_edges srcs dsts s
     | PutEdges es ts \<Rightarrow> put_all reserve_ratio junk es ts s | CompactEdges \<Rightarrow> csr_compact s)"

definition immutable_op :: "'d ImmutableNbr \<Rightarrow> 'd csr_op \<Rightarrow> 'd ImmutableCsr \<Rightarrow> 'd ImmutableCsr res" where
  "immutable_op junk oper s = (case oper of DeleteVertices S D \<Rightarrow> ibatch_delete_vertices S D s
     | DeletePairs srcs dsts \<Rightarrow> ibatch_delete_edges srcs dsts s
     | PutEdges es ts \<Rightarrow> iput_all junk es ts s | CompactEdges \<Rightarrow> icsr_compact s)"

definition no_edges :: "nat \<Rightarrow> 'd MutableCsr" where
  "no_edges n = csr_resize n \<lparr> slots = [], unsorted_since = 0, edge_num = 0 \<rparr>"

definition ino_edges :: "nat \<Rightarrow> 'd ImmutableCsr" where
  "ino_edges n = icsr_resize n \<lparr> nbr_list = [], adj_ptr = [], ideg = [], iunsorted = 0, iedge_num = 0 \<rparr>"

lemma no_edges_ok: "csr_inv (no_edges n)" "vertex_capacity (no_edges n) = n" "csr_live (no_edges n) = (\<lambda>v. [])"
proof -
  have "csr_inv \<lparr> slots = [], unsorted_since = 0, edge_num = 0 \<rparr>" by (simp add: csr_inv_def)
  from csr_resize_ok [OF this, of n] show "csr_inv (no_edges n)" "vertex_capacity (no_edges n) = n" "csr_live (no_edges n) = (\<lambda>v. [])"
    by (simp_all add: no_edges_def vertex_capacity_def csr_live_def fun_eq_iff)
qed

lemma ino_edges_ok: "icsr_inv (ino_edges n)" "icsr_size (ino_edges n) = n" "icsr_live (ino_edges n) = (\<lambda>v. [])"
proof -
  have c: "chop (replicate n 0) [] = replicate n []" by (induction n) auto
  have o: "offset_of (replicate n 0) v = 0" for v by (simp add: offset_of_def sum_list_replicate)
  show "icsr_inv (ino_edges n)" "icsr_size (ino_edges n) = n"
    by (cases n; simp add: ino_edges_def icsr_resize_def icsr_size_def icsr_inv_def icsr_shape_def sum_list_replicate o nth_Cons')+
  show "icsr_live (ino_edges n) = (\<lambda>v. [])"
    by (auto simp: fun_eq_iff ino_edges_def icsr_resize_def icsr_size_def icsr_live_def isegs_def c)
qed

text \<open>
  C37. The two multi-edge stores are interchangeable: from stores without edges over \<open>n\<close> vertices, any
  sequence of batch insertions, batch deletions of vertices and of edges, and compactions succeeds in
  both and leaves both with the same edges in the same order at every vertex, and with the same edge counter.
\<close>
theorem stores_agree:
  assumes "\<forall>oper\<in>set ops. op_ok n oper"
  shows "\<exists>s t. run_ops (mutable_op junk) ops (no_edges n) = Inr s \<and> run_ops (immutable_op ijunk) ops (ino_edges n) = Inr t \<and>
    csr_live s = fold (apply_op n) ops (\<lambda>v. []) \<and> icsr_live t = csr_live s \<and>
    edge_num s = of_nat (edge_total n (csr_live s)) \<and> iedge_num t = edge_num s"
proof -
  obtain s where s: "run_ops (mutable_op junk) ops (no_edges n) = Inr s" "csr_live s = fold (apply_op n) ops (\<lambda>v. [])"
    "edge_num s = of_nat (edge_total n (csr_live s))"
    using mutable_store.run_refines [OF no_edges_ok(1), of ops n junk] assms
    unfolding no_edges_ok(2,3) mutable_op_def [abs_def] by blast
  moreover obtain t where "run_ops (immutable_op ijunk) ops (ino_edges n) = Inr t" "icsr_live t = fold (apply_op n) ops (\<lambda>v. [])"
    "iedge_num t = of_nat (edge_total n (icsr_live t))"
    using immutable_store.run_refines [OF ino_edges_ok(1), of ops n ijunk] assms
    unfolding ino_edges_ok(2,3) immutable_op_def [abs_def] by blast
  ultimately show ?thesis by simp
qed

theorem stores_agree_witness:
  "\<exists>s t. run_ops (mutable_op \<lparr> neighbor = 0, timestamp = 0, edata = 0 \<rparr>) [PutEdges [(1, 7, 5 :: nat), (0, 8, 6), (1, 9, 4)] 3, DeletePairs [1] [7], CompactEdges] (no_edges 2) = Inr s \<and>
     run_ops (immutable_op \<lparr> ineighbor = 0, idata = 0 \<rparr>) [PutEdges [(1, 7, 5), (0, 8, 6), (1, 9, 4)] 3, DeletePairs [1] [7], CompactEdges] (ino_edges 2) = Inr t \<and>
     csr_live s 0 = [(8, 6)] \<and> csr_live s 1 = [(9, 4)] \<and> icsr_live t = csr_live s \<and> edge_num s = 2 \<and> iedge_num t = 2"
proof -
  let ?ops = "[PutEdges [(1, 7, 5 :: nat), (0, 8, 6), (1, 9, 4)] 3, DeletePairs [1] [7], CompactEdges]"
  have ok: "\<forall>oper\<in>set ?ops. op_ok 2 oper" by (simp add: op_ok_def NO_VERTEX_def INVALID_TIMESTAMP_def)
  have g: "fold (apply_op 2) ?ops (\<lambda>v. []) 0 = [(8, 6)]" "fold (apply_op 2) ?ops (\<lambda>v. []) 1 = [(9, 4)]"
    by (simp_all add: apply_op_def with_edges_def without_pairs_def)
  then have "edge_total 2 (fold (apply_op 2) ?ops (\<lambda>v. [])) = 2" by (simp add: edge_total_def numeral_2_eq_2)
  with g stores_agree [OF ok, of "\<lparr> neighbor = 0, timestamp = 0, edata = 0 \<rparr>" "\<lparr> ineighbor = 0, idata = 0 \<rparr>"] show ?thesis by auto
qed

section \<open>Compaction of an opened store\<close>

lemma copies_iff: "copies keep k xs \<longleftrightarrow> (0 < k \<and> (\<exists>x\<in>set xs. keep x)) \<or> (\<exists>j<length xs. keep (xs ! j) \<and> (\<exists>i<j. \<not> keep (xs ! i)))"
proof (induction xs arbitrary: k)
  case (Cons x xs)
  have ex: "(\<exists>y\<in>set xs. keep y) \<longleftrightarrow> (\<exists>j<length xs. keep (xs ! j))" by (metis in_set_conv_nth)
  show ?case
  proof (cases "keep x")
    case True
    then show ?thesis by (auto simp: Cons.IH Ex_less_Suc2)
  next
    case False
    then have "(\<exists>j<length (x # xs). keep ((x # xs) ! j) \<and> (\<exists>i<j. \<not> keep ((x # xs) ! i))) \<longleftrightarrow> (\<exists>j<length xs. keep (xs ! j))"
      by (simp add: Ex_less_Suc2)
    then show ?thesis using False ex by (auto simp: Cons.IH)
  qed
qed simp

lemma Open_shape:
  assumes "sum_list ds = length nbrs"
  shows "icsr_shape (icsr_Open us (of_nat (length (filter exists_nbr nbrs))) ds nbrs)"
  using assms by (auto simp: icsr_shape_def icsr_Open_def icsr_size_def split: if_splits)

text \<open>
  C38. Compaction of a store opened from its files writes through a null pointer exactly when the first
  vertex has no edges and some kept entry lies behind a deleted one; the opened pointers of vertices
  without edges are null and the write pointer starts at the first of them. In every other
  case it returns a store with the same live edges and the same counter, without deleted entries.
\<close>
theorem opened_store_compaction:
  assumes "sum_list ds = length nbrs" "n = of_nat (length (filter exists_nbr nbrs))" "s = icsr_Open us n ds nbrs"
  shows "(icsr_compact s = Inl UndefinedBehaviour \<longleftrightarrow>
      ds \<noteq> [] \<and> ds ! 0 = 0 \<and> (\<exists>j<length nbrs. exists_nbr (nbrs ! j) \<and> (\<exists>i<j. \<not> exists_nbr (nbrs ! i)))) \<and>
    (icsr_compact s \<noteq> Inl UndefinedBehaviour \<longrightarrow>
      (\<exists>s'. icsr_compact s = Inr s' \<and> icsr_live s' = icsr_live s \<and> iedge_num s' = iedge_num s \<and> list_all exists_nbr (nbr_list s')))"
proof -
  have sh: "icsr_shape s" using Open_shape [OF assms(1)] assms(2,3) by simp
  have o: "0 < icsr_size s \<and> adj_ptr s ! 0 = None \<and> copies exists_nbr 0 (nbr_list s) \<longleftrightarrow>
      ds \<noteq> [] \<and> ds ! 0 = 0 \<and> (\<exists>j<length nbrs. exists_nbr (nbrs ! j) \<and> (\<exists>i<j. \<not> exists_nbr (nbrs ! i)))"
    by (auto simp: assms(3) icsr_Open_def icsr_size_def copies_iff split: if_splits)
  show ?thesis
  proof (cases "0 < icsr_size s \<and> adj_ptr s ! 0 = None \<and> copies exists_nbr 0 (nbr_list s)")
    case True
    then have "icsr_compact s = Inl UndefinedBehaviour" using icsr_compact_cases [OF sh] by (simp only: if_True)
    then show ?thesis using True unfolding o by simp
  next
    case False
    then obtain s' where s': "icsr_compact s = Inr s'" "icsr_shape s'" "icsr_size s' = icsr_size s" "isegs s' = map (filter exists_nbr) (isegs s)"
      using icsr_compact_cases [OF sh] by (simp only: if_False) blast
    have l: "icsr_live s' = icsr_live s" using s'(3,4) isegs_ok(3) [OF sh] by (auto simp: fun_eq_iff icsr_live_def)
    have "iedge_num s' = iedge_num s" unfolding icsr_count [OF sh] icsr_count [OF s'(2)] l s'(3) ..
    moreover have "nbr_list s' = filter exists_nbr (nbr_list s)"
      using isegs_ok(1) [OF s'(2)] isegs_ok(1) [OF sh] unfolding s'(4) by (simp add: concat_map_filter)
    then have "list_all exists_nbr (nbr_list s')" by (simp add: list_all_iff)
    ultimately show ?thesis using s'(1) l False unfolding o by simp
  qed
qed

text \<open>The second vertex of two has a deleted edge before a live one.\<close>

theorem opened_store_compaction_witness:
  "icsr_compact (icsr_Open 0 1 [0, 2] [\<lparr> ineighbor = NO_VERTEX, idata = 5 :: nat \<rparr>, \<lparr> ineighbor = 1, idata = 6 \<rparr>]) = Inl UndefinedBehaviour \<and>
   icsr_compact (icsr_Open 0 1 [2, 0] [\<lparr> ineighbor = NO_VERTEX, idata = 5 :: nat \<rparr>, \<lparr> ineighbor = 1, idata = 6 \<rparr>]) \<noteq> Inl UndefinedBehaviour"
proof -
  let ?nbrs = "[\<lparr> ineighbor = NO_VERTEX, idata = 5 :: nat \<rparr>, \<lparr> ineighbor = 1, idata = 6 \<rparr>]"
  have e: "exists_nbr (?nbrs ! 1)" "\<not> exists_nbr (?nbrs ! 0)" by (simp_all add: exists_nbr_def NO_VERTEX_def)
  then have n: "1 = of_nat (length (filter exists_nbr ?nbrs))" by simp
  have "\<exists>j<length ?nbrs. exists_nbr (?nbrs ! j) \<and> (\<exists>i<j. \<not> exists_nbr (?nbrs ! i))"
    using e by (intro exI [of _ 1]) auto
  then show ?thesis using opened_store_compaction [OF _ n refl, of "[0, 2]" 0] opened_store_compaction [OF _ n refl, of "[2, 0]" 0] by simp
qed

section \<open>Sorting\<close>

lemma isort_loop_ok:
  assumes "\<forall>v<length ds. ds ! v \<noteq> 0 \<longrightarrow> adjs ! v = Some (offset_of ds v)" "\<And>xs. mset (srt xs) = mset xs"
  shows "map length xss = ds \<Longrightarrow> i \<le> length ds \<Longrightarrow>
    isort_loop srt adjs ds [i..<length ds] (concat xss) = Inr (concat (take i xss @ map srt (drop i xss)))"
proof (induction "length ds - i" arbitrary: i xss)
  case 0
  then show ?case by auto
next
  case (Suc k)
  then have i: "i < length ds" "i < length xss" by auto
  have up: "[i..<length ds] = i # [Suc i..<length ds]" using i by (simp add: upt_conv_Cons)
  have len: "length (srt xs) = length xs" for xs using mset_eq_length [OF assms(2)] .
  let ?y = "xss[i := srt (xss ! i)]"
  have d: "ds ! i = length (xss ! i)" using Suc.prems(1) i by auto
  have seg: "take (ds ! i) (drop (offset_of ds i) (concat xss)) = xss ! i"
    using nth_chop [OF i(1), of "concat xss"] chop_concat [OF Suc.prems(1)] by simp
  have b: "\<not> length (concat xss) < offset_of ds i + ds ! i" using offset_end [OF i(1)] Suc.prems(1) by (simp add: length_concat)
  have y: "map length ?y = ds" using Suc.prems(1) i len d by (simp add: map_update)  (metis list_update_id)
  have step: "isort_loop srt adjs ds [i..<length ds] (concat xss) = isort_loop srt adjs ds [Suc i..<length ds] (concat ?y)"
  proof (cases "ds ! i = 0")
    case True
    then have "xss ! i = []" "srt (xss ! i) = []" using d len [of "xss ! i"] by auto
    then have "?y = xss" by (metis list_update_id)
    then show ?thesis unfolding up using True by simp
  next
    case False
    have "blit (concat xss) (offset_of ds i) (srt (xss ! i)) = concat ?y" using blit_concat [OF Suc.prems(1) i(1)] len d by simp
    then show ?thesis unfolding up using False assms(1) i b seg by simp
  qed
  have "take (Suc i) ?y @ map srt (drop (Suc i) ?y) = take i xss @ map srt (drop i xss)"
    using i by (simp add: take_Suc_conv_app_nth flip: Cons_nth_drop_Suc)
  then show ?case using Suc.hyps(1) [of "Suc i" ?y] Suc.hyps(2) y i step by simp
qed

lemma ibatch_sort_by_edge_data_ok:
  assumes "icsr_inv s" "\<And>xs. mset (srt xs) = mset xs"
  shows "\<exists>s'. ibatch_sort_by_edge_data srt ts s = Inr s' \<and> icsr_inv s' \<and> isegs s' = map srt (isegs s) \<and>
    iedge_num s' = iedge_num s \<and> (\<forall>v. mset (icsr_live s' v) = mset (icsr_live s v))"
proof -
  note sh = inv_shape [OF assms(1)]
  note ok = isegs_ok [OF sh]
  let ?x = "map srt (isegs s)"
  have len: "length (srt xs) = length xs" for xs using mset_eq_length [OF assms(2)] .
  have p: "\<forall>v<length (ideg s). ideg s ! v \<noteq> 0 \<longrightarrow> adj_ptr s ! v = Some (offset_of (ideg s) v)" using sh by (simp add: icsr_shape_def icsr_size_def)
  have l: "isort_loop srt (adj_ptr s) (ideg s) [0..<length (ideg s)] (nbr_list s) = Inr (concat ?x)"
    using isort_loop_ok [OF p assms(2) ok(2) le0] unfolding ok(1) by simp
  obtain y where y: "y = concat ?x" by simp
  define s' where "s' = s \<lparr> nbr_list := y, iunsorted := ts \<rparr>"
  have lens: "map length ?x = ideg s" using ok(2) len by (simp add: comp_def)
  have f: "mset (filter Q (srt xs)) = mset (filter Q xs)" for Q xs by (simp add: assms(2) mset_filter)
  then have cnt: "length (filter Q (concat ?x)) = length (filter Q (nbr_list s))" for Q
    unfolding ok(1) [symmetric] length_filter_concat map_map by (simp add: comp_def mset_eq_length [OF f])
  have "length y = length (nbr_list s)" "length (filter exists_nbr y) = length (filter exists_nbr (nbr_list s))"
    using cnt [of "\<lambda>e. True"] cnt [of exists_nbr] unfolding y [symmetric] by simp_all
  moreover from this have "y = [] \<longleftrightarrow> nbr_list s = []" by (metis length_0_conv)
  ultimately have i: "icsr_inv s'" using assms(1) by (simp add: icsr_inv_def icsr_shape_def s'_def icsr_size_def)
  have "nbr_list s' = concat ?x" "ideg s' = ideg s" unfolding y [symmetric] by (simp_all add: s'_def)
  then have "isegs s' = chop (ideg s) (concat ?x)" by (simp only: isegs_def [of s'])
  then have segs: "isegs s' = ?x" using chop_concat [OF lens] by (rule trans)
  have "mset (icsr_live s' v) = mset (icsr_live s v)" for v
    using segs ok(3) f by (simp add: icsr_live_def s'_def icsr_size_def)
  moreover have "ibatch_sort_by_edge_data srt ts s = Inr s'" unfolding ibatch_sort_by_edge_data_def icsr_size_def l y [symmetric] by (simp add: s'_def)
  ultimately show ?thesis using i segs by (auto simp: s'_def)
qed

section \<open>Deleting one edge and taking it back\<close>

lemma islot_at_ok:
  assumes "icsr_shape s" "src < icsr_size s" "k < ideg s ! src"
  shows "islot_at src (int k) s = Inr (offset_of (ideg s) src + k)" "nbr_list s ! (offset_of (ideg s) src + k) = isegs s ! src ! k"
    "offset_of (ideg s) src + k < length (nbr_list s)"
proof -
  have p: "adj_ptr s ! src = Some (offset_of (ideg s) src)" using assms by (simp add: icsr_shape_def)
  have "offset_of (ideg s) src + ideg s ! src \<le> length (nbr_list s)"
    using offset_end [of src "ideg s"] assms by (simp add: icsr_shape_def icsr_size_def)
  then show b: "offset_of (ideg s) src + k < length (nbr_list s)" using assms(3) by simp
  then show "islot_at src (int k) s = Inr (offset_of (ideg s) src + k)"
    using assms p by (simp add: islot_at_def index_of_def nat_int_add flip: of_nat_add)
  show "nbr_list s ! (offset_of (ideg s) src + k) = isegs s ! src ! k"
    using assms(2,3) b by (simp add: isegs_def nth_chop icsr_size_def)
qed

lemma count_nth_update:
  "k < length xs \<Longrightarrow> Q (xs ! k) \<Longrightarrow> \<not> Q y \<Longrightarrow> length (filter Q xs) = Suc (length (filter Q (xs[k := y])))"
proof (induction xs arbitrary: k)
  case (Cons x xs)
  then show ?case by (cases k) auto
qed simp

text \<open>
  Deleting a live edge of the multi-edge immutable store by its offset removes exactly that edge and keeps the
  invariant, deleting it again changes nothing, an edge that is not deleted cannot be taken back, and taking the deleted
  one back with its neighbour restores the store up to the sort mark.
\<close>
theorem immutable_delete_revert:
  assumes "icsr_inv s" "src < icsr_size s" "k < ideg s ! src" "exists_nbr (isegs s ! src ! k)"
  shows "\<exists>s'. idelete_edge src (int k) s = Inr s' \<and> icsr_inv s' \<and> idelete_edge src (int k) s' = Inr s' \<and>
    icsr_live s' = (icsr_live s)(src := map iedge (filter exists_nbr (take k (isegs s ! src))) @ map iedge (filter exists_nbr (drop (Suc k) (isegs s ! src)))) \<and>
    irevert_delete_edge src (ineighbor (isegs s ! src ! k)) (int k) s' = Inr (s \<lparr> iunsorted := 0 \<rparr>) \<and>
    irevert_delete_edge src nbr (int k) s = Inl InvalidArgument"
proof -
  note sh = inv_shape [OF assms(1)]
  note ok = isegs_ok [OF sh]
  let ?p = "offset_of (ideg s) src + k" let ?e = "isegs s ! src ! k"
  note sl = islot_at_ok [OF sh assms(2,3)]
  define s' where "s' = s \<lparr> nbr_list := (nbr_list s)[?p := drop_nbr ?e], iedge_num := iedge_num s - 1, iunsorted := 0 \<rparr>"
  have d: "idelete_edge src (int k) s = Inr s'" using sl assms(4) by (simp add: idelete_edge_def s'_def)
  have cnt: "length (filter exists_nbr (nbr_list s)) = Suc (length (filter exists_nbr ((nbr_list s)[?p := drop_nbr ?e])))"
    by (rule count_nth_update) (use sl assms(4) in simp_all)
  have sz: "icsr_size s' = icsr_size s" by (simp add: s'_def icsr_size_def)
  have i: "icsr_inv s'" using assms(1) cnt by (simp add: icsr_inv_def icsr_shape_def s'_def icsr_size_def)
  let ?x = "(isegs s)[src := (isegs s ! src)[k := drop_nbr ?e]]"
  have src: "src < length (ideg s)" using assms(2) by (simp add: icsr_size_def)
  have up: "(nbr_list s)[?p := drop_nbr ?e] = concat ?x" using update_concat [OF ok(2) src assms(3)] unfolding ok(1) .
  have lk: "length (isegs s ! src) = ideg s ! src" using arg_cong [OF ok(2), of "\<lambda>xs. xs ! src"] assms(2) ok(3) by simp
  have lens: "map length ?x = ideg s" by (simp add: map_update ok(2) lk)
  have "nbr_list s' = concat ?x" "ideg s' = ideg s" unfolding up [symmetric] by (simp_all add: s'_def)
  then have "isegs s' = chop (ideg s) (concat ?x)" by (simp only: isegs_def [of s'])
  then have segs: "isegs s' = ?x" using chop_concat [OF lens] by (rule trans)
  have kl: "k < length (isegs s ! src)" using assms(3) lk by simp
  have "filter exists_nbr ((isegs s ! src)[k := drop_nbr ?e]) = filter exists_nbr (take k (isegs s ! src)) @ filter exists_nbr (drop (Suc k) (isegs s ! src))"
    using kl by (simp add: upd_conv_take_nth_drop)
  then have l: "icsr_live s' = (icsr_live s)(src := map iedge (filter exists_nbr (take k (isegs s ! src))) @ map iedge (filter exists_nbr (drop (Suc k) (isegs s ! src))))"
    using assms(2) ok(3) by (auto simp: fun_eq_iff icsr_live_def segs sz)
  have deg: "k < ideg s' ! src" using assms(3) by (simp add: s'_def)
  have sl': "islot_at src (int k) s' = Inr ?p" "nbr_list s' ! ?p = drop_nbr ?e"
    using islot_at_ok(1) [OF inv_shape [OF i] _ deg] assms(2) sz sl(3) by (simp_all add: s'_def)
  then have "idelete_edge src (int k) s' = Inr s'" by (simp add: idelete_edge_def)
  moreover have restored: "((nbr_list s)[?p := drop_nbr ?e])[?p := ?e] = nbr_list s" using sl(2) by (metis list_update_id list_update_overwrite)
  have "(drop_nbr ?e) \<lparr> ineighbor := ineighbor ?e \<rparr> = ?e" by (simp add: drop_nbr_def)
  then have "irevert_delete_edge src (ineighbor ?e) (int k) s' = Inr (s \<lparr> iunsorted := 0 \<rparr>)"
    using sl' restored by (simp add: irevert_delete_edge_def) (simp add: s'_def)
  moreover have "irevert_delete_edge src nbr (int k) s = Inl InvalidArgument" using sl assms(4) by (simp add: irevert_delete_edge_def)
  ultimately show ?thesis using d i l by blast
qed

theorem immutable_delete_revert_witness:
  "\<exists>s'. idelete_edge 1 1 (icsr_Open 4 3 [1, 2] [\<lparr> ineighbor = 5, idata = 7 :: nat \<rparr>, \<lparr> ineighbor = 0, idata = 8 \<rparr>, \<lparr> ineighbor = 1, idata = 9 \<rparr>]) = Inr s' \<and>
     icsr_live s' 1 = [(0, 8)] \<and>
     irevert_delete_edge 1 1 1 s' = Inr (icsr_Open 0 3 [1, 2] [\<lparr> ineighbor = 5, idata = 7 \<rparr>, \<lparr> ineighbor = 0, idata = 8 \<rparr>, \<lparr> ineighbor = 1, idata = 9 \<rparr>])"
proof -
  let ?s = "icsr_Open 4 3 [1, 2] [\<lparr> ineighbor = 5, idata = 7 :: nat \<rparr>, \<lparr> ineighbor = 0, idata = 8 \<rparr>, \<lparr> ineighbor = 1, idata = 9 \<rparr>]"
  have e: "exists_nbr \<lparr> ineighbor = 5, idata = 7 :: nat \<rparr>" "exists_nbr \<lparr> ineighbor = 0, idata = 8 :: nat \<rparr>" "exists_nbr \<lparr> ineighbor = 1, idata = 9 :: nat \<rparr>"
    by (simp_all add: exists_nbr_def NO_VERTEX_def)
  have "icsr_shape ?s" using Open_shape [of "[1, 2]" "[\<lparr> ineighbor = 5, idata = 7 :: nat \<rparr>, \<lparr> ineighbor = 0, idata = 8 \<rparr>, \<lparr> ineighbor = 1, idata = 9 \<rparr>]" 4] e by simp
  then have h: "icsr_inv ?s" "1 < icsr_size ?s" "1 < ideg ?s ! 1" "isegs ?s ! 1 = [\<lparr> ineighbor = 0, idata = 8 \<rparr>, \<lparr> ineighbor = 1, idata = 9 \<rparr>]"
    by (simp_all add: icsr_inv_def icsr_Open_def icsr_size_def isegs_def)
  have x: "exists_nbr (isegs ?s ! 1 ! 1)" using h(4) e(3) by simp
  have u: "?s \<lparr> iunsorted := 0 \<rparr> = icsr_Open 0 3 [1, 2] [\<lparr> ineighbor = 5, idata = 7 \<rparr>, \<lparr> ineighbor = 0, idata = 8 \<rparr>, \<lparr> ineighbor = 1, idata = 9 \<rparr>]"
    by (simp add: icsr_Open_def)
  show ?thesis using immutable_delete_revert [OF h(1-3) x, of 0] unfolding u h(4) using e by (auto simp: iedge_def)
qed

end
