(* ===== verification/Single_Csr.thy ===== *)
theory Single_Csr
  imports Immutable_Refines
begin

text \<open>
  \<open>SingleMutableCsr\<close> and \<open>SingleImmutableCsr\<close> (\<open>include/neug/storages/csr/mutable_csr.h\<close>,
  \<open>immutable_csr.h\<close> and their \<open>.cc\<close> files): the stores of a vertex with at most one edge, an array
  with one entry per source vertex. The container of the mutable store is absent (\<open>None\<close>) until the
  store is opened; the immutable store uses its container unchecked, and is modelled once it is opened. The assertions on the offset are those of a debug build and are left out.
\<close>

section \<open>Entries\<close>

text \<open>
  Every deletion is a sequence of conditional deletions of one entry: a source out of range is
  skipped, an entry that meets the condition is marked, and the counter falls if it was alive.
\<close>

definition kill_if :: "('e \<Rightarrow> bool) \<Rightarrow> ('e \<Rightarrow> 'e) \<Rightarrow> nat \<times> ('e \<Rightarrow> bool) \<Rightarrow> 'e list \<times> u64 \<Rightarrow> 'e list \<times> u64" where
  "kill_if alive dead vP st = (case (vP, st) of ((v, P), ns, n) \<Rightarrow>
     if v < length ns \<and> P (ns ! v) then (ns[v := dead (ns ! v)], if alive (ns ! v) then n - 1 else n) else (ns, n))"

definition dead_nbr :: "'d MutableNbr \<Rightarrow> 'd MutableNbr" where "dead_nbr e = e \<lparr> timestamp := INVALID_TIMESTAMP \<rparr>"

section \<open>The mutable store\<close>

record 'd SingleMutableCsr =
  snbrs :: "'d MutableNbr list option"
  sedge_num :: u64

definition snum :: "'d SingleMutableCsr \<Rightarrow> nat" where "snum s = (case snbrs s of None \<Rightarrow> 0 | Some ns \<Rightarrow> length ns)"

definition scsr_compact :: "'d SingleMutableCsr \<Rightarrow> 'd SingleMutableCsr res" where
  "scsr_compact s = (case snbrs s of None \<Rightarrow> Inr s
     | Some ns \<Rightarrow> Inr (s \<lparr> snbrs := Some (map (\<lambda>e. if live_nbr e then e \<lparr> timestamp := 0 \<rparr> else e) ns) \<rparr>))"

definition scsr_resize :: "'d MutableNbr \<Rightarrow> nat \<Rightarrow> 'd SingleMutableCsr \<Rightarrow> 'd SingleMutableCsr res" where
  "scsr_resize junk vnum s = (case snbrs s of None \<Rightarrow> Inl UndefinedBehaviour
     | Some ns \<Rightarrow> Inr (s \<lparr> snbrs := Some (take vnum ns @ replicate (vnum - length ns) (dead_nbr junk)) \<rparr>))"

definition skill :: "(nat \<times> ('d MutableNbr \<Rightarrow> bool)) list \<Rightarrow> 'd MutableNbr list \<Rightarrow> 'd SingleMutableCsr \<Rightarrow> 'd SingleMutableCsr" where
  "skill vPs ns s = (case fold (kill_if live_nbr dead_nbr) vPs (ns, sedge_num s) of (ns', n) \<Rightarrow> s \<lparr> snbrs := Some ns', sedge_num := n \<rparr>)"

definition sbatch_delete_vertices :: "nat set \<Rightarrow> nat set \<Rightarrow> 'd SingleMutableCsr \<Rightarrow> 'd SingleMutableCsr res" where
  "sbatch_delete_vertices S D s = (case snbrs s of None \<Rightarrow> Inr s
     | Some ns \<Rightarrow> Inr (skill (map (\<lambda>v. (v, \<lambda>e. True)) (filter (\<lambda>v. v \<in> S) [0..<length ns]) @
                       map (\<lambda>v. (v, \<lambda>e. neighbor e \<in> D)) [0..<length ns]) ns s))"

definition sbatch_delete_edges :: "nat list \<Rightarrow> nat list \<Rightarrow> 'd SingleMutableCsr \<Rightarrow> 'd SingleMutableCsr res" where
  "sbatch_delete_edges src_list dst_list s = (case snbrs s of None \<Rightarrow> Inr s
     | Some ns \<Rightarrow> if length dst_list < length src_list then Inl UndefinedBehaviour
         else Inr (skill (map (\<lambda>(src, dst). (src, \<lambda>e. neighbor e = dst)) (zip src_list dst_list)) ns s))"

definition sbatch_delete_offsets :: "(nat \<times> int) list \<Rightarrow> 'd SingleMutableCsr \<Rightarrow> 'd SingleMutableCsr res" where
  "sbatch_delete_offsets edge_list s = (case snbrs s of None \<Rightarrow> Inr s
     | Some ns \<Rightarrow> Inr (skill (map (\<lambda>(src, off). (src, \<lambda>e. True)) edge_list) ns s))"

definition sdelete_edge :: "nat \<Rightarrow> int \<Rightarrow> nat \<Rightarrow> 'd SingleMutableCsr \<Rightarrow> 'd SingleMutableCsr res" where
  "sdelete_edge src offset ts s = (case snbrs s of None \<Rightarrow> Inr s
     | Some ns \<Rightarrow> if src \<ge> length ns then Inl InvalidArgument
         else if timestamp (ns ! src) \<le> ts
         then Inr (s \<lparr> snbrs := Some (ns[src := dead_nbr (ns ! src)]), sedge_num := sedge_num s - 1 \<rparr>)
         else Inr s)"

definition srevert_delete_edge :: "nat \<Rightarrow> nat \<Rightarrow> int \<Rightarrow> nat \<Rightarrow> 'd SingleMutableCsr \<Rightarrow> 'd SingleMutableCsr res" where
  "srevert_delete_edge src nbr_vid offset ts s = (case snbrs s of None \<Rightarrow> Inr s
     | Some ns \<Rightarrow> if src \<ge> length ns \<or> offset \<noteq> 0 then Inl InvalidArgument
         else if neighbor (ns ! src) \<noteq> nbr_vid then Inl InvalidArgument
         else if timestamp (ns ! src) = INVALID_TIMESTAMP
         then Inr (s \<lparr> snbrs := Some (ns[src := (ns ! src) \<lparr> timestamp := ts \<rparr>]), sedge_num := sedge_num s + 1 \<rparr>)
         else Inl InvalidArgument)"

definition sput_step :: "nat \<Rightarrow> nat \<times> 'd edge \<Rightarrow> 'd MutableNbr list \<times> u64 \<Rightarrow> 'd MutableNbr list \<times> u64" where
  "sput_step ts e st = (case (e, st) of ((src, dst, d), ns, n) \<Rightarrow>
     if src \<ge> length ns then (ns, n) else (ns[src := \<lparr> neighbor = dst, timestamp = ts, edata = d \<rparr>], n + 1))"

definition sbatch_put_edges :: "nat list \<Rightarrow> nat list \<Rightarrow> 'd list \<Rightarrow> nat \<Rightarrow> 'd SingleMutableCsr \<Rightarrow> 'd SingleMutableCsr res" where
  "sbatch_put_edges src_list dst_list data_list ts s = (case snbrs s of None \<Rightarrow> Inr s
     | Some ns \<Rightarrow> if overrun (length ns) src_list dst_list \<or> overrun (length ns) src_list data_list then Inl UndefinedBehaviour
         else (case fold (sput_step ts) (zip src_list (zip dst_list data_list)) (ns, sedge_num s) of (ns', n) \<Rightarrow>
           Inr (s \<lparr> snbrs := Some ns', sedge_num := n \<rparr>)))"

definition sput_edge :: "nat \<Rightarrow> nat \<Rightarrow> 'd \<Rightarrow> nat \<Rightarrow> 'd SingleMutableCsr \<Rightarrow> (nat \<times> 'd SingleMutableCsr) res" where
  "sput_edge src dst d ts s =
     (if src \<ge> snum s then Inl InvalidArgument
      else case snbrs s of None \<Rightarrow> Inl UndefinedBehaviour
      | Some ns \<Rightarrow> if timestamp (ns ! src) \<noteq> INVALID_TIMESTAMP then Inl CheckFailed
          else Inr (0, s \<lparr> snbrs := Some (ns[src := \<lparr> neighbor = dst, timestamp = ts, edata = d \<rparr>]), sedge_num := sedge_num s + 1 \<rparr>))"

definition sbatch_export :: "'d SingleMutableCsr \<Rightarrow> (nat \<times> 'd edge) list" where
  "sbatch_export s = (case snbrs s of None \<Rightarrow> []
     | Some ns \<Rightarrow> map (\<lambda>v. (v, medge (ns ! v))) (filter (\<lambda>v. live_nbr (ns ! v)) [0..<length ns]))"

section \<open>The immutable store\<close>

record 'd SingleImmutableCsr =
  sinbrs :: "'d ImmutableNbr list"
  siedge_num :: u64

definition sinum :: "'d SingleImmutableCsr \<Rightarrow> nat" where "sinum s = length (sinbrs s)"

definition sicsr_compact :: "'d SingleImmutableCsr \<Rightarrow> 'd SingleImmutableCsr res" where "sicsr_compact s = Inr s"

definition sicsr_resize :: "'d ImmutableNbr \<Rightarrow> nat \<Rightarrow> 'd SingleImmutableCsr \<Rightarrow> 'd SingleImmutableCsr" where
  "sicsr_resize junk vnum s = s \<lparr> sinbrs := take vnum (sinbrs s) @ replicate (vnum - sinum s) (drop_nbr junk) \<rparr>"

definition sikill :: "(nat \<times> ('d ImmutableNbr \<Rightarrow> bool)) list \<Rightarrow> 'd SingleImmutableCsr \<Rightarrow> 'd SingleImmutableCsr" where
  "sikill vPs s = (case fold (kill_if exists_nbr drop_nbr) vPs (sinbrs s, siedge_num s) of (ns, n) \<Rightarrow> s \<lparr> sinbrs := ns, siedge_num := n \<rparr>)"

definition sibatch_delete_vertices :: "nat set \<Rightarrow> nat set \<Rightarrow> 'd SingleImmutableCsr \<Rightarrow> 'd SingleImmutableCsr res" where
  "sibatch_delete_vertices S D s =
     Inr (sikill (map (\<lambda>v. (v, exists_nbr)) (filter (\<lambda>v. v \<in> S) [0..<sinum s]) @
            map (\<lambda>v. (v, \<lambda>e. exists_nbr e \<and> ineighbor e \<in> D)) [0..<sinum s]) s)"

definition sibatch_delete_edges :: "nat list \<Rightarrow> nat list \<Rightarrow> 'd SingleImmutableCsr \<Rightarrow> 'd SingleImmutableCsr res" where
  "sibatch_delete_edges src_list dst_list s =
     (if overrun (sinum s) src_list dst_list then Inl UndefinedBehaviour
      else Inr (sikill (map (\<lambda>(src, dst). (src, \<lambda>e. ineighbor e = dst \<and> exists_nbr e)) (zip src_list dst_list)) s))"

definition sibatch_delete_offsets :: "(nat \<times> int) list \<Rightarrow> 'd SingleImmutableCsr \<Rightarrow> 'd SingleImmutableCsr res" where
  "sibatch_delete_offsets edges s = Inr (sikill (map (\<lambda>(src, off). (src, exists_nbr)) edges) s)"

definition sidelete_edge :: "nat \<Rightarrow> int \<Rightarrow> 'd SingleImmutableCsr \<Rightarrow> 'd SingleImmutableCsr res" where
  "sidelete_edge src offset s =
     (if src \<ge> sinum s \<or> offset \<noteq> 0 then Inl InvalidArgument
      else if \<not> exists_nbr (sinbrs s ! src) then Inr s
      else Inr (s \<lparr> sinbrs := (sinbrs s)[src := drop_nbr (sinbrs s ! src)], siedge_num := siedge_num s - 1 \<rparr>))"

definition sirevert_delete_edge :: "nat \<Rightarrow> nat \<Rightarrow> int \<Rightarrow> 'd SingleImmutableCsr \<Rightarrow> 'd SingleImmutableCsr res" where
  "sirevert_delete_edge src nbr offset s =
     (if src \<ge> sinum s \<or> offset \<noteq> 0 then Inl InvalidArgument
      else if exists_nbr (sinbrs s ! src) then Inl InvalidArgument
      else Inr (s \<lparr> sinbrs := (sinbrs s)[src := (sinbrs s ! src) \<lparr> ineighbor := nbr \<rparr>], siedge_num := siedge_num s + 1 \<rparr>))"

definition siput_step :: "nat \<times> 'd edge \<Rightarrow> 'd ImmutableNbr list \<times> u64 \<Rightarrow> 'd ImmutableNbr list \<times> u64" where
  "siput_step e st = (case (e, st) of ((src, dst, d), ns, n) \<Rightarrow>
     if src \<ge> length ns then (ns, n)
     else if exists_nbr (ns ! src) then (ns, n)
     else (ns[src := \<lparr> ineighbor = dst, idata = d \<rparr>], n + 1))"

definition sibatch_put_edges :: "nat list \<Rightarrow> nat list \<Rightarrow> 'd list \<Rightarrow> 'd SingleImmutableCsr \<Rightarrow> 'd SingleImmutableCsr res" where
  "sibatch_put_edges src_list dst_list data_list s =
     (if overrun (sinum s) src_list dst_list \<or> overrun (sinum s) src_list data_list then Inl UndefinedBehaviour
      else case fold siput_step (zip src_list (zip dst_list data_list)) (sinbrs s, siedge_num s) of (ns, n) \<Rightarrow>
        Inr (s \<lparr> sinbrs := ns, siedge_num := n \<rparr>))"

section \<open>One entry per vertex\<close>

definition one_edge :: "('e \<Rightarrow> bool) \<Rightarrow> ('e \<Rightarrow> 'd edge) \<Rightarrow> 'e list \<Rightarrow> nat \<Rightarrow> 'd edge list" where
  "one_edge alive edge_of ns v = (if v < length ns \<and> alive (ns ! v) then [edge_of (ns ! v)] else [])"

lemma one_edge_total: "edge_total (length ns) (one_edge alive edge_of ns) = length (filter alive ns)"
proof -
  have "map (\<lambda>v. length (one_edge alive edge_of ns v)) [0..<length ns] = map (\<lambda>e. if alive e then 1 else 0) ns"
    by (rule nth_equalityI) (auto simp: one_edge_def)
  moreover have "sum_list (map (\<lambda>e. if alive e then 1 else 0 :: nat) ns) = length (filter alive ns)" by (induction ns) auto
  ultimately show ?thesis by (simp add: edge_total_def)
qed

lemma count_list_update:
  "v < length ns \<Longrightarrow> length (filter alive (ns[v := e])) + (if alive (ns ! v) then 1 else 0) = length (filter alive ns) + (if alive e then 1 else 0)"
proof (induction ns arbitrary: v)
  case (Cons x ns)
  then show ?case by (cases v) auto
qed simp

lemma kill_fold:
  assumes "\<And>e. \<not> alive (dead e)" "\<And>e. dead (dead e) = dead e"
  shows "fold (kill_if alive dead) vPs (ns, of_nat (length (filter alive ns))) = (ns', n') \<Longrightarrow>
    length ns' = length ns \<and> n' = of_nat (length (filter alive ns')) \<and>
    (\<forall>v<length ns. ns' ! v = (if \<exists>P. (v, P) \<in> set vPs \<and> P (ns ! v) then dead (ns ! v) else ns ! v))"
proof (induction vPs arbitrary: ns)
  case (Cons vP vPs)
  obtain w P where w: "vP = (w, P)" by force
  show ?case
  proof (cases "w < length ns \<and> P (ns ! w)")
    case True
    let ?y = "ns[w := dead (ns ! w)]"
    have "length (filter alive ns) = length (filter alive ?y) + (if alive (ns ! w) then 1 else 0)"
      using count_list_update [of w ns alive "dead (ns ! w)"] True assms(1) by auto
    then have "kill_if alive dead vP (ns, of_nat (length (filter alive ns))) = (?y, of_nat (length (filter alive ?y)))"
      using True w by (auto simp: kill_if_def)
    then have "fold (kill_if alive dead) vPs (?y, of_nat (length (filter alive ?y))) = (ns', n')" using Cons.prems by simp
    from Cons.IH [OF this] show ?thesis using True w assms(2) by (auto simp: nth_list_update)
  next
    case False
    then have "kill_if alive dead vP (ns, of_nat (length (filter alive ns))) = (ns, of_nat (length (filter alive ns)))"
      using w by (auto simp: kill_if_def)
    then have "fold (kill_if alive dead) vPs (ns, of_nat (length (filter alive ns))) = (ns', n')" using Cons.prems by simp
    from Cons.IH [OF this] show ?thesis using False w by auto
  qed
qed simp

text \<open>The deletions of the two stores, over the condition a vertex's entry must meet.\<close>

lemma one_edge_kill:
  assumes "\<And>e. \<not> alive (dead e)" "\<And>e. dead (dead e) = dead e"
    "fold (kill_if alive dead) vPs (ns, of_nat (length (filter alive ns))) = (ns', n')"
    "\<forall>v<length ns. alive (ns ! v) \<longrightarrow> ((\<exists>P. (v, P) \<in> set vPs \<and> P (ns ! v)) \<longleftrightarrow> Q v (edge_of (ns ! v)))"
  shows "length ns' = length ns" "n' = of_nat (length (filter alive ns'))"
    "one_edge alive edge_of ns' = (\<lambda>v. filter (\<lambda>e. \<not> Q v e) (one_edge alive edge_of ns v))"
proof -
  note k = kill_fold [OF assms(1,2,3)]
  show "length ns' = length ns" "n' = of_nat (length (filter alive ns'))" using k by auto
  show "one_edge alive edge_of ns' = (\<lambda>v. filter (\<lambda>e. \<not> Q v e) (one_edge alive edge_of ns v))"
  proof
    fix v
    show "one_edge alive edge_of ns' v = filter (\<lambda>e. \<not> Q v e) (one_edge alive edge_of ns v)"
      using k assms(1,4) by (cases "v < length ns \<and> alive (ns ! v)") (auto simp: one_edge_def split: if_splits)
  qed
qed

lemma dead_facts [simp]:
  "\<not> live_nbr (dead_nbr e)" "dead_nbr (dead_nbr e) = dead_nbr e" "\<not> exists_nbr (drop_nbr f)" "drop_nbr (drop_nbr f) = drop_nbr f"
  by (simp_all add: live_nbr_def dead_nbr_def exists_nbr_def drop_nbr_def)

definition scsr_inv :: "'d SingleMutableCsr \<Rightarrow> bool" where
  "scsr_inv s \<longleftrightarrow> (case snbrs s of None \<Rightarrow> sedge_num s = 0 | Some ns \<Rightarrow> sedge_num s = of_nat (length (filter live_nbr ns)))"

definition scsr_live :: "'d SingleMutableCsr \<Rightarrow> nat \<Rightarrow> 'd edge list" where
  "scsr_live s = (case snbrs s of None \<Rightarrow> (\<lambda>v. []) | Some ns \<Rightarrow> one_edge live_nbr medge ns)"

definition sicsr_inv :: "'d SingleImmutableCsr \<Rightarrow> bool" where
  "sicsr_inv s \<longleftrightarrow> siedge_num s = of_nat (length (filter exists_nbr (sinbrs s)))"

definition sicsr_live :: "'d SingleImmutableCsr \<Rightarrow> nat \<Rightarrow> 'd edge list" where
  "sicsr_live s = one_edge exists_nbr iedge (sinbrs s)"

lemma skill_ok:
  assumes "scsr_inv s" "snbrs s = Some ns"
    "\<forall>v<length ns. live_nbr (ns ! v) \<longrightarrow> ((\<exists>P. (v, P) \<in> set vPs \<and> P (ns ! v)) \<longleftrightarrow> Q v (medge (ns ! v)))"
  shows "scsr_inv (skill vPs ns s)" "snum (skill vPs ns s) = snum s"
    "scsr_live (skill vPs ns s) = (\<lambda>v. filter (\<lambda>e. \<not> Q v e) (scsr_live s v))"
proof -
  obtain ns' n' where f: "fold (kill_if live_nbr dead_nbr) vPs (ns, sedge_num s) = (ns', n')" by force
  have n: "sedge_num s = of_nat (length (filter live_nbr ns))" using assms(1,2) by (simp add: scsr_inv_def)
  note k = one_edge_kill [OF dead_facts(1,2) f [unfolded n], of Q medge, OF assms(3)]
  show "scsr_inv (skill vPs ns s)" "snum (skill vPs ns s) = snum s"
    "scsr_live (skill vPs ns s) = (\<lambda>v. filter (\<lambda>e. \<not> Q v e) (scsr_live s v))"
    using k assms(2) by (simp_all add: skill_def f scsr_inv_def snum_def scsr_live_def)
qed

lemma sikill_ok:
  assumes "sicsr_inv s"
    "\<forall>v < sinum s. exists_nbr (sinbrs s ! v) \<longrightarrow> ((\<exists>P. (v, P) \<in> set vPs \<and> P (sinbrs s ! v)) \<longleftrightarrow> Q v (iedge (sinbrs s ! v)))"
  shows "sicsr_inv (sikill vPs s)" "sinum (sikill vPs s) = sinum s"
    "sicsr_live (sikill vPs s) = (\<lambda>v. filter (\<lambda>e. \<not> Q v e) (sicsr_live s v))"
proof -
  obtain ns' n' where f: "fold (kill_if exists_nbr drop_nbr) vPs (sinbrs s, siedge_num s) = (ns', n')" by force
  have n: "siedge_num s = of_nat (length (filter exists_nbr (sinbrs s)))" using assms(1) by (simp add: sicsr_inv_def)
  note k = one_edge_kill [OF dead_facts(3,4) f [unfolded n], of Q iedge, OF assms(2) [unfolded sinum_def]]
  show "sicsr_inv (sikill vPs s)" "sinum (sikill vPs s) = sinum s"
    "sicsr_live (sikill vPs s) = (\<lambda>v. filter (\<lambda>e. \<not> Q v e) (sicsr_live s v))"
    using k by (simp_all add: sikill_def f sicsr_inv_def sinum_def sicsr_live_def)
qed

lemma without_vertices_filter: "without_vertices S D g = (\<lambda>v. filter (\<lambda>e. \<not> (v \<in> S \<or> fst e \<in> D)) (g v))"
  by (auto simp: without_vertices_def fun_eq_iff)

lemma without_pairs_filter: "without_pairs R g = (\<lambda>v. filter (\<lambda>e. \<not> (v, fst e) \<in> R) (g v))"
  by (simp add: without_pairs_def)

lemma sbatch_delete_vertices_ok:
  assumes "scsr_inv s"
  shows "\<exists>s'. sbatch_delete_vertices S D s = Inr s' \<and> scsr_inv s' \<and> snum s' = snum s \<and> scsr_live s' = without_vertices S D (scsr_live s)"
proof (cases "snbrs s")
  case None
  then show ?thesis using assms by (simp add: sbatch_delete_vertices_def scsr_live_def without_vertices_filter)
next
  case (Some ns)
  let ?vPs = "map (\<lambda>v. (v, \<lambda>e. True)) (filter (\<lambda>v. v \<in> S) [0..<length ns]) @ map (\<lambda>v. (v, \<lambda>e. neighbor e \<in> D)) [0..<length ns]"
  have "\<forall>v<length ns. live_nbr (ns ! v) \<longrightarrow> ((\<exists>P. (v, P) \<in> set ?vPs \<and> P (ns ! v)) \<longleftrightarrow> v \<in> S \<or> fst (medge (ns ! v)) \<in> D)"
    by (auto simp: medge_def image_iff)
  from skill_ok [where Q = "\<lambda>v e. v \<in> S \<or> fst e \<in> D", OF assms Some this] show ?thesis using Some by (simp add: sbatch_delete_vertices_def without_vertices_filter)
qed

lemma sbatch_delete_edges_ok:
  assumes "scsr_inv s" "length srcs = length dsts"
  shows "\<exists>s'. sbatch_delete_edges srcs dsts s = Inr s' \<and> scsr_inv s' \<and> snum s' = snum s \<and>
    scsr_live s' = without_pairs (set (zip srcs dsts)) (scsr_live s)"
proof (cases "snbrs s")
  case None
  then show ?thesis using assms by (simp add: sbatch_delete_edges_def scsr_live_def without_pairs_filter)
next
  case (Some ns)
  let ?vPs = "map (\<lambda>(src, dst). (src, \<lambda>e. neighbor e = dst)) (zip srcs dsts)"
  have "\<forall>v<length ns. live_nbr (ns ! v) \<longrightarrow> ((\<exists>P. (v, P) \<in> set ?vPs \<and> P (ns ! v)) \<longleftrightarrow> (v, fst (medge (ns ! v))) \<in> set (zip srcs dsts))"
    by (force simp: medge_def image_iff)
  from skill_ok [where Q = "\<lambda>v e. (v, fst e) \<in> set (zip srcs dsts)", OF assms(1) Some this] show ?thesis using Some assms(2) by (simp add: sbatch_delete_edges_def without_pairs_filter)
qed

lemma scsr_compact_ok:
  assumes "scsr_inv s"
  shows "\<exists>s'. scsr_compact s = Inr s' \<and> scsr_inv s' \<and> snum s' = snum s \<and> scsr_live s' = scsr_live s"
proof (cases "snbrs s")
  case None
  then show ?thesis using assms by (simp add: scsr_compact_def)
next
  case (Some ns)
  have "filter live_nbr (map (\<lambda>e. if live_nbr e then e \<lparr> timestamp := 0 \<rparr> else e) xs) = map (\<lambda>e. e \<lparr> timestamp := 0 \<rparr>) (filter live_nbr xs)"
    for xs :: "'a MutableNbr list" by (induction xs) auto
  then show ?thesis using assms Some
    by (auto simp: scsr_compact_def scsr_inv_def snum_def scsr_live_def one_edge_def fun_eq_iff split: if_splits)
qed

interpretation single_csr: csr_deletes scsr_inv snum scsr_live sedge_num sbatch_delete_vertices sbatch_delete_edges scsr_compact
proof unfold_locales
  fix s :: "'a SingleMutableCsr" and v
  assume i: "scsr_inv s"
  show "scsr_live s v = []" if "snum s \<le> v" using that by (auto simp: scsr_live_def snum_def one_edge_def split: option.splits)
  show "sedge_num s = of_nat (edge_total (snum s) (scsr_live s))"
    using i by (auto simp: scsr_inv_def snum_def scsr_live_def one_edge_total edge_total_def [of 0] split: option.splits)
qed (auto intro: sbatch_delete_vertices_ok sbatch_delete_edges_ok scsr_compact_ok)

lemma sibatch_delete_vertices_ok:
  assumes "sicsr_inv s"
  shows "\<exists>s'. sibatch_delete_vertices S D s = Inr s' \<and> sicsr_inv s' \<and> sinum s' = sinum s \<and> sicsr_live s' = without_vertices S D (sicsr_live s)"
proof -
  let ?vPs = "map (\<lambda>v. (v, exists_nbr)) (filter (\<lambda>v. v \<in> S) [0..<sinum s]) @
            map (\<lambda>v. (v, \<lambda>e. exists_nbr e \<and> ineighbor e \<in> D)) [0..<sinum s]"
  have "\<forall>v < sinum s. exists_nbr (sinbrs s ! v) \<longrightarrow> ((\<exists>P. (v, P) \<in> set ?vPs \<and> P (sinbrs s ! v)) \<longleftrightarrow> v \<in> S \<or> fst (iedge (sinbrs s ! v)) \<in> D)"
    by (auto simp: iedge_def image_iff)
  from sikill_ok [where Q = "\<lambda>v e. v \<in> S \<or> fst e \<in> D", OF assms this] show ?thesis by (simp add: sibatch_delete_vertices_def without_vertices_filter)
qed

lemma sibatch_delete_edges_ok:
  assumes "sicsr_inv s" "length srcs = length dsts"
  shows "\<exists>s'. sibatch_delete_edges srcs dsts s = Inr s' \<and> sicsr_inv s' \<and> sinum s' = sinum s \<and>
    sicsr_live s' = without_pairs (set (zip srcs dsts)) (sicsr_live s)"
proof -
  let ?vPs = "map (\<lambda>(src, dst). (src, \<lambda>e. ineighbor e = dst \<and> exists_nbr e)) (zip srcs dsts)"
  have "\<forall>v < sinum s. exists_nbr (sinbrs s ! v) \<longrightarrow> ((\<exists>P. (v, P) \<in> set ?vPs \<and> P (sinbrs s ! v)) \<longleftrightarrow> (v, fst (iedge (sinbrs s ! v))) \<in> set (zip srcs dsts))"
    by (force simp: iedge_def image_iff)
  from sikill_ok [where Q = "\<lambda>v e. (v, fst e) \<in> set (zip srcs dsts)", OF assms(1) this] show ?thesis using assms(2) by (simp add: sibatch_delete_edges_def without_pairs_filter)
qed

interpretation single_icsr: csr_deletes sicsr_inv sinum sicsr_live siedge_num sibatch_delete_vertices sibatch_delete_edges sicsr_compact
proof unfold_locales
  fix s :: "'a SingleImmutableCsr" and v
  assume i: "sicsr_inv s"
  show "sicsr_live s v = []" if "sinum s \<le> v" using that by (simp add: sicsr_live_def sinum_def one_edge_def)
  show "siedge_num s = of_nat (edge_total (sinum s) (sicsr_live s))"
    using i by (simp add: sicsr_inv_def sinum_def sicsr_live_def one_edge_total)
qed (auto simp: sicsr_compact_def intro: sibatch_delete_vertices_ok sibatch_delete_edges_ok)

section \<open>Insertion\<close>

text \<open>
  A store of one edge per vertex appends only where the vertex has no edge yet. Every store that
  appends anywhere is such a store.
\<close>

locale csr_free_put = csr_deletes inv size_of live count del_vertices del_pairs compact
  for inv :: "'s \<Rightarrow> bool" and size_of :: "'s \<Rightarrow> nat" and live :: "'s \<Rightarrow> nat \<Rightarrow> 'd edge list"
    and count :: "'s \<Rightarrow> u64" and del_vertices :: "nat set \<Rightarrow> nat set \<Rightarrow> 's \<Rightarrow> 's res"
    and del_pairs :: "nat list \<Rightarrow> nat list \<Rightarrow> 's \<Rightarrow> 's res" and compact :: "'s \<Rightarrow> 's res" +
  fixes fput :: "(nat \<times> 'd edge) list \<Rightarrow> nat \<Rightarrow> 's \<Rightarrow> 's res"
  assumes put_free_law: "inv s \<Longrightarrow> \<forall>e\<in>set es. fst e < size_of s \<and> fst (snd e) \<noteq> NO_VERTEX \<and> live s (fst e) = [] \<Longrightarrow>
      distinct (map fst es) \<Longrightarrow> ts < INVALID_TIMESTAMP \<Longrightarrow>
      \<exists>s'. fput es ts s = Inr s' \<and> inv s' \<and> size_of s' = size_of s \<and> live s' = with_edges (size_of s) es (live s)"

sublocale csr_store \<subseteq> csr_free_put inv size_of live count del_vertices del_pairs compact put
  by unfold_locales (use put_law in blast)

definition free_ok :: "nat \<Rightarrow> (nat \<Rightarrow> 'd edge list) \<Rightarrow> 'd csr_op \<Rightarrow> bool" where
  "free_ok n g oper \<longleftrightarrow> op_ok n oper \<and>
     (case oper of PutEdges es ts \<Rightarrow> distinct (map fst es) \<and> (\<forall>e\<in>set es. g (fst e) = []) | _ \<Rightarrow> True)"

fun free_run :: "nat \<Rightarrow> (nat \<Rightarrow> 'd edge list) \<Rightarrow> 'd csr_op list \<Rightarrow> bool" where
  "free_run n g [] \<longleftrightarrow> True"
| "free_run n g (oper # ops) \<longleftrightarrow> free_ok n g oper \<and> free_run n (apply_op n oper g) ops"

context csr_free_put
begin

lemma free_op_refines:
  assumes "inv s" "free_ok (size_of s) (live s) oper"
  shows "\<exists>s'. (case oper of DeleteVertices S D \<Rightarrow> del_vertices S D s | DeletePairs srcs dsts \<Rightarrow> del_pairs srcs dsts s
      | PutEdges es ts \<Rightarrow> fput es ts s | CompactEdges \<Rightarrow> compact s) = Inr s' \<and>
    inv s' \<and> size_of s' = size_of s \<and> live s' = apply_op (size_of s) oper (live s)"
  using assms del_vertices_law [OF assms(1)] del_pairs_law [OF assms(1)] compact_law [OF assms(1)] put_free_law [OF assms(1)]
  by (cases oper) (simp_all add: op_ok_def free_ok_def apply_op_def)

lemma free_run_refines:
  assumes "inv s" "free_run (size_of s) (live s) ops"
  shows "\<exists>s'. run_ops (\<lambda>oper s. case oper of DeleteVertices S D \<Rightarrow> del_vertices S D s | DeletePairs srcs dsts \<Rightarrow> del_pairs srcs dsts s
      | PutEdges es ts \<Rightarrow> fput es ts s | CompactEdges \<Rightarrow> compact s) ops s = Inr s' \<and>
    inv s' \<and> size_of s' = size_of s \<and> live s' = fold (apply_op (size_of s)) ops (live s) \<and>
    count s' = of_nat (edge_total (size_of s) (live s'))"
  using assms
proof (induction ops arbitrary: s)
  case Nil
  then show ?case using count_exact by simp
next
  case (Cons oper ops)
  from free_op_refines [OF Cons.prems(1), of oper] Cons.prems(2)
  obtain s1 where s1: "(case oper of DeleteVertices S D \<Rightarrow> del_vertices S D s | DeletePairs srcs dsts \<Rightarrow> del_pairs srcs dsts s
      | PutEdges es ts \<Rightarrow> fput es ts s | CompactEdges \<Rightarrow> compact s) = Inr s1"
    "inv s1" "size_of s1 = size_of s" "live s1 = apply_op (size_of s) oper (live s)" by auto
  from Cons.IH [OF s1(2)] Cons.prems(2) s1 show ?case by simp
qed

end

text \<open>What the put loops do to the array: the last put of a vertex stays in the mutable store.\<close>

lemma put_steps:
  "sput_step ts (src, dst, d) (ns, n) = (if src \<ge> length ns then (ns, n) else (ns[src := \<lparr> neighbor = dst, timestamp = ts, edata = d \<rparr>], n + 1))"
  "siput_step (src, dst, d) (is, n) = (if src \<ge> length is \<or> exists_nbr (is ! src) then (is, n) else (is[src := \<lparr> ineighbor = dst, idata = d \<rparr>], n + 1))"
  by (simp_all add: sput_step_def siput_step_def)

lemma sput_fold_length:
  "fold (sput_step ts) es (ns, n) = (ns', n') \<Longrightarrow> length ns' = length ns \<and> n' = n + of_nat (length (filter (\<lambda>e. fst e < length ns) es))"
proof (induction es arbitrary: ns n)
  case (Cons e es)
  obtain src dst d where e: "e = (src, dst, d)" by (cases e)
  show ?case
  proof (cases "src < length ns")
    case True
    have "fold (sput_step ts) es (ns[src := \<lparr> neighbor = dst, timestamp = ts, edata = d \<rparr>], n + 1) = (ns', n')"
      using Cons.prems e True by (simp add: put_steps)
    from Cons.IH [OF this] show ?thesis using True e by simp
  next
    case False
    have "fold (sput_step ts) es (ns, n) = (ns', n')" using Cons.prems e False by (simp add: put_steps)
    from Cons.IH [OF this] show ?thesis using False e by simp
  qed
qed simp

lemma sput_fold_at:
  "fold (sput_step ts) es (ns, n) = (ns', n') \<Longrightarrow> v < length ns \<Longrightarrow> if v \<in> fst ` set es
    then \<exists>e\<in>set es. fst e = v \<and> ns' ! v = \<lparr> neighbor = fst (snd e), timestamp = ts, edata = snd (snd e) \<rparr> else ns' ! v = ns ! v"
proof (induction es arbitrary: ns n)
  case (Cons e es)
  obtain src dst d where e: "e = (src, dst, d)" by (cases e)
  show ?case
  proof (cases "src < length ns")
    case True
    let ?y = "ns[src := \<lparr> neighbor = dst, timestamp = ts, edata = d \<rparr>]"
    have "fold (sput_step ts) es (?y, n + 1) = (ns', n')" using Cons.prems(1) e True by (simp add: put_steps)
    from Cons.IH [OF this] have ih: "if v \<in> fst ` set es
      then \<exists>e\<in>set es. fst e = v \<and> ns' ! v = \<lparr> neighbor = fst (snd e), timestamp = ts, edata = snd (snd e) \<rparr> else ns' ! v = ?y ! v"
      using Cons.prems(2) by simp
    show ?thesis
    proof (cases "v \<in> fst ` set es")
      case True
      then show ?thesis using ih by simp
    next
      case False
      then show ?thesis using ih e True Cons.prems(2) by (auto simp: nth_list_update)
    qed
  next
    case False
    have "fold (sput_step ts) es (ns, n) = (ns', n')" using Cons.prems(1) e False by (simp add: put_steps)
    from Cons.IH [OF this Cons.prems(2)] have ih: "if v \<in> fst ` set es
      then \<exists>e\<in>set es. fst e = v \<and> ns' ! v = \<lparr> neighbor = fst (snd e), timestamp = ts, edata = snd (snd e) \<rparr> else ns' ! v = ns ! v" .
    moreover have "v \<noteq> src" using False Cons.prems(2) by auto
    ultimately show ?thesis using e by (cases "v \<in> fst ` set es") auto
  qed
qed simp

lemma sput_fold:
  assumes "fold (sput_step ts) es (ns, n) = (ns', n')"
  shows "length ns' = length ns \<and> n' = n + of_nat (length (filter (\<lambda>e. fst e < length ns) es)) \<and>
    (\<forall>v<length ns. (v \<notin> fst ` set es \<longrightarrow> ns' ! v = ns ! v) \<and> (v \<in> fst ` set es \<longrightarrow> timestamp (ns' ! v) = ts) \<and>
      (distinct (map fst es) \<longrightarrow> (\<forall>e\<in>set es. fst e = v \<longrightarrow> ns' ! v = \<lparr> neighbor = fst (snd e), timestamp = ts, edata = snd (snd e) \<rparr>)))"
proof (intro conjI allI impI ballI)
  show "length ns' = length ns" "n' = n + of_nat (length (filter (\<lambda>e. fst e < length ns) es))" using sput_fold_length [OF assms] by auto
  fix v
  assume v: "v < length ns"
  note a = sput_fold_at [OF assms v]
  show "ns' ! v = ns ! v" if "v \<notin> fst ` set es" using a that by simp
  show "timestamp (ns' ! v) = ts" if "v \<in> fst ` set es" using a that by auto
  show "ns' ! v = \<lparr> neighbor = fst (snd e), timestamp = ts, edata = snd (snd e) \<rparr>" if "distinct (map fst es)" "e \<in> set es" "fst e = v" for e
  proof -
    from a that(2,3) obtain x where "x \<in> set es" "fst x = v" "ns' ! v = \<lparr> neighbor = fst (snd x), timestamp = ts, edata = snd (snd x) \<rparr>"
      by (auto split: if_splits)
    moreover from this that have "x = e" by (metis distinct_map inj_onD)
    ultimately show ?thesis by simp
  qed
qed

lemma siput_fold:
  "fold siput_step es (ns, of_nat (length (filter exists_nbr ns))) = (ns', n') \<Longrightarrow> \<forall>e\<in>set es. fst (snd e) \<noteq> NO_VERTEX \<Longrightarrow>
   length ns' = length ns \<and> n' = of_nat (length (filter exists_nbr ns')) \<and>
    (\<forall>v<length ns. (v \<notin> fst ` set es \<or> exists_nbr (ns ! v) \<longrightarrow> ns' ! v = ns ! v) \<and>
      (distinct (map fst es) \<and> \<not> exists_nbr (ns ! v) \<longrightarrow> (\<forall>e\<in>set es. fst e = v \<longrightarrow> ns' ! v = new_inbr e)))"
proof (induction es arbitrary: ns)
  case (Cons e es)
  obtain src dst d where e: "e = (src, dst, d)" by (cases e)
  have es: "\<forall>e\<in>set es. fst (snd e) \<noteq> NO_VERTEX" using Cons.prems(2) by simp
  show ?case
  proof (cases "src < length ns \<and> \<not> exists_nbr (ns ! src)")
    case True
    let ?n = "\<lparr> ineighbor = dst, idata = d \<rparr>" let ?y = "ns[src := ?n]"
    have x: "exists_nbr ?n" using Cons.prems(2) e by (simp add: exists_nbr_def)
    then have "length (filter exists_nbr ?y) = Suc (length (filter exists_nbr ns))"
      using count_list_update [of src ns exists_nbr ?n] True by simp
    then have "fold siput_step es (?y, of_nat (length (filter exists_nbr ?y))) = (ns', n')"
      using Cons.prems(1) e True by (simp add: put_steps add.commute)
    from Cons.IH [OF this es] show ?thesis using True e x by (auto simp: nth_list_update image_iff new_inbr_def split: if_splits)
  next
    case False
    have "fold siput_step es (ns, of_nat (length (filter exists_nbr ns))) = (ns', n')"
      using Cons.prems(1) e False by (auto simp: put_steps split: if_splits)
    from Cons.IH [OF this es] show ?thesis using False e by auto
  qed
qed simp

definition sput_all :: "(nat \<times> 'd edge) list \<Rightarrow> nat \<Rightarrow> 'd SingleMutableCsr \<Rightarrow> 'd SingleMutableCsr res" where
  "sput_all es ts s = sbatch_put_edges (map fst es) (map (fst \<circ> snd) es) (map (snd \<circ> snd) es) ts s"

definition siput_all :: "(nat \<times> 'd edge) list \<Rightarrow> nat \<Rightarrow> 'd SingleImmutableCsr \<Rightarrow> 'd SingleImmutableCsr res" where
  "siput_all es ts s = sibatch_put_edges (map fst es) (map (fst \<circ> snd) es) (map (snd \<circ> snd) es) s"

lemma filter_one: "distinct (map fst es) \<Longrightarrow> e \<in> set es \<Longrightarrow> filter (\<lambda>x. fst x = fst e) es = [e]"
proof (induction es)
  case (Cons x es)
  then show ?case by (cases "x = e") (auto simp: filter_empty_conv rev_image_eqI image_iff)
qed simp

lemma with_one:
  assumes "distinct (map fst es)" "\<forall>e\<in>set es. g (fst e) = []"
    "\<And>v. v < n \<Longrightarrow> v \<notin> fst ` set es \<Longrightarrow> h v = g v" "\<And>e. e \<in> set es \<Longrightarrow> fst e < n \<Longrightarrow> h (fst e) = [snd e]"
    "\<And>v. n \<le> v \<Longrightarrow> h v = g v"
  shows "h = with_edges n es g"
proof
  fix v
  show "h v = with_edges n es g v"
  proof (cases "v < n \<and> v \<in> fst ` set es")
    case True
    then obtain e where e: "e \<in> set es" "fst e = v" by auto
    then have "filter (\<lambda>x. fst x = v) es = [e]" using filter_one [OF assms(1) e(1)] by simp
    moreover have "h v = [snd e]" "v < n" using assms(4) [OF e(1)] e True by simp_all
    moreover have "g v = []" using assms(2) e by blast
    ultimately show ?thesis by (simp add: with_edges_def)
  next
    case False
    then have "filter (\<lambda>x. fst x = v) es = []" if "v < n" using that by (auto simp: filter_empty_conv)
    then show ?thesis using False assms(3,5) by (cases "v < n") (auto simp: with_edges_def)
  qed
qed

lemma live_positions: "length (filter Q ns) = card {v. v < length ns \<and> Q (ns ! v)}"
  by (rule length_filter_conv_card)

lemma sput_all_result:
  assumes "snbrs s = Some ns" "ts < INVALID_TIMESTAMP"
  shows "\<exists>ns'. sput_all es ts s = Inr (s \<lparr> snbrs := Some ns', sedge_num := sedge_num s + of_nat (length (filter (\<lambda>e. fst e < length ns) es)) \<rparr>) \<and>
    length ns' = length ns \<and>
    length (filter live_nbr ns') = length (filter live_nbr ns) + card {v \<in> fst ` set es. v < length ns \<and> \<not> live_nbr (ns ! v)} \<and>
    (\<forall>v<length ns. v \<notin> fst ` set es \<longrightarrow> ns' ! v = ns ! v) \<and>
    (distinct (map fst es) \<longrightarrow> (\<forall>e\<in>set es. fst e < length ns \<longrightarrow> ns' ! fst e = \<lparr> neighbor = fst (snd e), timestamp = ts, edata = snd (snd e) \<rparr>))"
proof -
  obtain ns' n' where f: "fold (sput_step ts) es (ns, sedge_num s) = (ns', n')" by force
  note k = sput_fold [OF f]
  let ?A = "{v. v < length ns \<and> live_nbr (ns ! v)}" let ?B = "{v \<in> fst ` set es. v < length ns \<and> \<not> live_nbr (ns ! v)}"
  have "{v. v < length ns' \<and> live_nbr (ns' ! v)} = ?A \<union> ?B"
    using k assms(2) by (auto simp: live_nbr_def)
  then have "length (filter live_nbr ns') = length (filter live_nbr ns) + card ?B"
    by (simp add: live_positions card_Un_disjoint disjoint_iff)
  moreover have "sput_all es ts s = Inr (s \<lparr> snbrs := Some ns', sedge_num := n' \<rparr>)"
    using assms(1) f by (simp add: sput_all_def sbatch_put_edges_def zip_parts del: zip_map_map)
  ultimately show ?thesis using k by blast
qed

lemma sput_all_ok:
  assumes "scsr_inv s" "\<forall>e\<in>set es. fst e < snum s \<and> scsr_live s (fst e) = []" "distinct (map fst es)" "ts < INVALID_TIMESTAMP"
  shows "\<exists>s'. sput_all es ts s = Inr s' \<and> scsr_inv s' \<and> snum s' = snum s \<and> scsr_live s' = with_edges (snum s) es (scsr_live s)"
proof (cases "snbrs s")
  case None
  then have "es = []" using assms(2) by (cases es) (auto simp: snum_def)
  then show ?thesis using None assms(1) by (simp add: sput_all_def sbatch_put_edges_def with_edges_def fun_eq_iff)
next
  case (Some ns)
  have free: "\<forall>e\<in>set es. fst e < length ns \<and> \<not> live_nbr (ns ! fst e)"
    using assms(2) Some by (auto simp: snum_def scsr_live_def one_edge_def split: if_splits)
  obtain ns' where p: "sput_all es ts s = Inr (s \<lparr> snbrs := Some ns', sedge_num := sedge_num s + of_nat (length (filter (\<lambda>e. fst e < length ns) es)) \<rparr>)"
    "length ns' = length ns"
    "length (filter live_nbr ns') = length (filter live_nbr ns) + card {v \<in> fst ` set es. v < length ns \<and> \<not> live_nbr (ns ! v)}"
    "\<forall>v<length ns. v \<notin> fst ` set es \<longrightarrow> ns' ! v = ns ! v"
    "\<forall>e\<in>set es. ns' ! fst e = \<lparr> neighbor = fst (snd e), timestamp = ts, edata = snd (snd e) \<rparr>"
    using sput_all_result [OF Some assms(4), of es] assms(3) free by auto
  have "{v \<in> fst ` set es. v < length ns \<and> \<not> live_nbr (ns ! v)} = set (map fst es)" using free by auto
  then have "card {v \<in> fst ` set es. v < length ns \<and> \<not> live_nbr (ns ! v)} = length es"
    using distinct_card [OF assms(3)] by simp
  moreover have "filter (\<lambda>e. fst e < length ns) es = es" using free by (simp add: filter_id_conv)
  ultimately have i: "scsr_inv (s \<lparr> snbrs := Some ns', sedge_num := sedge_num s + of_nat (length (filter (\<lambda>e. fst e < length ns) es)) \<rparr>)"
    using assms(1) Some p(3) by (simp add: scsr_inv_def)
  have "one_edge live_nbr medge ns' = with_edges (length ns) es (one_edge live_nbr medge ns)"
    by (rule with_one [OF assms(3)]) (use free p(2,4,5) assms(4) in \<open>auto simp: one_edge_def live_nbr_def medge_def\<close>)
  then show ?thesis using p(1,2) i Some by (simp add: snum_def scsr_live_def)
qed

lemma siput_all_ok:
  assumes "sicsr_inv s" "\<forall>e\<in>set es. fst (snd e) \<noteq> NO_VERTEX"
  shows "\<exists>s'. siput_all es ts s = Inr s' \<and> sicsr_inv s' \<and> sinum s' = sinum s \<and>
    (distinct (map fst es) \<and> (\<forall>e\<in>set es. fst e < sinum s \<and> sicsr_live s (fst e) = []) \<longrightarrow> sicsr_live s' = with_edges (sinum s) es (sicsr_live s)) \<and>
    (\<forall>v. sicsr_live s v \<noteq> [] \<longrightarrow> sicsr_live s' v = sicsr_live s v)"
proof -
  have n: "siedge_num s = of_nat (length (filter exists_nbr (sinbrs s)))" using assms(1) by (simp add: sicsr_inv_def)
  obtain ns' n' where f: "fold siput_step es (sinbrs s, siedge_num s) = (ns', n')" by force
  note k = siput_fold [OF f [unfolded n] assms(2)]
  let ?s = "s \<lparr> sinbrs := ns', siedge_num := n' \<rparr>"
  have "siput_all es ts s = Inr ?s" using f by (simp add: siput_all_def sibatch_put_edges_def zip_parts del: zip_map_map)
  moreover have "sicsr_inv ?s" "sinum ?s = sinum s" using k by (simp_all add: sicsr_inv_def sinum_def)
  moreover have "one_edge exists_nbr iedge ns' = with_edges (length ns') es (one_edge exists_nbr iedge (sinbrs s))"
    if "distinct (map fst es)" "\<forall>e\<in>set es. fst e < length (sinbrs s) \<and> \<not> exists_nbr (sinbrs s ! fst e)"
    by (rule with_one [OF that(1)]) (use k that assms(2) in \<open>auto simp: one_edge_def iedge_def new_inbr_def exists_nbr_def\<close>)
  moreover have "one_edge exists_nbr iedge ns' v = one_edge exists_nbr iedge (sinbrs s) v" if "one_edge exists_nbr iedge (sinbrs s) v \<noteq> []" for v
    using k that by (auto simp: one_edge_def split: if_splits)
  ultimately show ?thesis using k by (auto simp: sicsr_live_def sinum_def one_edge_def)
qed

interpretation single_put: csr_free_put scsr_inv snum scsr_live sedge_num sbatch_delete_vertices sbatch_delete_edges scsr_compact sput_all
  by unfold_locales (use sput_all_ok in blast)

interpretation single_iput: csr_free_put sicsr_inv sinum sicsr_live siedge_num sibatch_delete_vertices sibatch_delete_edges sicsr_compact siput_all
  by unfold_locales (use siput_all_ok in blast)

section \<open>The single-edge stores agree\<close>

definition single_op :: "'d csr_op \<Rightarrow> 'd SingleMutableCsr \<Rightarrow> 'd SingleMutableCsr res" where
  "single_op oper s = (case oper of DeleteVertices S D \<Rightarrow> sbatch_delete_vertices S D s
     | DeletePairs srcs dsts \<Rightarrow> sbatch_delete_edges srcs dsts s
     | PutEdges es ts \<Rightarrow> sput_all es ts s | CompactEdges \<Rightarrow> scsr_compact s)"

definition single_iop :: "'d csr_op \<Rightarrow> 'd SingleImmutableCsr \<Rightarrow> 'd SingleImmutableCsr res" where
  "single_iop oper s = (case oper of DeleteVertices S D \<Rightarrow> sibatch_delete_vertices S D s
     | DeletePairs srcs dsts \<Rightarrow> sibatch_delete_edges srcs dsts s
     | PutEdges es ts \<Rightarrow> siput_all es ts s | CompactEdges \<Rightarrow> sicsr_compact s)"

definition sino_edges :: "'d ImmutableNbr \<Rightarrow> nat \<Rightarrow> 'd SingleImmutableCsr" where
  "sino_edges junk n = sicsr_resize junk n \<lparr> sinbrs = [], siedge_num = 0 \<rparr>"

lemma sno_edges_ok:
  assumes "scsr_resize junk n \<lparr> snbrs = Some [], sedge_num = 0 \<rparr> = Inr s"
  shows "scsr_inv s" "snum s = n" "scsr_live s = (\<lambda>v. [])"
  using assms by (auto simp: scsr_resize_def scsr_inv_def snum_def scsr_live_def one_edge_def fun_eq_iff)

lemma sino_edges_ok: "sicsr_inv (sino_edges junk n)" "sinum (sino_edges junk n) = n" "sicsr_live (sino_edges junk n) = (\<lambda>v. [])"
  by (auto simp: sino_edges_def sicsr_resize_def sicsr_inv_def sinum_def sicsr_live_def one_edge_def fun_eq_iff)

text \<open>
  C39. Where every vertex keeps at most one edge, the stores for single edges can replace the stores for
  any number: from stores without edges, a sequence of batch operations that only puts an edge at a vertex
  without one succeeds in both single-edge stores and in the mutable multi-edge store, and ends with the same edges
  and the same exact edge counter in all three.
\<close>
theorem single_stores_agree:
  assumes "free_run n (\<lambda>v. []) ops" "scsr_resize junk n \<lparr> snbrs = Some [], sedge_num = 0 \<rparr> = Inr s0"
  shows "\<exists>s t u. run_ops single_op ops s0 = Inr s \<and> run_ops single_iop ops (sino_edges ijunk n) = Inr t \<and>
    run_ops (mutable_op mjunk) ops (no_edges n) = Inr u \<and>
    scsr_live s = fold (apply_op n) ops (\<lambda>v. []) \<and> sicsr_live t = scsr_live s \<and> csr_live u = scsr_live s \<and>
    sedge_num s = of_nat (edge_total n (scsr_live s)) \<and> siedge_num t = sedge_num s \<and> edge_num u = sedge_num s"
proof -
  note z = sno_edges_ok [OF assms(2)]
  obtain s where "run_ops single_op ops s0 = Inr s" "scsr_live s = fold (apply_op n) ops (\<lambda>v. [])"
    "sedge_num s = of_nat (edge_total n (scsr_live s))"
    using single_put.free_run_refines [OF z(1), of ops] assms(1) unfolding z(2,3) single_op_def [abs_def] by blast
  moreover obtain t where "run_ops single_iop ops (sino_edges ijunk n) = Inr t" "sicsr_live t = fold (apply_op n) ops (\<lambda>v. [])"
    "siedge_num t = of_nat (edge_total n (sicsr_live t))"
    using single_iput.free_run_refines [OF sino_edges_ok(1), of ijunk n ops] assms(1) unfolding sino_edges_ok(2,3) single_iop_def [abs_def] by blast
  moreover obtain u where "run_ops (mutable_op mjunk) ops (no_edges n) = Inr u" "csr_live u = fold (apply_op n) ops (\<lambda>v. [])"
    "edge_num u = of_nat (edge_total n (csr_live u))"
    using mutable_store.free_run_refines [OF no_edges_ok(1), of n ops mjunk] assms(1) unfolding no_edges_ok(2,3) mutable_op_def [abs_def] by blast
  ultimately show ?thesis by simp
qed

theorem single_stores_agree_witness:
  "\<exists>s0 s t u. scsr_resize \<lparr> neighbor = 0, timestamp = 0, edata = 0 :: nat \<rparr> 2 \<lparr> snbrs = Some [], sedge_num = 0 \<rparr> = Inr s0 \<and>
     run_ops single_op [PutEdges [(1, 7, 5), (0, 8, 6)] 3, DeletePairs [1] [7], PutEdges [(1, 9, 4)] 4] s0 = Inr s \<and>
     run_ops single_iop [PutEdges [(1, 7, 5), (0, 8, 6)] 3, DeletePairs [1] [7], PutEdges [(1, 9, 4)] 4]
       (sino_edges \<lparr> ineighbor = 0, idata = 0 \<rparr> 2) = Inr t \<and>
     run_ops (mutable_op \<lparr> neighbor = 0, timestamp = 0, edata = 0 \<rparr>) [PutEdges [(1, 7, 5), (0, 8, 6)] 3, DeletePairs [1] [7], PutEdges [(1, 9, 4)] 4]
       (no_edges 2) = Inr u \<and>
     scsr_live s 1 = [(9, 4)] \<and> sicsr_live t = scsr_live s \<and> csr_live u = scsr_live s"
proof -
  let ?ops = "[PutEdges [(1, 7, 5 :: nat), (0, 8, 6)] 3, DeletePairs [1] [7], PutEdges [(1, 9, 4)] 4]"
  let ?j = "\<lparr> neighbor = 0, timestamp = 0, edata = 0 :: nat \<rparr>" and ?i = "\<lparr> ineighbor = 0, idata = 0 \<rparr>"
  have ok: "free_run 2 (\<lambda>v. []) ?ops"
    by (simp add: free_ok_def op_ok_def apply_op_def with_edges_def without_pairs_def NO_VERTEX_def INVALID_TIMESTAMP_def)
  obtain s0 where s0: "scsr_resize ?j 2 \<lparr> snbrs = Some [], sedge_num = 0 \<rparr> = Inr s0" by (simp add: scsr_resize_def)
  have "fold (apply_op 2) ?ops (\<lambda>v. []) 1 = [(9, 4)]" by (simp add: apply_op_def with_edges_def without_pairs_def)
  with s0 single_stores_agree [OF ok s0, of ?i ?j] show ?thesis by auto
qed

text \<open>
  C40. The edge counter under insertion into single-edge stores. The mutable store's batch insertion counts every put in
  range, also one that overwrites an edge: the counter exceeds the number of live edges by the number of puts
  in range less the number of vertices that got their first edge. Inserting one edge at an occupied vertex aborts instead,
  and the immutable store skips occupied vertices, keeps their edges and counts exactly.
\<close>
theorem single_put_counter:
  assumes "scsr_inv s" "snbrs s \<noteq> None" "ts < INVALID_TIMESTAMP" "sicsr_inv t" "\<forall>e\<in>set es. fst (snd e) \<noteq> NO_VERTEX"
  shows "(\<exists>s'. sbatch_put_edges (map fst es) (map (fst \<circ> snd) es) (map (snd \<circ> snd) es) ts s = Inr s' \<and>
      sedge_num s' = of_nat (edge_total (snum s') (scsr_live s') +
        (length (filter (\<lambda>e. fst e < snum s) es) - card {v \<in> fst ` set es. v < snum s \<and> scsr_live s v = []}))) \<and>
    (\<forall>src dst d. scsr_live s src \<noteq> [] \<longrightarrow> sput_edge src dst d ts s = Inl CheckFailed) \<and>
    (\<exists>t'. sibatch_put_edges (map fst es) (map (fst \<circ> snd) es) (map (snd \<circ> snd) es) t = Inr t' \<and>
      siedge_num t' = of_nat (edge_total (sinum t') (sicsr_live t')) \<and> (\<forall>v. sicsr_live t v \<noteq> [] \<longrightarrow> sicsr_live t' v = sicsr_live t v))"
proof (intro conjI)
  obtain ns where ns: "snbrs s = Some ns" using assms(2) by auto
  have live: "scsr_live s v = [] \<longleftrightarrow> \<not> (v < length ns \<and> live_nbr (ns ! v))" for v by (simp add: scsr_live_def ns one_edge_def)
  let ?B = "{v \<in> fst ` set es. v < length ns \<and> \<not> live_nbr (ns ! v)}"
  have B: "{v \<in> fst ` set es. v < snum s \<and> scsr_live s v = []} = ?B" using live by (auto simp: snum_def ns)
  let ?in = "filter (\<lambda>e. fst e < length ns) es"
  have "card ?B \<le> card (fst ` set ?in)" by (rule card_mono) auto
  then have le: "card ?B \<le> length ?in" using card_image_le [of "set ?in" fst] card_length [of ?in] by simp
  obtain ns' where p: "sput_all es ts s = Inr (s \<lparr> snbrs := Some ns', sedge_num := sedge_num s + of_nat (length ?in) \<rparr>)"
    "length (filter live_nbr ns') = length (filter live_nbr ns) + card ?B"
    using sput_all_result [OF ns assms(3), of es] by auto
  have "sedge_num s = of_nat (length (filter live_nbr ns))" using assms(1) ns by (simp add: scsr_inv_def)
  then have "sedge_num s + of_nat (length ?in) = of_nat (length (filter live_nbr ns) + length ?in)" by simp
  also have "length (filter live_nbr ns) + length ?in = length (filter live_nbr ns') + (length ?in - card ?B)" using p(2) le by simp
  finally show "\<exists>s'. sbatch_put_edges (map fst es) (map (fst \<circ> snd) es) (map (snd \<circ> snd) es) ts s = Inr s' \<and>
      sedge_num s' = of_nat (edge_total (snum s') (scsr_live s') +
        (length (filter (\<lambda>e. fst e < snum s) es) - card {v \<in> fst ` set es. v < snum s \<and> scsr_live s v = []}))"
    using p(1) unfolding B sput_all_def by (simp add: snum_def ns scsr_live_def one_edge_total)
  show "\<forall>src dst d. scsr_live s src \<noteq> [] \<longrightarrow> sput_edge src dst d ts s = Inl CheckFailed"
    using live ns by (auto simp: sput_edge_def snum_def live_nbr_def)
  show "\<exists>t'. sibatch_put_edges (map fst es) (map (fst \<circ> snd) es) (map (snd \<circ> snd) es) t = Inr t' \<and>
      siedge_num t' = of_nat (edge_total (sinum t') (sicsr_live t')) \<and> (\<forall>v. sicsr_live t v \<noteq> [] \<longrightarrow> sicsr_live t' v = sicsr_live t v)"
    using siput_all_ok [OF assms(4,5)] single_icsr.count_exact unfolding siput_all_def by blast
qed

text \<open>Putting the same edge twice: one live edge, and a counter of two.\<close>

theorem single_put_counter_witness:
  "\<exists>s'. sbatch_put_edges [0, 0] [7, 7] [5 :: nat, 5] 3 \<lparr> snbrs = Some [\<lparr> neighbor = 0, timestamp = INVALID_TIMESTAMP, edata = 0 \<rparr>], sedge_num = 0 \<rparr> = Inr s' \<and>
     sedge_num s' = of_nat (edge_total (snum s') (scsr_live s') + 1)"
proof -
  let ?s = "\<lparr> snbrs = Some [\<lparr> neighbor = 0, timestamp = INVALID_TIMESTAMP, edata = 0 :: nat \<rparr>], sedge_num = 0 \<rparr>"
  let ?t = "\<lparr> sinbrs = [] :: nat ImmutableNbr list, siedge_num = 0 \<rparr>" and ?es = "[(0, 7, 5 :: nat), (0, 7, 5)]"
  have h: "scsr_inv ?s" "snbrs ?s \<noteq> None" "3 < INVALID_TIMESTAMP" "sicsr_inv ?t" "\<forall>e\<in>set ?es. fst (snd e) \<noteq> NO_VERTEX"
    by (simp_all add: scsr_inv_def live_nbr_def sicsr_inv_def NO_VERTEX_def) (simp add: INVALID_TIMESTAMP_def)
  have b: "{v \<in> fst ` set ?es. v < snum ?s \<and> scsr_live ?s v = []} = {0}"
    by (auto simp: snum_def scsr_live_def one_edge_def live_nbr_def)
  show ?thesis using conjunct1 [OF single_put_counter [OF h]] unfolding b by (simp add: snum_def)
qed

end
