(* ===== verification/Spec2Isabelle.thy ===== *)
theory Spec2Isabelle
  imports Gate_Leases Write_Transactions VM_Properties Timestamp_Lease Store_Properties Read_Lease Wal_Recovery
    Vertex_Timestamp Csr_View Single_Csr
begin

text \<open>
  \<^bold>\<open>Verification of the transactional core of NeuG.\<close>

  NeuG is a graph database. Its transactions are admitted by an operation gate, get timestamps from
  a version manager, read snapshots that a snapshot store keeps, and are made durable by a
  write-ahead log that is replayed when the database is opened. The graph itself is kept in arrays of
  vertex timestamps and in compressed adjacency lists. This library models these parts, one
  theory or a few per component, and proves what the code promises about them. Paths below are relative to the
  root of the repository.

  \<^bold>\<open>How the parts interact.\<close> A reader calls \<open>ReadSnapshotLease::Acquire\<close>, which enters the gate, loads the
  published view of the version manager and pins a slot of the snapshot store. A writer reserves a
  timestamp from the version manager, which drives the gate's phases; it changes a private copy of the graph or
  collects a record, appends its record to the log, publishes a prepared snapshot or applies the
  record, and completes its timestamp, which moves the read frontier. Recovery parses the log files and
  applies the records by timestamp.

  \<^bold>\<open>Theories and what they model.\<close>

  \<^item> \<open>Prelude\<close>: machine words, the exceptions of \<open>include/neug/utils/exception\<close> as the type \<open>neug_error\<close> (with
    failed \<open>CHECK\<close>s and undefined behaviour as values), little-endian bytes, sums over threads, and the locale
    \<open>codec\<close>, the contract of every encoding: a decoder gives back what was encoded and leaves the rest.
  \<^item> \<open>Operation_Gate\<close>, \<open>Gate_Protocol\<close>, \<open>Gate_Leases\<close> (\<open>src/transaction/operation_gate.cc\<close>): the packed 64-bit admission word, every
    method as a sequence of atomic loads, adds and compare-and-swaps, any number of threads interleaved at that
    granularity as a step relation, and the shared and exclusive leases as programs over the methods. The
    invariant counts the holders; the properties are mutual exclusion and the absence of exceptions.
  \<^item> \<open>Timestamp_Window\<close>, \<open>Version_Manager\<close>, \<open>VM_Coupling\<close>, \<open>VM_Invariant\<close>, \<open>VM_Properties\<close> (\<open>timestamp_window.cc\<close>, \<open>version_manager.cc\<close>): the
    ring of completed timestamps and the methods that reserve, complete and publish timestamps, interleaved with
    the gate. \<open>VM_Coupling\<close> shows that the version manager uses the gate as its protocol demands, \<open>VM_Invariant\<close>
    has the invariant of the timeline, one lemma per atomic action, and \<open>VM_Properties\<close> what readers and writers may rely on.
  \<^item> \<open>Timestamp_Lease\<close> (\<open>timestamp_lease.cc\<close>) and \<open>Read_Lease\<close> (\<open>read_snapshot_lease.cc\<close>): the owners of one timestamp and of one read
    admission, with the calls they make.
  \<^item> \<open>Snapshot_Store\<close>, \<open>Store_Invariant\<close>, \<open>Store_Properties\<close> (\<open>src/storages/graph/graph_snapshot_store.cc\<close>): slots with
    pin counts, cleanup, preparation and publication, interleaved between tasks; pinned snapshots are
    immutable, no slot leaks, generations are distinct.
  \<^item> \<open>Archive\<close>, \<open>Data_Types\<close>, \<open>Values\<close>, \<open>Op_Params\<close>, \<open>Wal_Redo\<close> (\<open>include/neug/utils/serialization\<close>, \<open>src/common/types.cc\<close>, \<open>src/common/types/value.cc\<close>,
    \<open>operation_params.cc\<close>, \<open>wal.cc\<close>): the byte encodings of everything a log record holds, as interpretations of
    \<open>codec\<close>, and what an encoding loses (declared lengths of strings, types of nulls).
  \<^item> \<open>Wal_Builder\<close>, \<open>Wal_Writer\<close>, \<open>Wal_Recovery\<close> (\<open>wal_builder.cc\<close>, \<open>local_wal_writer.cc\<close>, \<open>local_wal_parser.cc\<close>, \<open>src/main/neug_db.cc\<close>): records and their
    headers, appending under short, interrupted and failed writes, parsing the files, and the
    recovery loop.
  \<^item> \<open>Write_Transactions\<close> (\<open>snapshot_cow_write_transaction.cc\<close>, \<open>current_cow_write_transaction.cc\<close>, \<open>current_graph_write_guard.cc\<close>,
    \<open>mvcc_insert_transaction.cc\<close>, \<open>in_place_compaction_transaction.cc\<close>, \<open>cow_graph_workspace.cc\<close>): commit, abort and destruction of the four kinds of write
    transactions with the calls they make in order; log before change, and one end per timestamp.
  \<^item> \<open>Vertex_Timestamp\<close> (\<open>vertex_timestamp.cc\<close>): which vertices exist at which timestamp, as a refinement of a map from
    vertices to timestamps, and the file format. The locale \<open>visibility\<close> has the laws of such a map.
  \<^item> \<open>Csr_Base\<close>, \<open>Mutable_Csr\<close>, \<open>Csr_View\<close>, \<open>Immutable_Csr\<close>, \<open>Immutable_Refines\<close>, \<open>Single_Csr\<close> (\<open>mutable_csr\<close>, \<open>immutable_csr\<close>, \<open>csr_view.h\<close>): the four
    adjacency stores. \<open>Csr_Base\<close> has the in-place compaction loop they share and the locales \<open>csr_deletes\<close> and
    \<open>csr_store\<close>, the contract over an abstract graph; \<open>Single_Csr\<close> adds \<open>csr_free_put\<close> for stores of one edge per vertex, of
    which every \<open>csr_store\<close> is one. All four stores are interpretations, so sequences of operations agree between
    them. \<open>Csr_View\<close> has the iterator and the range scans over a store with its history.

  The theorem of this theory spans the transaction, the log writer and the parser.

  \<^bold>\<open>State and operations.\<close> A class is a record with the members the operations use, an operation is one
  function of the source's name where that is free (prefixes tell the stores and transactions
  apart: \<open>i\<close> for the immutable store, \<open>s\<close> and \<open>si\<close> for the single-edge stores; \<open>s_\<close>, \<open>c_\<close>, \<open>i_\<close>, \<open>k_\<close> for the snapshot,
  current-graph, insert and compaction transactions). Exceptions, failed checks and undefined behaviour are results. Concurrent methods are
  programs over a shared state whose steps are single atomic operations, and an \<open>inductive\<close> relation
  interleaves the threads. What the operating system, the graph or another component answers is an
  argument.

  \<^bold>\<open>Bounds and fuel.\<close> Counters and timestamps have the width of the source; edge counters are 64-bit words, and vertex ids
  and timestamps of entries are natural numbers compared with the 32-bit constants of the source. The gate theorems need fewer than \<open>2 ^ 31\<close>
  threads, the range of a counter field. Decoders of nested types and values take the number of
  remaining bytes as fuel, which is enough since every level reads at least its tag; the replay loop and the
  file parser use the number of bytes for the same reason. Completing a timestamp returns within a bound linear in the
  outstanding timestamps.

  \<^bold>\<open>Flaws the proofs show.\<close> A declared property type is dropped when a schema change is read back; a record of \<open>2 ^ 30\<close> bytes gets
  a negative length; recovery may read the insert list out of range; a reloaded vertex array keeps removed vertices; an
  opened flat store may be compacted through a null pointer; the single-edge store counts overwritten edges; an insert
  whose application throws after its record was logged still releases its timestamp; types that differ in string length compare equal.

  \<^bold>\<open>Not modelled.\<close> The property graph, the schema, vertex and edge tables, columns, indexers and indexes: they are a catalogue
  over memory-mapped containers, YAML and JSON, and what a log record does to them is an argument of recovery and
  of the transactions. The operations of copy-on-write storage, which forward to that graph. Containers, checkpoints, loaders and
  file systems: input and output. Opening, closing and dumping of the stores beyond the file formats named above, sharing of arrays between
  clones, and cache prefetching. The query compiler and the query operators, which work on
  generated parsers and protobuf plans, the server, the language bindings, the extensions and third-party code. Memory is sequentially
  consistent in the models of concurrent code: the weaker orders some loads ask for are not modelled. Waiting and backoff are steps that may happen at any time.
\<close>

section \<open>Commit and recovery\<close>

lemma append_keeps_file:
  assumes "Wal_Writer.append env bs w = (r, w')" "fd w" "\<not> poisoned w" "r \<noteq> Threw"
  shows "if r = Appended then fd w' else w' = w"
  using assms unfolding Wal_Writer.append_def append_ensure_file_def append_resize_def append_write_def Let_def
  by (auto split: if_splits prod.splits)

text \<open>
  C16. Commit and recovery agree. A snapshot transaction with logged operations commits through the log writer, whatever
  the file system answers to it. If its commit returned, recovery of the log file finds the update records that were
  there before, and the record of this transaction exactly if the commit returned true.
\<close>
theorem committed_update_recovered:
  assumes "fresh_snapshot ts t" "op_num (logical_redo (s_workspace t)) \<noteq> 0" "committed_generation (s_workspace t) \<noteq> None"
    and "0 < ts" "ts < u32_max" "content_size (logical_redo (s_workspace t)) < 2 ^ 30"
    and "writer_inv w" "fd w" "\<not> poisoned w" "log_bytes w = concat (map put_record rs)"
    and "list_all wf_record rs" "\<forall>r\<in>set rs. rec_ts r < u32_max \<and> rec_ts r \<noteq> ts" "distinct (map rec_ts rs)"
    and "body = drop header_size (arc (logical_redo (s_workspace t)))"
    and "Wal_Writer.append env (put_record (of_nat ts, True, body)) w = (app, w')"
    and "s_Commit (PreparedSlot gen) app t = (cs, Returned t' committed)"
  shows "AppendLog (put_record (of_nat ts, True, body)) app \<in> set cs \<and>
    (\<exists>p. parser_open [(LocalWalWriter.content w', file_size w')] = Inr p \<and>
      update_wal_list p = sort_key fst (file_updates rs @ (if committed then [(ts, body)] else [])))"
proof -
  let ?redo = "logical_redo (s_workspace t)" let ?r = "(of_nat ts, True, body) :: log_record"
  have un: "unat (of_nat ts :: u32) = ts" using assms(5) by (simp add: unat_of_nat take_bit_nat_eq_self)
  have len: "length body = content_size ?redo" using assms(14) by (simp add: content_size_def)
  have rc: "put_record ?r = put_WalHeader \<lparr> WalHeader.timestamp = of_nat ts, update_type = True, rec_length = int (content_size ?redo) \<rparr> @ drop header_size (arc ?redo)"
    using len by (simp add: put_record_def header_of_def assms(14))
  have s: "s_Commit (PreparedSlot gen) app t = (let t' = t \<lparr> s_workspace := (s_workspace t) \<lparr> logical_redo := ?redo \<lparr> arc := put_record ?r \<rparr> \<rparr> \<rparr> in
      emit [PrepareSnapshot (the (committed_generation (s_workspace t))), AppendLog (put_record ?r) app] (case app of
             Refused \<Rightarrow> emit [DiscardPrepared] (s_release None False t')
           | Threw \<Rightarrow> ([], Terminated)
           | Appended \<Rightarrow> emit [VM (BeginCommitReq ts), PublishPrepared gen]
               (s_release (Some gen) True (t' \<lparr> s_lease := \<lparr> UpdateTimestampLease.timestamp = ts, commit_started = True \<rparr> \<rparr>))))"
    unfolding s_Commit_cases [OF assms(1)] rc using assms(2,3) by (auto simp: Let_def split: option.split)
  have "s_lease t = \<lparr> UpdateTimestampLease.timestamp = ts, commit_started = False \<rparr>" "ts \<noteq> kInactiveTimestamp"
    using assms(1) by (simp_all add: fresh_snapshot_def)
  then have c: "AppendLog (put_record ?r) app \<in> set cs" "app \<noteq> Threw" "committed \<longleftrightarrow> app = Appended"
    using assms(16) unfolding s by (auto simp: emit_def s_release_def lease_do_def Finish_def Let_def split: append_result.splits)
  have k: "if app = Appended then fd w' else w' = w" by (rule append_keeps_file [OF assms(15,8,9) c(2)])
  have w': "writer_inv w'" "log_bytes w' = concat (map put_record (rs @ (if committed then [?r] else [])))" "fd w'"
    using append_cases [OF assms(15,7)] assms(8,10) c k by (cases committed; auto)+
  let ?rs = "rs @ (if committed then [?r] else [])"
  have "(of_nat ts :: u32) \<noteq> 0" using un assms(4) by (metis unat_0 less_irrefl)
  then have "list_all wf_record ?rs" using assms(6,11) len by (auto simp: wf_record_def)
  moreover have "\<forall>r\<in>set ?rs. rec_ts r < u32_max" using assms(5,12) un by auto
  moreover have "distinct (map rec_ts ?rs)" using assms(12,13) un by auto
  ultimately have "\<exists>p. parser_open [(LocalWalWriter.content w', file_size w')] = Inr p \<and> update_wal_list p = sort_key fst (file_updates ?rs)"
    using parse_log_file [OF w'(1,3,2)] by blast
  moreover have "file_updates ?rs = file_updates rs @ (if committed then [(ts, body)] else [])"
    using un by (simp add: file_updates_def)
  ultimately show ?thesis using c(1) by simp
qed

theorem committed_update_recovered_witness:
  "\<exists>app w' cs t' committed p.
     Wal_Writer.append \<lparr> create_ok = True, resize_ok = True, writes = [Wrote 9, Wrote 8], sync_ok = True \<rparr> (put_record (5, True, [7]))
       \<lparr> opened = True, poisoned = False, fd = True, file_size = 64, file_used = 0, LocalWalWriter.content = (\<lambda>_. 0) \<rparr> = (app, w') \<and>
     s_Commit (PreparedSlot 9) app sample_snapshot_txn = (cs, Returned t' committed) \<and>
     parser_open [(LocalWalWriter.content w', file_size w')] = Inr p \<and> update_wal_list p = [(5, [7])]"
proof -
  let ?env = "\<lparr> create_ok = True, resize_ok = True, writes = [Wrote 9, Wrote 8], sync_ok = True \<rparr>"
  let ?w = "\<lparr> opened = True, poisoned = False, fd = True, file_size = 64, file_used = 0, LocalWalWriter.content = (\<lambda>_. 0) \<rparr>"
  let ?t = sample_snapshot_txn and ?r = "put_record (of_nat 5, True, [7])"
  have z: "replicate header_size (0 :: u8) = [0, 0, 0, 0, 0, 0, 0, 0]" by (simp add: numeral_eq_Suc)
  have m: "map (\<lambda>i. 0 :: u8) [0..<8] = replicate header_size 0" by (simp add: map_replicate_const)
  have inv: "writer_inv ?w" "fd ?w" "\<not> poisoned ?w" "log_bytes ?w = concat (map put_record [])"
    by (simp_all add: writer_inv_def log_bytes_def slice_def m)
  have t: "op_num (logical_redo (s_workspace ?t)) \<noteq> 0" "committed_generation (s_workspace ?t) \<noteq> None"
    "content_size (logical_redo (s_workspace ?t)) < 2 ^ 30" "[7] = drop header_size (arc (logical_redo (s_workspace ?t)))"
    by (simp_all add: sample_snapshot_txn_def sample_redo_def workspace_new_def committed_generation_def PlanningChanged_def content_size_def)
  have l: "length ?r = 9" by (simp add: put_record_def)
  then obtain d ds where d: "?r = d # ds" by (cases ?r) auto
  have "fst (write_all_at ?r 0 [Wrote 9, Wrote 8] f) = (True, [Wrote 8])" for f using l unfolding d by simp
  then have "fst (Wal_Writer.append ?env ?r ?w) = Appended" using l d
    by (auto simp: Wal_Writer.append_def append_ensure_file_def append_resize_def append_write_def z split: prod.splits)
  then obtain w' where w': "Wal_Writer.append ?env ?r ?w = (Appended, w')" by (metis prod.collapse)
  obtain cs t' where c: "s_Commit (PreparedSlot 9) Appended ?t = (cs, Returned t' True)"
    unfolding s_Commit_cases [OF samples_fresh(1)]
    by (simp add: Let_def sample_snapshot_txn_def sample_redo_def workspace_new_def committed_generation_def PlanningChanged_def
      emit_def s_release_def lease_do_def Finish_def kInactiveTimestamp_def)
  have "\<exists>p. parser_open [(LocalWalWriter.content w', file_size w')] = Inr p \<and> update_wal_list p = [(5, [7])]"
    using committed_update_recovered [OF samples_fresh(1) t(1,2) _ _ t(3) inv _ _ _ t(4) w' c] by (simp add: file_updates_def)
  then show ?thesis using w' c by auto
qed

end
